(* ===== verification/Ovn_Prelude.thy ===== *)
theory Ovn_Prelude
  imports Main "HOL-Library.Monad_Syntax"
begin

unbundle bit_operations_syntax

text \<open>
  Shared vocabulary of the development: three-way comparison results as the C code returns
  them, monadic traversal of lists for fallible code, and facts about bit strings that the
  expression compiler relies on.  A failed \<open>ovs_assert\<close> or \<open>OVS_NOT_REACHED\<close> is the
  value \<open>None\<close> of the \<open>option\<close> type throughout.
\<close>

named_theorems ovn_simps \<open>equations that rewrite the model's operations to their meaning\<close>
named_theorems ovn_wf \<open>preservation of well-formedness by the model's operations\<close>

text \<open>\<open>struct uuid\<close> (Open vSwitch): 128 bits, only compared for equality.\<close>

type_synonym uuid = nat

section \<open>Three-way comparison\<close>

definition cmp3 :: "nat \<Rightarrow> nat \<Rightarrow> int" where
  "cmp3 a b = (if a < b then - 1 else if a > b then 1 else 0)"

lemma cmp3_simps [simp]:
  "cmp3 a b = 0 \<longleftrightarrow> a = b"
  "cmp3 a b < 0 \<longleftrightarrow> a < b"
  "cmp3 a b > 0 \<longleftrightarrow> b < a"
  "cmp3 a b \<le> 0 \<longleftrightarrow> a \<le> b"
  "cmp3 a b \<ge> 0 \<longleftrightarrow> b \<le> a"
  by (auto simp: cmp3_def)

text \<open>\<open>strcmp\<close> on byte strings.\<close>

fun strcmp :: "string \<Rightarrow> string \<Rightarrow> int" where
  "strcmp [] [] = 0"
| "strcmp [] (y # ys) = - 1"
| "strcmp (x # xs) [] = 1"
| "strcmp (x # xs) (y # ys) =
     (if x = y then strcmp xs ys else cmp3 (of_char x) (of_char y))"

lemma strcmp_eq_0 [simp]: "strcmp a b = 0 \<longleftrightarrow> a = b"
  by (induction a b rule: strcmp.induct) auto

lemma strcmp_refl [simp]: "strcmp a a = 0"
  by simp

lemma strcmp_less_0_swap: "strcmp a b < 0 \<longleftrightarrow> strcmp b a > 0"
  by (induction a b rule: strcmp.induct) auto

lemma strcmp_antisym: "strcmp a b \<le> 0 \<Longrightarrow> strcmp b a \<le> 0 \<Longrightarrow> a = b"
  using strcmp_less_0_swap [of a b] strcmp_eq_0 [of a b] by linarith

lemma strcmp_trans: "strcmp a b \<le> 0 \<Longrightarrow> strcmp b c \<le> 0 \<Longrightarrow> strcmp a c \<le> 0"
proof (induction a b arbitrary: c rule: strcmp.induct)
  case 1
  then show ?case by simp
next
  case (2 y ys)
  then show ?case by (cases c) auto
next
  case (3 x xs)
  then show ?case by simp
next
  case (4 x xs y ys)
  then show ?case by (cases c) (auto split: if_splits)
qed

lemma strcmp_total: "strcmp a b \<le> 0 \<or> strcmp b a \<le> 0"
  by (induction a b rule: strcmp.induct) auto

section \<open>Traversals of lists by fallible code\<close>

fun mapM :: "('a \<Rightarrow> 'b option) \<Rightarrow> 'a list \<Rightarrow> 'b list option" where
  "mapM f [] = Some []"
| "mapM f (x # xs) = do { y \<leftarrow> f x; ys \<leftarrow> mapM f xs; Some (y # ys) }"

lemma mapM_cong [fundef_cong]:
  "xs = ys \<Longrightarrow> (\<And>x. x \<in> set ys \<Longrightarrow> f x = g x) \<Longrightarrow> mapM f xs = mapM g ys"
  by (induction xs arbitrary: ys) auto

lemma mapM_Some_iff: "mapM f xs = Some ys \<longleftrightarrow> list_all2 (\<lambda>x y. f x = Some y) xs ys"
proof (induction xs arbitrary: ys)
  case Nil
  then show ?case by auto
next
  case (Cons x xs)
  show ?case
    by (cases "f x"; cases "mapM f xs") (auto simp: list_all2_Cons1 Cons.IH [symmetric])
qed

lemma mapM_ex:
  assumes "\<And>x. x \<in> set xs \<Longrightarrow> \<exists>y. f x = Some y"
  shows "\<exists>ys. mapM f xs = Some ys"
  using assms by (induction xs) fastforce+

lemma mapM_Some_cong: "mapM f xs = Some ys \<Longrightarrow> map f xs = map Some ys"
  by (induction xs arbitrary: ys) (auto split: bind_splits)

lemma list_all2_exI:
  "list_all2 P xs ys \<Longrightarrow> x \<in> set xs \<Longrightarrow> \<exists>y \<in> set ys. P x y"
  by (induction rule: list_all2_induct) auto

lemma list_all2_exI2:
  "list_all2 P xs ys \<Longrightarrow> y \<in> set ys \<Longrightarrow> \<exists>x \<in> set xs. P x y"
  by (induction rule: list_all2_induct) auto

lemma list_cases3:
  obtains "xs = []" | x where "xs = [x]" | x y ys where "xs = x # y # ys"
  by (cases xs; cases "tl xs") auto

lemma nth_list_update_if: "xs[i := v] ! q = (if i = q \<and> i < length xs then v else xs ! q)"
  by (cases "i < length xs") (auto simp: nth_list_update list_update_beyond)

section \<open>Stable sorting by a three-way comparison\<close>

text \<open>\<open>qsort\<close> with a comparison callback: a stable insertion sort over the callback's sign.\<close>

fun insort3 :: "('a \<Rightarrow> 'a \<Rightarrow> int) \<Rightarrow> 'a \<Rightarrow> 'a list \<Rightarrow> 'a list" where
  "insort3 c x [] = [x]"
| "insort3 c x (y # ys) = (if c x y \<le> 0 then x # y # ys else y # insort3 c x ys)"

fun qsort :: "('a \<Rightarrow> 'a \<Rightarrow> int) \<Rightarrow> 'a list \<Rightarrow> 'a list" where
  "qsort c [] = []"
| "qsort c (x # xs) = insort3 c x (qsort c xs)"

lemma set_insort3 [simp]: "set (insort3 c x xs) = insert x (set xs)"
  by (induction xs) auto

lemma set_qsort [simp]: "set (qsort c xs) = set xs"
  by (induction xs) auto

lemma length_insort3 [simp]: "length (insort3 c x xs) = Suc (length xs)"
  by (induction xs) auto

lemma length_qsort [simp]: "length (qsort c xs) = length xs"
  by (induction xs) auto

lemma sorted_wrt_insort3:
  assumes total: "\<And>a b. a \<in> X \<Longrightarrow> b \<in> X \<Longrightarrow> c a b \<le> 0 \<or> c b a \<le> 0"
    and trans: "\<And>a b d. a \<in> X \<Longrightarrow> b \<in> X \<Longrightarrow> d \<in> X \<Longrightarrow> c a b \<le> 0 \<Longrightarrow> c b d \<le> 0 \<Longrightarrow> c a d \<le> 0"
    and "sorted_wrt (\<lambda>a b. c a b \<le> 0) xs" "insert x (set xs) \<subseteq> X"
  shows "sorted_wrt (\<lambda>a b. c a b \<le> 0) (insort3 c x xs)"
  using assms(3,4)
proof (induction xs)
  case Nil
  then show ?case by simp
next
  case (Cons y ys)
  have in_X: "x \<in> X" "y \<in> X" "\<And>z. z \<in> set ys \<Longrightarrow> z \<in> X" using Cons.prems by auto
  show ?case
  proof (cases "c x y \<le> 0")
    case True
    then have "c x z \<le> 0" if "z \<in> set ys" for z
      using trans [of x y z] in_X that Cons.prems by auto
    then show ?thesis using True Cons.prems by simp
  next
    case False
    then show ?thesis using total [of x y] in_X Cons by auto
  qed
qed

lemma sorted_wrt_qsort:
  assumes "\<And>a b. a \<in> X \<Longrightarrow> b \<in> X \<Longrightarrow> c a b \<le> 0 \<or> c b a \<le> 0"
    and "\<And>a b d. a \<in> X \<Longrightarrow> b \<in> X \<Longrightarrow> d \<in> X \<Longrightarrow> c a b \<le> 0 \<Longrightarrow> c b d \<le> 0 \<Longrightarrow> c a d \<le> 0"
    and "set xs \<subseteq> X"
  shows "sorted_wrt (\<lambda>a b. c a b \<le> 0) (qsort c xs)"
  using assms(3)
proof (induction xs)
  case Nil
  then show ?case by simp
next
  case (Cons x xs)
  then show ?case using sorted_wrt_insort3 [of X c "qsort c xs" x, OF assms(1,2)] by simp
qed

section \<open>Bit strings\<close>

lemma all_greater_Suc: "(\<forall>i > k. P i) \<longleftrightarrow> (\<forall>i \<ge> k. P (Suc i))" for k :: nat
  by (metis Suc_le_D Suc_le_mono less_eq_Suc_le)

lemma ex_nat_split: "(\<exists>z. P z) \<longleftrightarrow> P 0 \<or> (\<exists>z. P (Suc z))"
  by (metis not0_implies_Suc)

lemma less_div_2_iff:
  "a < b \<longleftrightarrow> (even a \<and> odd b \<and> a div 2 = b div 2) \<or> a div 2 < b div 2" for a b :: nat
  by (cases "even a"; cases "even b") (auto elim!: evenE oddE)

text \<open>The highest bit in which two bit strings differ.\<close>

definition top_diff :: "nat \<Rightarrow> nat \<Rightarrow> nat \<Rightarrow> bool" where
  "top_diff a b z \<longleftrightarrow> \<not> bit a z \<and> bit b z \<and> (\<forall>i > z. bit a i = bit b i)"

lemma top_diff_0: "top_diff a b 0 \<longleftrightarrow> even a \<and> odd b \<and> a div 2 = b div 2"
  unfolding top_diff_def all_greater_Suc
  by (simp add: bit_0 bit_Suc bit_eq_iff [of "a div 2" "b div 2"])

lemma top_diff_Suc: "top_diff a b (Suc z) \<longleftrightarrow> top_diff (a div 2) (b div 2) z"
  unfolding top_diff_def all_greater_Suc [of "Suc z"]
  by (simp add: bit_Suc Suc_le_eq)

text \<open>Comparing numbers is comparing the highest bit in which they differ.\<close>

lemma nat_less_bits: "a < b \<longleftrightarrow> (\<exists>z. top_diff a b z)"
proof (induction "a + b" arbitrary: a b rule: less_induct)
  case less
  show ?case
  proof (cases "a = 0 \<and> b = 0")
    case True
    then show ?thesis by (simp add: top_diff_def)
  next
    case False
    then have "a div 2 + b div 2 < a + b" by arith
    from less [OF this] have "(\<exists>z. top_diff a b (Suc z)) \<longleftrightarrow> a div 2 < b div 2"
      by (simp add: top_diff_Suc)
    then have "(\<exists>z. top_diff a b z) \<longleftrightarrow>
        (even a \<and> odd b \<and> a div 2 = b div 2) \<or> a div 2 < b div 2"
      by (subst ex_nat_split) (simp only: top_diff_0)
    then show ?thesis using less_div_2_iff by blast
  qed
qed

end
