(* ===== verification/Ovs_Bits.thy ===== *)
theory Ovs_Bits
  imports Ovn_Prelude
begin

text \<open>
  The bit-string routines of Open vSwitch that OVN's expression code calls, and the order in which
  a string set is visited.  Open vSwitch is a
  separate code base, so these routines are parameters: a record of functions, passed to every
  definition that calls one, and the locale \<open>ovs_bits_api\<close> with their documented contracts.  A
  \<open>union mf_subvalue\<close> is a fixed-size big-endian bit string; it is represented by the natural
  number it denotes, bit \<open>i\<close> being the \<open>i\<close>-th least significant one.
\<close>

type_synonym mf_subvalue = nat

record ovs_bits =
  mf_subvalue_bits :: nat  \<comment> \<open>\<open>8 * sizeof(union mf_subvalue)\<close>\<close>
  bitwise_scan :: "mf_subvalue \<Rightarrow> bool \<Rightarrow> nat \<Rightarrow> nat \<Rightarrow> nat"
  bitwise_get_bit :: "mf_subvalue \<Rightarrow> nat \<Rightarrow> bool"
  bitwise_put_bit :: "mf_subvalue \<Rightarrow> nat \<Rightarrow> bool \<Rightarrow> mf_subvalue"
  bitwise_put1 :: "mf_subvalue \<Rightarrow> nat \<Rightarrow> mf_subvalue"
  bitwise_toggle_bit :: "mf_subvalue \<Rightarrow> nat \<Rightarrow> mf_subvalue"
  bitwise_zero :: "mf_subvalue \<Rightarrow> nat \<Rightarrow> nat \<Rightarrow> mf_subvalue"
  bitwise_one :: "mf_subvalue \<Rightarrow> nat \<Rightarrow> nat \<Rightarrow> mf_subvalue"
  bitwise_copy :: "mf_subvalue \<Rightarrow> nat \<Rightarrow> mf_subvalue \<Rightarrow> nat \<Rightarrow> nat \<Rightarrow> mf_subvalue"
  is_all_zeros :: "mf_subvalue \<Rightarrow> bool"
  mf_subvalue_intersect ::
    "mf_subvalue \<Rightarrow> mf_subvalue \<Rightarrow> mf_subvalue \<Rightarrow> mf_subvalue \<Rightarrow> (mf_subvalue \<times> mf_subvalue) option"
  mf_subvalue_shift :: "mf_subvalue \<Rightarrow> nat \<Rightarrow> mf_subvalue"
  mf_subvalue_width :: "mf_subvalue \<Rightarrow> nat"
  bitmap_count1 :: "mf_subvalue \<Rightarrow> nat \<Rightarrow> nat"
  bitmap_is_superset :: "mf_subvalue \<Rightarrow> mf_subvalue \<Rightarrow> nat \<Rightarrow> bool"
  sset_order :: "string list \<Rightarrow> string list"  \<comment> \<open>the order in which \<open>SSET_FOR_EACH\<close> visits a string set\<close>

text \<open>The mask with ones at positions \<open>s\<close> to \<open>e - 1\<close>.\<close>

definition bit_range :: "nat \<Rightarrow> nat \<Rightarrow> nat" where
  "bit_range s e = push_bit s (mask (e - s))"

lemma bit_bit_range [simp]: "bit (bit_range s e) i \<longleftrightarrow> s \<le> i \<and> i < e"
  by (auto simp: bit_range_def bit_simps)

lemma bit_range_empty [simp]: "bit_range s s = 0"
  by (simp add: bit_range_def)

text \<open>The number of one bits among the low \<open>n\<close> bits.\<close>

definition count1 :: "nat \<Rightarrow> nat \<Rightarrow> nat" where
  "count1 v n = length (filter (bit v) [0..<n])"

lemma count1_code [code]:
  "count1 v 0 = 0"
  "count1 v (Suc n) = (if odd v then Suc (count1 (v div 2) n) else count1 (v div 2) n)"
proof -
  have "[0..<Suc n] = 0 # map Suc [0..<n]" by (simp add: upt_conv_Cons map_Suc_upt)
  then show "count1 v (Suc n) = (if odd v then Suc (count1 (v div 2) n) else count1 (v div 2) n)"
    by (simp add: count1_def filter_map comp_def bit_0 bit_Suc)
qed (simp add: count1_def)

lemma count1_card: "count1 v n = card {i. i < n \<and> bit v i}"
proof -
  have "count1 v n = card (set (filter (bit v) [0..<n]))"
    unfolding count1_def by (rule distinct_card [symmetric]) simp
  also have "set (filter (bit v) [0..<n]) = {i. i < n \<and> bit v i}" by auto
  finally show ?thesis .
qed

locale ovs_bits_api =
  fixes L :: ovs_bits
  assumes scan_bounds: "s \<le> e \<Longrightarrow> s \<le> bitwise_scan L v t s e \<and> bitwise_scan L v t s e \<le> e"
    and scan_hit: "s \<le> e \<Longrightarrow> bitwise_scan L v t s e < e \<Longrightarrow> bit v (bitwise_scan L v t s e) = t"
    and scan_first: "s \<le> i \<Longrightarrow> i < bitwise_scan L v t s e \<Longrightarrow> i < e \<Longrightarrow> bit v i \<noteq> t"
    and get_bit: "bitwise_get_bit L v i = bit v i"
    and put_bit: "bitwise_put_bit L v i on = (if on then set_bit i v else unset_bit i v)"
    and put1: "bitwise_put1 L v i = set_bit i v"
    and toggle_bit: "bitwise_toggle_bit L v i = flip_bit i v"
    and zero_bits: "bit (bitwise_zero L v s n) i \<longleftrightarrow> bit v i \<and> \<not> (s \<le> i \<and> i < s + n)"
    and one_bits: "bit (bitwise_one L v s n) i \<longleftrightarrow> bit v i \<or> (s \<le> i \<and> i < s + n)"
    and copy_bits: "bit (bitwise_copy L src so dst d n) i \<longleftrightarrow>
      (if d \<le> i \<and> i < d + n then bit src (so + (i - d)) else bit dst i)"
    and all_zeros: "is_all_zeros L v \<longleftrightarrow> v = 0"
    and intersect: "mf_subvalue_intersect L av am bv bm =
      (if (av XOR bv) AND (am AND bm) = 0 then Some (av OR bv, am OR bm) else None)"
    and shift: "bit (mf_subvalue_shift L v n) i \<longleftrightarrow> n \<le> i \<and> i < mf_subvalue_bits L \<and> bit v (i - n)"
    and width: "mf_subvalue_width L v \<le> n \<longleftrightarrow> v < 2 ^ n"
    and count: "bitmap_count1 L v n = count1 v n"
    and superset: "bitmap_is_superset L a b n \<longleftrightarrow> (\<forall>i < n. bit b i \<longrightarrow> bit a i)"
    and sset_order_set: "set (sset_order L xs) = set xs"
    and sset_order_length: "length (sset_order L xs) = length xs"
begin

lemmas bits_simps = get_bit put_bit put1 toggle_bit zero_bits one_bits copy_bits all_zeros
  intersect shift width count superset

lemma scan_eq_end_iff:
  assumes "s \<le> e"
  shows "bitwise_scan L v t s e = e \<longleftrightarrow> (\<forall>i. s \<le> i \<and> i < e \<longrightarrow> bit v i \<noteq> t)"
  using scan_bounds [OF assms, of v t] scan_hit [OF assms, of v t] scan_first [of s _ v t e]
  by (metis le_neq_implies_less)

end

section \<open>A reference instance\<close>

text \<open>
  One concrete set of routines with these contracts, for 1024-bit strings.  It shows that the
  contracts can hold together and makes closed instances of the development's theorems
  computable.
\<close>

fun scan_ref :: "nat \<Rightarrow> mf_subvalue \<Rightarrow> bool \<Rightarrow> nat \<Rightarrow> nat" where
  "scan_ref 0 v t s = s"
| "scan_ref (Suc n) v t s = (if bit v s = t then s else scan_ref n v t (Suc s))"

definition ref_shift :: "mf_subvalue \<Rightarrow> nat \<Rightarrow> mf_subvalue" where
  "ref_shift v n = take_bit 1024 (push_bit n v)"

definition ref_bits :: ovs_bits where
  "ref_bits = \<lparr>
     mf_subvalue_bits = 1024,
     bitwise_scan = (\<lambda>v t s e. scan_ref (e - s) v t s),
     bitwise_get_bit = (\<lambda>v i. bit v i),
     bitwise_put_bit = (\<lambda>v i b. if b then set_bit i v else unset_bit i v),
     bitwise_put1 = (\<lambda>v i. set_bit i v),
     bitwise_toggle_bit = (\<lambda>v i. flip_bit i v),
     bitwise_zero = (\<lambda>v s n. (v OR bit_range s (s + n)) XOR bit_range s (s + n)),
     bitwise_one = (\<lambda>v s n. v OR bit_range s (s + n)),
     bitwise_copy = (\<lambda>src so dst d n.
       ((dst OR bit_range d (d + n)) XOR bit_range d (d + n)) OR
       push_bit d (take_bit n (drop_bit so src))),
     is_all_zeros = (\<lambda>v. v = 0),
     mf_subvalue_intersect = (\<lambda>av am bv bm.
       if (av XOR bv) AND (am AND bm) = 0 then Some (av OR bv, am OR bm) else None),
     mf_subvalue_shift = ref_shift,
     mf_subvalue_width = (\<lambda>v. length (takeWhile (\<lambda>n. 2 ^ n \<le> v) [0..<Suc v])),
     bitmap_count1 = count1,
     bitmap_is_superset = (\<lambda>a b n. list_all (\<lambda>i. bit b i \<longrightarrow> bit a i) [0..<n]),
     sset_order = (\<lambda>xs. xs)\<rparr>"

lemma scan_ref_bounds: "s \<le> scan_ref n v t s \<and> scan_ref n v t s \<le> s + n"
  by (induction n v t s rule: scan_ref.induct) auto

lemma scan_ref_hit: "scan_ref n v t s < s + n \<Longrightarrow> bit v (scan_ref n v t s) = t"
  by (induction n v t s rule: scan_ref.induct) auto

lemma scan_ref_first: "s \<le> i \<Longrightarrow> i < scan_ref n v t s \<Longrightarrow> bit v i \<noteq> t"
proof (induction n v t s rule: scan_ref.induct)
  case (1 v t s)
  then show ?case by simp
next
  case (2 n v t s)
  then show ?case by (cases "i = s") (auto split: if_splits)
qed

lemma width_ref: "length (takeWhile (\<lambda>n. 2 ^ n \<le> v) [0..<Suc v]) \<le> n \<longleftrightarrow> v < 2 ^ n"
proof -
  let ?t = "takeWhile (\<lambda>n. 2 ^ n \<le> v) [0..<Suc v]"
  have bound: "v < 2 ^ v" by simp
  have len: "length ?t \<le> v"
  proof (rule ccontr)
    assume "\<not> length ?t \<le> v"
    then have "v < length ?t" by simp
    then have "?t ! v \<in> set ?t" by (rule nth_mem)
    moreover have "?t ! v = v"
      using \<open>v < length ?t\<close> by (simp add: takeWhile_nth del: upt_Suc)
    ultimately have "2 ^ v \<le> v" by (auto dest!: set_takeWhileD simp del: upt_Suc)
    with bound show False by (meson leD)
  qed
  have in_t: "2 ^ k \<le> v" if "k < length ?t" for k
  proof -
    have "?t ! k \<in> set ?t" using that by (rule nth_mem)
    moreover have "?t ! k = k" using that len by (simp add: takeWhile_nth del: upt_Suc)
    ultimately show ?thesis by (auto dest!: set_takeWhileD)
  qed
  have out_t: "v < 2 ^ length ?t"
    using nth_length_takeWhile [of "\<lambda>n. 2 ^ n \<le> v" "[0..<Suc v]"] len by (simp del: upt_Suc)
  show ?thesis
  proof
    assume "length ?t \<le> n"
    then have "2 ^ length ?t \<le> (2 :: nat) ^ n" by simp
    with out_t show "v < 2 ^ n" by linarith
  next
    assume "v < 2 ^ n"
    with in_t [of n] show "length ?t \<le> n" by (meson leD leI)
  qed
qed

interpretation ref: ovs_bits_api ref_bits
proof
  fix s e :: nat and v t
  assume "s \<le> e"
  then show "s \<le> bitwise_scan ref_bits v t s e \<and> bitwise_scan ref_bits v t s e \<le> e"
    using scan_ref_bounds [of s "e - s" v t] by (simp add: ref_bits_def)
next
  fix s e :: nat and v t
  assume "s \<le> e" "bitwise_scan ref_bits v t s e < e"
  then show "bit v (bitwise_scan ref_bits v t s e) = t"
    using scan_ref_hit [of "e - s" v t s] by (simp add: ref_bits_def)
next
  fix s i e :: nat and v t
  assume "s \<le> i" "i < bitwise_scan ref_bits v t s e"
  then show "bit v i \<noteq> t"
    using scan_ref_first [of s i "e - s" v t] by (simp add: ref_bits_def)
next
  fix v n
  show "mf_subvalue_width ref_bits v \<le> n \<longleftrightarrow> v < 2 ^ n"
    using width_ref by (simp add: ref_bits_def)
qed (auto simp: ref_bits_def ref_shift_def bit_simps list_all_iff)

end
