(* ===== verification/Ovs_Flow.thy ===== *)
theory Ovs_Flow
  imports Ovs_Bits
begin

text \<open>
  Open vSwitch's flow metadata as OVN sees it: \<open>struct mf_field\<close> with the members OVN reads,
  and the accessors of a microflow (\<open>struct flow\<close>, here a type variable) as a record of
  parameters.
\<close>

record mf_field =
  mf_id :: nat
  mf_n_bytes :: nat
  mf_n_bits :: nat
  mf_fully_maskable :: bool  \<comment> \<open>\<open>maskable == MFM_FULLY\<close>\<close>
  mf_writable :: bool

record 'fl flow_ops =
  mf_get_value :: "mf_field \<Rightarrow> 'fl \<Rightarrow> nat"
  mf_get_subfield :: "mf_field \<Rightarrow> nat \<Rightarrow> nat \<Rightarrow> 'fl \<Rightarrow> nat"

locale flow_api =
  fixes F :: "'fl flow_ops"
  assumes get_value_bound: "mf_n_bits f \<le> 8 * mf_n_bytes f \<Longrightarrow> mf_get_value F f fl < 2 ^ mf_n_bits f"
    and get_subfield: "mf_get_subfield F f ofs n fl = take_bit n (drop_bit ofs (mf_get_value F f fl))"
begin

lemma get_whole_field:
  "mf_n_bits f \<le> 8 * mf_n_bytes f \<Longrightarrow> mf_get_subfield F f 0 (mf_n_bits f) fl = mf_get_value F f fl"
  using get_value_bound [of f fl] by (simp add: get_subfield take_bit_nat_eq_self)

end

text \<open>A microflow given by the values of its fields is an instance.\<close>

definition ref_flow :: "(nat \<Rightarrow> nat) flow_ops" where
  "ref_flow = \<lparr>
     mf_get_value = (\<lambda>f fl. take_bit (mf_n_bits f) (fl (mf_id f))),
     mf_get_subfield = (\<lambda>f ofs n fl. take_bit n (drop_bit ofs (take_bit (mf_n_bits f) (fl (mf_id f)))))\<rparr>"

interpretation rflow: flow_api ref_flow
  by unfold_locales (auto simp: ref_flow_def)

end
