(* ===== verification/Expr_Core.thy ===== *)
theory Expr_Core
  imports Ovs_Flow
begin

text \<open>
  The expression tree of \<open>include/ovn/expr.h\<close> and the constructors and predicates of
  \<open>lib/expr.c\<close> that every phase of the expression compiler uses: relational operators,
  \<open>expr_combine\<close>, \<open>expr_insert_andor\<close>, \<open>expr_not\<close>, \<open>expr_fix\<close>, \<open>expr_get_unique_symbol\<close>,
  \<open>expr_honors_invariants\<close>, the normal-form test and the evaluator \<open>expr_evaluate\<close>.  The
  meaning \<open>sem\<close> of an expression in an environment is the abstract specification the other
  theories refer to.
\<close>

section \<open>Data\<close>

datatype expr_level = EXPR_L_NOMINAL | EXPR_L_BOOLEAN | EXPR_L_ORDINAL

datatype expr_relop = EXPR_R_EQ | EXPR_R_NE | EXPR_R_LT | EXPR_R_LE | EXPR_R_GT | EXPR_R_GE

datatype expr_cond_type = EXPR_COND_CHASSIS_RESIDENT

datatype expr_type = EXPR_T_CMP | EXPR_T_AND | EXPR_T_OR | EXPR_T_BOOLEAN | EXPR_T_CONDITION

text \<open>
  A symbol; \<open>None\<close> is the null pointer.  Two symbols of one symbol table are the same object
  exactly if they are equal as values, because a table holds one symbol per name.
\<close>

datatype expr_symbol = Expr_Symbol
  (sym_name: string)
  (sym_width: nat)
  (sym_field: "mf_field option")
  (sym_ovn_field: "nat option")
  (sym_parent: "expr_symbol option")
  (sym_parent_ofs: nat)
  (sym_predicate: "string option")
  (sym_level: expr_level)
  (sym_prereqs: "string option")
  (sym_must_crossproduct: bool)
  (sym_rw: nat)

text \<open>
  A comparison.  The C \<open>union\<close> holds either the string (symbols of width 0) or value and mask
  (symbols of positive width); the member that is not in use stays at its zero value.
\<close>

record expr_cmp =
  cmp_symbol :: expr_symbol
  cmp_relop :: expr_relop
  cmp_string :: string
  cmp_value :: mf_subvalue
  cmp_mask :: mf_subvalue

datatype junction = J_AND | J_OR

text \<open>
  Expression trees.  \<open>Andor\<close> is an \<open>EXPR_T_AND\<close> or \<open>EXPR_T_OR\<close> node with its children.  Only
  comparisons carry an address set name: every other node is created zeroed and no code stores
  a name in it.
\<close>

datatype expr =
    Cmp "string option" expr_cmp
  | Andor junction "expr list"
  | Boolean bool
  | Condition expr_cond_type bool string

fun expr_type_of :: "expr \<Rightarrow> expr_type" where
  "expr_type_of (Cmp _ _) = EXPR_T_CMP"
| "expr_type_of (Andor J_AND _) = EXPR_T_AND"
| "expr_type_of (Andor J_OR _) = EXPR_T_OR"
| "expr_type_of (Boolean _) = EXPR_T_BOOLEAN"
| "expr_type_of (Condition _ _ _) = EXPR_T_CONDITION"

fun is_junct :: "junction \<Rightarrow> expr \<Rightarrow> bool" where
  "is_junct j (Andor k _) \<longleftrightarrow> j = k"
| "is_junct j _ \<longleftrightarrow> False"

fun andor_subs :: "expr \<Rightarrow> expr list" where
  "andor_subs (Andor _ es) = es"
| "andor_subs _ = []"

lemma is_junct_iff: "is_junct j e \<longleftrightarrow> (\<exists>es. e = Andor j es)"
  by (cases e) auto

section \<open>Relational operators\<close>

fun expr_relop_turn :: "expr_relop \<Rightarrow> expr_relop" where
  "expr_relop_turn EXPR_R_EQ = EXPR_R_EQ"
| "expr_relop_turn EXPR_R_NE = EXPR_R_NE"
| "expr_relop_turn EXPR_R_LT = EXPR_R_GT"
| "expr_relop_turn EXPR_R_LE = EXPR_R_GE"
| "expr_relop_turn EXPR_R_GT = EXPR_R_LT"
| "expr_relop_turn EXPR_R_GE = EXPR_R_LE"

fun expr_relop_invert :: "expr_relop \<Rightarrow> expr_relop" where
  "expr_relop_invert EXPR_R_EQ = EXPR_R_NE"
| "expr_relop_invert EXPR_R_NE = EXPR_R_EQ"
| "expr_relop_invert EXPR_R_LT = EXPR_R_GE"
| "expr_relop_invert EXPR_R_LE = EXPR_R_GT"
| "expr_relop_invert EXPR_R_GT = EXPR_R_LE"
| "expr_relop_invert EXPR_R_GE = EXPR_R_LT"

fun expr_relop_test :: "expr_relop \<Rightarrow> int \<Rightarrow> bool" where
  "expr_relop_test EXPR_R_EQ c \<longleftrightarrow> c = 0"
| "expr_relop_test EXPR_R_NE c \<longleftrightarrow> c \<noteq> 0"
| "expr_relop_test EXPR_R_LT c \<longleftrightarrow> c < 0"
| "expr_relop_test EXPR_R_LE c \<longleftrightarrow> c \<le> 0"
| "expr_relop_test EXPR_R_GT c \<longleftrightarrow> c > 0"
| "expr_relop_test EXPR_R_GE c \<longleftrightarrow> c \<ge> 0"

lemma relop_test_invert [simp]:
  "expr_relop_test (expr_relop_invert r) c \<longleftrightarrow> \<not> expr_relop_test r c"
  by (cases r) auto

lemma relop_test_turn [simp]:
  "expr_relop_test (expr_relop_turn r) (cmp3 a b) \<longleftrightarrow> expr_relop_test r (cmp3 b a)"
  by (cases r) (auto simp: cmp3_def)

lemma relop_invert_invert [simp]: "expr_relop_invert (expr_relop_invert r) = r"
  by (cases r) auto

section \<open>Constructing and manipulating expressions\<close>

fun expr_combine :: "junction \<Rightarrow> expr option \<Rightarrow> expr option \<Rightarrow> expr option" where
  "expr_combine j None b = b"
| "expr_combine j (Some a) None = Some a"
| "expr_combine j (Some a) (Some b) = Some
     (if is_junct j a then
        (if is_junct j b then Andor j (andor_subs a @ andor_subs b)
         else Andor j (andor_subs a @ [b]))
      else if is_junct j b then Andor j (a # andor_subs b)
      else Andor j [a, b])"

text \<open>
  The nodes that \<open>expr_insert_andor\<close> puts in place of \<open>new\<close> among the children of a node of
  type \<open>j\<close>: the children of \<open>new\<close> if it has the same type, otherwise \<open>new\<close> itself.
\<close>

definition expr_insert_andor :: "junction \<Rightarrow> expr \<Rightarrow> expr list" where
  "expr_insert_andor j new = (if is_junct j new then andor_subs new else [new])"

fun junction_flip :: "junction \<Rightarrow> junction" where
  "junction_flip J_AND = J_OR"
| "junction_flip J_OR = J_AND"

lemma junction_flip_eq_iff [simp]:
  "junction_flip j = junction_flip k \<longleftrightarrow> j = k" "junction_flip (junction_flip j) = j"
  by (cases j; cases k; simp) (cases j; simp)

fun expr_not :: "expr \<Rightarrow> expr" where
  "expr_not (Cmp as c) = Cmp as (c\<lparr>cmp_relop := expr_relop_invert (cmp_relop c)\<rparr>)"
| "expr_not (Andor j es) = Andor (junction_flip j) (map expr_not es)"
| "expr_not (Boolean b) = Boolean (\<not> b)"
| "expr_not (Condition t n s) = Condition t (\<not> n) s"

text \<open>
  The loop of \<open>expr_fix_andor\<close>: drops the neutral constant, \<open>None\<close> at the first absorbing one.
\<close>

fun fix_andor_scan :: "bool \<Rightarrow> expr list \<Rightarrow> expr list option" where
  "fix_andor_scan sc [] = Some []"
| "fix_andor_scan sc (Boolean b # es) = (if b = sc then None else fix_andor_scan sc es)"
| "fix_andor_scan sc (e # es) = map_option ((#) e) (fix_andor_scan sc es)"

definition expr_fix_andor :: "junction \<Rightarrow> expr list \<Rightarrow> bool \<Rightarrow> expr" where
  "expr_fix_andor j es sc =
     (case fix_andor_scan sc es of
        None \<Rightarrow> Boolean sc
      | Some [] \<Rightarrow> Boolean (\<not> sc)
      | Some [e] \<Rightarrow> e
      | Some es' \<Rightarrow> Andor j es')"

fun expr_fix :: "expr \<Rightarrow> expr" where
  "expr_fix (Andor J_AND es) = expr_fix_andor J_AND es False"
| "expr_fix (Andor J_OR es) = expr_fix_andor J_OR es True"
| "expr_fix e = e"

section \<open>Inspecting expressions\<close>

fun expr_get_unique_symbol :: "expr \<Rightarrow> expr_symbol option"
and unique_symbol_loop :: "expr_symbol option \<Rightarrow> expr list \<Rightarrow> expr_symbol option" where
  "expr_get_unique_symbol (Cmp _ c) = Some (cmp_symbol c)"
| "expr_get_unique_symbol (Andor _ es) = unique_symbol_loop None es"
| "expr_get_unique_symbol (Boolean _) = None"
| "expr_get_unique_symbol (Condition _ _ _) = None"
| "unique_symbol_loop prev [] = prev"
| "unique_symbol_loop prev (e # es) =
     (case expr_get_unique_symbol e of
        None \<Rightarrow> None
      | Some s \<Rightarrow> if prev \<noteq> None \<and> prev \<noteq> Some s then None else unique_symbol_loop (Some s) es)"

fun expr_honors_invariants :: "expr \<Rightarrow> bool" where
  "expr_honors_invariants (Cmp _ c) \<longleftrightarrow>
     (sym_width (cmp_symbol c) > 0 \<longrightarrow> cmp_value c AND cmp_mask c = cmp_value c)"
| "expr_honors_invariants (Andor j es) \<longleftrightarrow>
     2 \<le> length es \<and> (\<forall>e \<in> set es. \<not> is_junct j e \<and> expr_honors_invariants e)"
| "expr_honors_invariants (Boolean _) \<longleftrightarrow> True"
| "expr_honors_invariants (Condition _ _ _) \<longleftrightarrow> True"

definition expr_is_normalized_and :: "expr \<Rightarrow> bool" where
  "expr_is_normalized_and e \<longleftrightarrow> (\<forall>sub \<in> set (andor_subs e). expr_get_unique_symbol sub \<noteq> None)"

fun expr_is_normalized :: "expr \<Rightarrow> bool" where
  "expr_is_normalized (Cmp _ _) \<longleftrightarrow> True"
| "expr_is_normalized (Andor J_AND es) \<longleftrightarrow> expr_is_normalized_and (Andor J_AND es)"
| "expr_is_normalized (Andor J_OR es) \<longleftrightarrow>
     (expr_get_unique_symbol (Andor J_OR es) = None \<longrightarrow>
       (\<forall>sub \<in> set es. expr_get_unique_symbol sub \<noteq> None \<or> expr_is_normalized_and sub))"
| "expr_is_normalized (Boolean _) \<longleftrightarrow> True"
| "expr_is_normalized (Condition _ _ _) \<longleftrightarrow> False"

section \<open>Evaluation against a microflow\<close>

text \<open>\<open>None\<close> stands for reading through the null \<open>field\<close> pointer of the symbol.\<close>

definition expr_evaluate_cmp ::
  "'fl flow_ops \<Rightarrow> 'fl \<Rightarrow> (string \<Rightarrow> nat option) \<Rightarrow> expr_cmp \<Rightarrow> bool option" where
  "expr_evaluate_cmp F fl lookup_port c =
     (case sym_field (cmp_symbol c) of
        None \<Rightarrow> None
      | Some field \<Rightarrow>
          if sym_width (cmp_symbol c) > 0 then
            (let cst = take_bit (8 * mf_n_bytes field) (cmp_value c);
                 mask = take_bit (8 * mf_n_bytes field) (cmp_mask c);
                 value = mf_get_value F field fl AND mask
             in Some (expr_relop_test (cmp_relop c) (cmp3 value cst)))
          else
            (let value = mf_get_subfield F field 0 (mf_n_bits field) fl
             in case lookup_port (cmp_string c) of
                  None \<Rightarrow> Some False
                | Some cst \<Rightarrow> Some (expr_relop_test (cmp_relop c) (cmp3 value cst))))"

fun expr_evaluate ::
  "'fl flow_ops \<Rightarrow> 'fl \<Rightarrow> (string \<Rightarrow> nat option) \<Rightarrow> expr \<Rightarrow> bool option"
and expr_evaluate_andor ::
  "'fl flow_ops \<Rightarrow> 'fl \<Rightarrow> bool \<Rightarrow> (string \<Rightarrow> nat option) \<Rightarrow> expr list \<Rightarrow> bool option" where
  "expr_evaluate F fl lk (Cmp _ c) = expr_evaluate_cmp F fl lk c"
| "expr_evaluate F fl lk (Andor J_AND es) = expr_evaluate_andor F fl False lk es"
| "expr_evaluate F fl lk (Andor J_OR es) = expr_evaluate_andor F fl True lk es"
| "expr_evaluate F fl lk (Boolean b) = Some b"
| "expr_evaluate F fl lk (Condition _ n _) = Some (\<not> n)"
| "expr_evaluate_andor F fl sc lk [] = Some (\<not> sc)"
| "expr_evaluate_andor F fl sc lk (e # es) =
     do { b \<leftarrow> expr_evaluate F fl lk e;
          if b = sc then Some sc else expr_evaluate_andor F fl sc lk es }"

section \<open>Meaning of expressions\<close>

record env =
  env_sym :: "expr_symbol \<Rightarrow> nat"
  env_port :: "string \<Rightarrow> nat option"
  env_resident :: "string \<Rightarrow> bool"

definition sem_cmp :: "env \<Rightarrow> expr_cmp \<Rightarrow> bool" where
  "sem_cmp E c =
     (if sym_width (cmp_symbol c) > 0 then
        expr_relop_test (cmp_relop c) (cmp3 (env_sym E (cmp_symbol c) AND cmp_mask c) (cmp_value c))
      else case env_port E (cmp_string c) of
             None \<Rightarrow> False
           | Some p \<Rightarrow> expr_relop_test (cmp_relop c) (cmp3 (env_sym E (cmp_symbol c)) p))"

fun sem :: "env \<Rightarrow> expr \<Rightarrow> bool" where
  "sem E (Cmp _ c) \<longleftrightarrow> sem_cmp E c"
| "sem E (Andor J_AND es) \<longleftrightarrow> (\<forall>e \<in> set es. sem E e)"
| "sem E (Andor J_OR es) \<longleftrightarrow> (\<exists>e \<in> set es. sem E e)"
| "sem E (Boolean b) \<longleftrightarrow> b"
| "sem E (Condition _ n s) \<longleftrightarrow> env_resident E s \<noteq> n"

text \<open>The meaning of a list of expressions joined by a junction, and its unit.\<close>

definition sem_list :: "env \<Rightarrow> junction \<Rightarrow> expr list \<Rightarrow> bool" where
  "sem_list E j es = sem E (Andor j es)"

fun junct :: "junction \<Rightarrow> bool \<Rightarrow> bool \<Rightarrow> bool" where
  "junct J_AND a b \<longleftrightarrow> a \<and> b"
| "junct J_OR a b \<longleftrightarrow> a \<or> b"

lemma sem_list_simps [simp]:
  "sem_list E j [] \<longleftrightarrow> j = J_AND"
  "sem_list E j (e # es) \<longleftrightarrow> junct j (sem E e) (sem_list E j es)"
  "sem_list E j (es @ es') \<longleftrightarrow> junct j (sem_list E j es) (sem_list E j es')"
  by (cases j; auto simp: sem_list_def)+

lemma sem_Andor: "sem E (Andor j es) = sem_list E j es"
  by (simp add: sem_list_def)

lemma sem_list_concat_map:
  assumes "\<And>e. e \<in> set es \<Longrightarrow> sem_list E j (f e) = sem E e"
  shows "sem_list E j (concat (map f es)) = sem_list E j es"
  using assms by (induction es) auto

lemma sem_list_insert_andor [simp]: "sem_list E j (expr_insert_andor j e) = sem E e"
  by (cases e; cases j) (auto simp: expr_insert_andor_def sem_list_def)

lemma sem_list_cong: "set es = set es' \<Longrightarrow> sem_list E j es = sem_list E j es'"
  by (cases j) (auto simp: sem_list_def)

lemma expr_combine_Some [simp]:
  "expr_combine j (Some a) (Some b) = Some (Andor j (expr_insert_andor j a @ expr_insert_andor j b))"
  by (simp add: expr_insert_andor_def)

declare expr_combine.simps(3) [simp del]

lemma expr_insert_andor_simps [simp]:
  "expr_insert_andor j (Cmp as c) = [Cmp as c]"
  "expr_insert_andor j (Boolean b) = [Boolean b]"
  "expr_insert_andor j (Condition t n p) = [Condition t n p]"
  "expr_insert_andor j (Andor k es) = (if j = k then es else [Andor k es])"
  by (simp_all add: expr_insert_andor_def)

section \<open>Correctness of the constructors\<close>

text \<open>The comparisons of an expression.\<close>

fun expr_cmps :: "expr \<Rightarrow> expr_cmp list" where
  "expr_cmps (Cmp _ c) = [c]"
| "expr_cmps (Andor _ es) = concat (map expr_cmps es)"
| "expr_cmps (Boolean _) = []"
| "expr_cmps (Condition _ _ _) = []"

text \<open>No condition, respectively no constant, occurs below.\<close>

fun no_cond :: "expr \<Rightarrow> bool" where
  "no_cond (Andor _ es) \<longleftrightarrow> (\<forall>e \<in> set es. no_cond e)"
| "no_cond (Condition _ _ _) \<longleftrightarrow> False"
| "no_cond _ \<longleftrightarrow> True"

fun no_bool :: "expr \<Rightarrow> bool" where
  "no_bool (Andor _ es) \<longleftrightarrow> (\<forall>e \<in> set es. no_bool e)"
| "no_bool (Boolean _) \<longleftrightarrow> False"
| "no_bool _ \<longleftrightarrow> True"

definition ports_known :: "env \<Rightarrow> expr \<Rightarrow> bool" where
  "ports_known E e \<longleftrightarrow>
     (\<forall>c \<in> set (expr_cmps e). sym_width (cmp_symbol c) = 0 \<longrightarrow> env_port E (cmp_string c) \<noteq> None)"

lemma sem_expr_not: "ports_known E e \<Longrightarrow> sem E (expr_not e) \<longleftrightarrow> \<not> sem E e"
proof (induction e)
  case (Cmp as c)
  then show ?case by (auto simp: sem_cmp_def ports_known_def split: option.splits)
next
  case (Andor j es)
  then have "sem E (expr_not e) \<longleftrightarrow> \<not> sem E e" if "e \<in> set es" for e
    using that by (auto simp: ports_known_def)
  then show ?case by (cases j) auto
qed auto

lemma fix_andor_scan_None: "fix_andor_scan sc es = None \<longleftrightarrow> Boolean sc \<in> set es"
  by (induction sc es rule: fix_andor_scan.induct) auto

lemma fix_andor_scan_Some:
  "fix_andor_scan sc es = Some es' \<Longrightarrow> es' = filter (\<lambda>e. \<forall>b. e \<noteq> Boolean b) es \<and> Boolean sc \<notin> set es"
  by (induction sc es arbitrary: es' rule: fix_andor_scan.induct) (auto split: if_splits)

lemma sem_list_scan:
  assumes "fix_andor_scan (j = J_OR) es = Some es'"
  shows "sem_list E j es' = sem_list E j es"
  using assms
proof (induction "j = J_OR" es arbitrary: es' rule: fix_andor_scan.induct)
  case (2 b es)
  then show ?case by (cases j) (auto split: if_splits)
qed auto

lemma sem_fix_andor [simp]: "sem E (expr_fix_andor j es (j = J_OR)) = sem_list E j es"
proof (cases "fix_andor_scan (j = J_OR) es")
  case None
  then have "Boolean (j = J_OR) \<in> set es" by (simp add: fix_andor_scan_None)
  with None show ?thesis
    by (cases j) (force simp: expr_fix_andor_def sem_list_def)+
next
  case (Some es')
  from sem_list_scan [OF Some, of E] Some show ?thesis
    by (cases j) (auto simp: expr_fix_andor_def sem_Andor split: list.splits)
qed

lemma sem_fix [simp]: "sem E (expr_fix e) = sem E e"
  using sem_fix_andor [of E J_AND] sem_fix_andor [of E J_OR]
  by (cases e rule: expr_fix.cases) (simp_all add: sem_Andor)

text \<open>
  What \<open>expr_fix\<close> returns: a constant, the only child left, or the node with at least two
  children left, none of them constant.
\<close>

lemma expr_fix_rule:
  assumes const: "\<And>b. P (Boolean b)" and child: "\<And>e. e \<in> set es \<Longrightarrow> P e"
    and node: "\<And>es'. set es' \<subseteq> set es \<Longrightarrow> 2 \<le> length es' \<Longrightarrow> (\<forall>b. Boolean b \<notin> set es') \<Longrightarrow> P (Andor j es')"
  shows "P (expr_fix (Andor j es))"
proof -
  have "P (expr_fix_andor j es sc)" for sc
  proof (cases "fix_andor_scan sc es")
    case None
    then show ?thesis by (simp add: expr_fix_andor_def const)
  next
    case (Some es')
    from fix_andor_scan_Some [OF this]
    have "set es' \<subseteq> set es" "\<forall>b. Boolean b \<notin> set es'" by auto
    then show ?thesis using Some const child node [of es']
      by (auto simp: expr_fix_andor_def split: list.splits)
  qed
  then show ?thesis by (cases j) auto
qed

lemma set_expr_cmps_fix: "set (expr_cmps (expr_fix e)) \<subseteq> set (expr_cmps e)"
proof (cases e)
  case (Andor j es)
  show ?thesis unfolding Andor
    by (rule expr_fix_rule [where P = "\<lambda>e. set (expr_cmps e) \<subseteq> _"]) auto
qed auto

lemma no_cond_fix: "no_cond e \<Longrightarrow> no_cond (expr_fix e)"
proof (cases e)
  case (Andor j es)
  assume "no_cond e"
  then show ?thesis unfolding Andor by (intro expr_fix_rule [where P = no_cond]) auto
qed auto

lemma honors_invariants_fix:
  assumes "\<And>e. e \<in> set es \<Longrightarrow> expr_honors_invariants e \<and> \<not> is_junct j e"
  shows "expr_honors_invariants (expr_fix (Andor j es))"
  using assms by (intro expr_fix_rule [where P = expr_honors_invariants]) auto

text \<open>A constant, or an expression without constants.\<close>

definition bool_top :: "expr \<Rightarrow> bool" where
  "bool_top e \<longleftrightarrow> no_bool e \<or> (\<exists>b. e = Boolean b)"

lemma bool_top_fix:
  assumes "\<And>e. e \<in> set es \<Longrightarrow> bool_top e"
  shows "bool_top (expr_fix (Andor j es))"
  using assms by (intro expr_fix_rule [where P = bool_top]) (auto simp: bool_top_def)

lemma in_insert_andorD:
  "e' \<in> set (expr_insert_andor j e) \<Longrightarrow> expr_honors_invariants e \<Longrightarrow>
     expr_honors_invariants e' \<and> \<not> is_junct j e'"
  by (cases e) (auto split: if_splits)

lemma in_insert_andor_bool_top: "e' \<in> set (expr_insert_andor j e) \<Longrightarrow> bool_top e \<Longrightarrow> bool_top e'"
  by (cases e) (auto simp: bool_top_def split: if_splits)

lemma set_cmps_insert_andor [simp]:
  "(\<Union>e' \<in> set (expr_insert_andor j e). set (expr_cmps e')) = set (expr_cmps e)"
  by (cases e) auto

end
