(* ===== verification/Expr_Simplify.thy ===== *)
theory Expr_Simplify
  imports Expr_Core
begin

text \<open>
  \<open>expr_simplify\<close> and \<open>expr_evaluate_condition\<close> of \<open>lib/expr.c\<close>: comparisons are reduced to
  tests for equality under a mask, and chassis residence conditions to constants.  The theory
  shows that both keep the meaning of the expression and the invariants of expression trees,
  and that simplification leaves only equality tests with nonzero masks.
\<close>

section \<open>Definitions\<close>

definition find_bitwise_range :: "ovs_bits \<Rightarrow> mf_subvalue \<Rightarrow> nat \<Rightarrow> nat \<times> nat" where
  "find_bitwise_range L sv width =
     (let start = bitwise_scan L sv True 0 width in
      if start < width then
        (let end = bitwise_scan L sv False start width in
         if end \<ge> width \<or> bitwise_scan L sv True end width \<ge> width
         then (start, end - start) else (0, 0))
      else (0, 0))"

text \<open>
  The positions visited by the loops
  \<^verbatim>\<open>for (z = bitwise_scan(v, t, s, e); z < e; z = bitwise_scan(v, t, z + 1, e))\<close>.
  The first argument bounds the number of iterations; \<open>e - s\<close> is enough.
\<close>

fun scan_all :: "nat \<Rightarrow> ovs_bits \<Rightarrow> mf_subvalue \<Rightarrow> bool \<Rightarrow> nat \<Rightarrow> nat \<Rightarrow> nat list" where
  "scan_all 0 L v t s e = []"
| "scan_all (Suc n) L v t s e =
     (let z = bitwise_scan L v t s e in if z < e then z # scan_all n L v t (Suc z) e else [])"

fun expr_clone :: "expr \<Rightarrow> expr" where
  "expr_clone (Cmp as c) = Cmp as c"
| "expr_clone (Andor j es) = Andor j (map expr_clone es)"
| "expr_clone (Boolean b) = Boolean b"
| "expr_clone (Condition t n s) = Condition t n s"

definition expr_simplify_eq :: "ovs_bits \<Rightarrow> string option \<Rightarrow> expr_cmp \<Rightarrow> expr" where
  "expr_simplify_eq L as c = (if is_all_zeros L (cmp_mask c) then Boolean True else Cmp as c)"

definition ne_bit_cmp :: "ovs_bits \<Rightarrow> expr_cmp \<Rightarrow> nat \<Rightarrow> expr" where
  "ne_bit_cmp L c i = Cmp None
     \<lparr>cmp_symbol = cmp_symbol c, cmp_relop = EXPR_R_EQ, cmp_string = '''',
      cmp_value = bitwise_put_bit L 0 i (\<not> bitwise_get_bit L (cmp_value c) i),
      cmp_mask = bitwise_put1 L 0 i\<rparr>"

definition expr_simplify_ne :: "ovs_bits \<Rightarrow> expr_cmp \<Rightarrow> expr" where
  "expr_simplify_ne L c =
     (let w = sym_width (cmp_symbol c);
          new = fold (\<lambda>i new. expr_combine J_OR new (Some (ne_bit_cmp L c i)))
                  (scan_all w L (cmp_mask c) True 0 w) None
      in case new of None \<Rightarrow> Boolean False | Some e \<Rightarrow> e)"

definition relational_bit_cmp :: "ovs_bits \<Rightarrow> string option \<Rightarrow> expr_cmp \<Rightarrow> nat \<Rightarrow> nat \<Rightarrow> expr" where
  "relational_bit_cmp L as c start z = Cmp as
     (c\<lparr>cmp_relop := EXPR_R_EQ,
        cmp_value := bitwise_zero L (bitwise_toggle_bit L (cmp_value c) z) start (z - start),
        cmp_mask := bitwise_zero L (cmp_mask c) start (z - start)\<rparr>)"

definition expr_simplify_relational :: "ovs_bits \<Rightarrow> string option \<Rightarrow> expr_cmp \<Rightarrow> expr option" where
  "expr_simplify_relational L as c =
     (let (start, n_bits) = find_bitwise_range L (cmp_mask c) (sym_width (cmp_symbol c)) in
      if n_bits = 0 then None else
      (let end = start + n_bits;
           lt = (cmp_relop c = EXPR_R_LT \<or> cmp_relop c = EXPR_R_LE);
           eq = (cmp_relop c = EXPR_R_LE \<or> cmp_relop c = EXPR_R_GE) in
       if bitwise_scan L (cmp_value c) (\<not> lt) start end = end then
         Some (if eq then Boolean True else expr_simplify_ne L c)
       else
         (let new = (if eq then Some (Cmp as (c\<lparr>cmp_relop := EXPR_R_EQ\<rparr>)) else None);
              new = fold (\<lambda>z new. expr_combine J_OR new (Some (relational_bit_cmp L as c start z)))
                      (scan_all n_bits L (cmp_value c) lt start end) new
          in Some (case new of None \<Rightarrow> Boolean False | Some e \<Rightarrow> e))))"

fun expr_simplify :: "ovs_bits \<Rightarrow> expr \<Rightarrow> expr option" where
  "expr_simplify L (Cmp as c) =
     (if sym_width (cmp_symbol c) = 0 then Some (Cmp as c)
      else if cmp_relop c = EXPR_R_EQ then Some (expr_simplify_eq L as c)
      else if cmp_relop c = EXPR_R_NE then Some (expr_simplify_ne L c)
      else expr_simplify_relational L as c)"
| "expr_simplify L (Andor j es) =
     do { subs \<leftarrow> mapM (expr_simplify L) es;
          Some (expr_fix (Andor j (concat (map (expr_insert_andor j) subs)))) }"
| "expr_simplify L (Boolean b) = Some (Boolean b)"
| "expr_simplify L (Condition t n s) = Some (Condition t n s)"

definition expr_evaluate_condition1 :: "(string \<Rightarrow> bool) \<Rightarrow> bool \<Rightarrow> string \<Rightarrow> expr" where
  "expr_evaluate_condition1 resident n s = Boolean (resident s \<noteq> n)"

fun expr_evaluate_condition :: "(string \<Rightarrow> bool) \<Rightarrow> expr \<Rightarrow> expr" where
  "expr_evaluate_condition resident (Andor j es) =
     expr_fix (Andor j (concat (map (\<lambda>sub.
       expr_insert_andor j (expr_fix (expr_evaluate_condition resident sub))) es)))"
| "expr_evaluate_condition resident (Condition t n s) = expr_evaluate_condition1 resident n s"
| "expr_evaluate_condition resident (Cmp as c) = Cmp as c"
| "expr_evaluate_condition resident (Boolean b) = Boolean b"

section \<open>Well-formed comparisons\<close>

text \<open>
  What the parser and annotation guarantee of a numeric comparison: the mask lies within the
  field, the value lies within the mask, and an ordering comparison has a contiguous mask.
\<close>

definition contiguous :: "nat \<Rightarrow> bool" where
  "contiguous m \<longleftrightarrow> (\<exists>s e. s < e \<and> m = bit_range s e)"

definition wf_cmp :: "expr_cmp \<Rightarrow> bool" where
  "wf_cmp c \<longleftrightarrow> (sym_width (cmp_symbol c) > 0 \<longrightarrow>
     take_bit (sym_width (cmp_symbol c)) (cmp_mask c) = cmp_mask c \<and>
     cmp_value c AND cmp_mask c = cmp_value c \<and>
     (cmp_relop c \<notin> {EXPR_R_EQ, EXPR_R_NE} \<longrightarrow> contiguous (cmp_mask c)))"

text \<open>What simplification leaves.\<close>

definition simple_cmp :: "expr_cmp \<Rightarrow> bool" where
  "simple_cmp c \<longleftrightarrow> (sym_width (cmp_symbol c) > 0 \<longrightarrow>
     cmp_relop c = EXPR_R_EQ \<and> cmp_mask c \<noteq> 0 \<and>
     take_bit (sym_width (cmp_symbol c)) (cmp_mask c) = cmp_mask c \<and>
     cmp_value c AND cmp_mask c = cmp_value c)"

definition wf_expr :: "expr \<Rightarrow> bool" where
  "wf_expr e \<longleftrightarrow> (\<forall>c \<in> set (expr_cmps e). wf_cmp c)"

definition simple_expr :: "expr \<Rightarrow> bool" where
  "simple_expr e \<longleftrightarrow> (\<forall>c \<in> set (expr_cmps e). simple_cmp c)"

lemma simple_expr_simps [simp]:
  "simple_expr (Cmp as c) \<longleftrightarrow> simple_cmp c"
  "simple_expr (Andor j es) \<longleftrightarrow> (\<forall>e \<in> set es. simple_expr e)"
  "simple_expr (Boolean b)"
  "simple_expr (Condition t n s)"
  by (auto simp: simple_expr_def)

lemma simple_expr_insert_andor: "e' \<in> set (expr_insert_andor j e) \<Longrightarrow> simple_expr e \<Longrightarrow> simple_expr e'"
  by (cases e) (auto split: if_splits)

lemma wf_expr_simps [simp]:
  "wf_expr (Cmp as c) \<longleftrightarrow> wf_cmp c"
  "wf_expr (Andor j es) \<longleftrightarrow> (\<forall>e \<in> set es. wf_expr e)"
  "wf_expr (Boolean b)"
  "wf_expr (Condition t n s)"
  by (auto simp: wf_expr_def)

lemma sub_mask_iff: "v AND m = v \<longleftrightarrow> (\<forall>i. bit v i \<longrightarrow> bit m i)" for v m :: nat
  by (auto simp: bit_eq_iff bit_simps)

lemma within_width_iff: "take_bit w m = m \<longleftrightarrow> (\<forall>i. bit m i \<longrightarrow> i < w)" for m :: nat
  by (auto simp: bit_eq_iff bit_simps)

lemma bit_imp_nonzero: "bit m i \<Longrightarrow> m \<noteq> 0" for m :: nat
  by (intro notI) simp

lemma masked_eq_iff:
  fixes x v m :: nat
  assumes "v AND m = v"
  shows "x AND m = v \<longleftrightarrow> (\<forall>i. bit m i \<longrightarrow> bit x i = bit v i)"
  using assms by (auto simp: bit_eq_iff bit_simps)

lemma expr_clone_id [simp]: "expr_clone e = e"
  by (induction e) (auto simp: map_idI)

section \<open>Disjunctions built by repeated combination\<close>

definition or_list :: "expr list \<Rightarrow> expr option" where
  "or_list es = (case es of [] \<Rightarrow> None | [e] \<Rightarrow> Some e | _ \<Rightarrow> Some (Andor J_OR es))"

lemma fold_combine_or:
  assumes "\<forall>e \<in> set es. \<not> is_junct J_OR e" and "\<forall>x \<in> set xs. \<not> is_junct J_OR (f x)"
  shows "fold (\<lambda>x new. expr_combine J_OR new (Some (f x))) xs (or_list es) = or_list (es @ map f xs)"
  using assms
proof (induction xs arbitrary: es)
  case Nil
  then show ?case by simp
next
  case (Cons x xs)
  have "expr_combine J_OR (or_list es) (Some (f x)) = or_list (es @ [f x])"
    using Cons.prems by (auto simp: or_list_def expr_insert_andor_def split: list.splits)
  then show ?case using Cons by simp
qed

lemmas fold_combine_or_None = fold_combine_or [of "[]", simplified or_list_def [of "[]"], simplified]

lemma sem_or_list:
  "sem E (case or_list es of None \<Rightarrow> Boolean False | Some e \<Rightarrow> e) \<longleftrightarrow> (\<exists>e \<in> set es. sem E e)"
  by (auto simp: or_list_def split: list.splits)

text \<open>Simplified comparisons yield simple, invariant-honoring trees without inner constants.\<close>

definition simple_tree :: "expr \<Rightarrow> bool" where
  "simple_tree e \<longleftrightarrow> simple_expr e \<and> expr_honors_invariants e \<and> bool_top e"

lemma simple_tree_Boolean [simp]: "simple_tree (Boolean b)"
  by (simp add: simple_tree_def bool_top_def)

lemma simple_tree_Cmp [simp]: "simple_tree (Cmp as c) \<longleftrightarrow> simple_cmp c"
  by (auto simp: simple_tree_def bool_top_def simple_cmp_def)

fun simple_leaf :: "expr \<Rightarrow> bool" where
  "simple_leaf (Cmp as c) \<longleftrightarrow> simple_cmp c"
| "simple_leaf _ \<longleftrightarrow> False"

lemma simple_leaf_tree:
  "simple_leaf e \<Longrightarrow> simple_tree e \<and> no_bool e \<and> \<not> is_junct j e"
  by (cases e) auto

lemma simple_tree_or_list:
  assumes "\<forall>e \<in> set es. simple_leaf e"
  shows "simple_tree (case or_list es of None \<Rightarrow> Boolean False | Some e \<Rightarrow> e)"
proof -
  have "simple_tree (Andor J_OR es)" if "2 \<le> length es"
    using assms that simple_leaf_tree by (auto simp: simple_tree_def bool_top_def)
  then show ?thesis
    using assms simple_leaf_tree by (auto simp: or_list_def split: list.splits)
qed

lemma simple_tree_fix: "simple_tree e \<Longrightarrow> simple_tree (expr_fix e)"
proof (cases e)
  case (Andor j es)
  assume "simple_tree e"
  with Andor have "\<And>e. e \<in> set es \<Longrightarrow> simple_expr e \<and> expr_honors_invariants e \<and> \<not> is_junct j e \<and> bool_top e"
    by (auto simp: simple_tree_def bool_top_def)
  then show ?thesis
    using honors_invariants_fix [of es j] bool_top_fix [of es j]
      expr_fix_rule [of simple_expr es j]
    unfolding simple_tree_def Andor by (simp add: subset_iff)
qed auto

lemma simple_tree_splice_fix:
  assumes "\<And>e. e \<in> set es \<Longrightarrow> simple_tree (f e)"
  shows "simple_tree (expr_fix (Andor j (concat (map (\<lambda>e. expr_insert_andor j (f e)) es))))"
    (is "simple_tree (expr_fix (Andor j ?subs))")
proof -
  have inner: "simple_expr e \<and> expr_honors_invariants e \<and> \<not> is_junct j e \<and> bool_top e" if "e \<in> set ?subs" for e
    using that assms
    by (fastforce simp: simple_tree_def dest: in_insert_andorD in_insert_andor_bool_top simple_expr_insert_andor)
  then show ?thesis
    using honors_invariants_fix [of ?subs j] bool_top_fix [of ?subs j] expr_fix_rule [of simple_expr ?subs j]
    unfolding simple_tree_def by (simp add: subset_iff)
qed

text \<open>
  Each comparison of \<open>e'\<close> stems from a comparison of \<open>e\<close> on the same symbol, string comparisons
  are kept as they are, and no condition appears.
\<close>

definition stems_from :: "expr \<Rightarrow> expr \<Rightarrow> bool" where
  "stems_from e e' \<longleftrightarrow>
     (\<forall>c' \<in> set (expr_cmps e'). \<exists>c \<in> set (expr_cmps e).
        cmp_symbol c' = cmp_symbol c \<and> (sym_width (cmp_symbol c) = 0 \<longrightarrow> c' = c)) \<and>
     (no_cond e \<longrightarrow> no_cond e')"

lemma stems_from_refl [simp]: "stems_from e e"
  by (auto simp: stems_from_def)

lemma stems_from_trans: "stems_from a b \<Longrightarrow> stems_from b c \<Longrightarrow> stems_from a c"
  unfolding stems_from_def by metis

lemma stems_from_Boolean [simp]: "stems_from e (Boolean b)"
  by (simp add: stems_from_def)

lemma stems_from_fix_splice:
  assumes "\<And>e. e \<in> set es \<Longrightarrow> stems_from e (f e)"
  shows "stems_from (Andor j es) (expr_fix (Andor j (concat (map (\<lambda>e. expr_insert_andor j (f e)) es))))"
    (is "stems_from _ (expr_fix (Andor j ?subs))")
proof -
  have "set (expr_cmps (Andor j ?subs)) = (\<Union>e \<in> set es. set (expr_cmps (f e)))"
    using set_cmps_insert_andor by simp
  moreover have "no_cond (Andor j ?subs) \<longleftrightarrow> (\<forall>e \<in> set es. no_cond (f e))"
  proof -
    have "(\<forall>e' \<in> set (expr_insert_andor j e). no_cond e') \<longleftrightarrow> no_cond e" for e
      by (cases e) auto
    then show ?thesis by auto
  qed
  ultimately have "stems_from (Andor j es) (Andor j ?subs)"
    using assms by (fastforce simp: stems_from_def)
  moreover have "stems_from e (expr_fix e)" for e
    using set_expr_cmps_fix [of e] no_cond_fix [of e] by (auto simp: stems_from_def)
  ultimately show ?thesis by (rule stems_from_trans)
qed

lemma stems_from_or_list:
  assumes "\<forall>e \<in> set es. \<exists>as c'. e = Cmp as c' \<and> cmp_symbol c' = cmp_symbol c"
    and "sym_width (cmp_symbol c) > 0"
  shows "stems_from (Cmp as c) (case or_list es of None \<Rightarrow> Boolean False | Some e \<Rightarrow> e)"
proof -
  have "no_cond e" "\<forall>c' \<in> set (expr_cmps e). cmp_symbol c' = cmp_symbol c" if "e \<in> set es" for e
    using assms(1) that by fastforce+
  then show ?thesis
    using assms(2) by (fastforce simp: stems_from_def or_list_def split: list.splits)
qed

section \<open>Correctness of the reductions\<close>

context ovs_bits_api
begin

lemma scan_all_eq:
  "s \<le> e \<Longrightarrow> e - s \<le> n \<Longrightarrow> scan_all n L v t s e = filter (\<lambda>i. bit v i = t) [s..<e]"
proof (induction n arbitrary: s)
  case 0
  then show ?case by simp
next
  case (Suc n)
  define z where "z = bitwise_scan L v t s e"
  have z: "s \<le> z" "z \<le> e" using scan_bounds Suc.prems by (auto simp: z_def)
  have before: "filter (\<lambda>i. bit v i = t) [s..<z] = []"
    using scan_first [of s _ v t e] z by (auto simp: z_def filter_empty_conv)
  show ?case
  proof (cases "z < e")
    case True
    then have "[s..<e] = [s..<z] @ z # [Suc z..<e]"
      using z by (metis upt_add_eq_append le_add_diff_inverse upt_conv_Cons less_imp_le_nat)
    moreover have "bit v z = t"
      using scan_hit [of s e v t] True Suc.prems by (simp add: z_def)
    ultimately show ?thesis
      using Suc.IH [of "Suc z"] Suc.prems before True z by (simp flip: z_def)
  next
    case False
    then show ?thesis using before z by (simp flip: z_def)
  qed
qed

lemma scan_eqI:
  assumes "s \<le> r" "r \<le> e" "r < e \<Longrightarrow> bit v r = t" "\<And>i. s \<le> i \<Longrightarrow> i < r \<Longrightarrow> bit v i \<noteq> t"
  shows "bitwise_scan L v t s e = r"
proof (rule ccontr)
  let ?z = "bitwise_scan L v t s e"
  assume "?z \<noteq> r"
  moreover have "s \<le> ?z" "?z \<le> e" using assms scan_bounds [of s e v t] by auto
  ultimately consider "?z < r" | "r < ?z" by linarith
  then show False
  proof cases
    case 1
    then show False using assms scan_hit [of s e v t] \<open>s \<le> ?z\<close> by auto
  next
    case 2
    then show False using assms scan_first [of s r v t e] \<open>?z \<le> e\<close> by auto
  qed
qed

lemma find_bitwise_range_contiguous:
  assumes "s < e" "e \<le> w"
  shows "find_bitwise_range L (bit_range s e) w = (s, e - s)"
proof -
  have 1: "bitwise_scan L (bit_range s e) True 0 w = s"
    using assms by (intro scan_eqI) auto
  have 2: "bitwise_scan L (bit_range s e) False s w = e"
    using assms by (intro scan_eqI) auto
  have 3: "bitwise_scan L (bit_range s e) True e w = w"
    using assms by (intro scan_eqI) auto
  show ?thesis using assms by (simp add: find_bitwise_range_def 1 2 3)
qed

lemma expr_simplify_ne_or_list:
  "expr_simplify_ne L c =
     (case or_list (map (ne_bit_cmp L c) (filter (bit (cmp_mask c)) [0..<sym_width (cmp_symbol c)])) of
        None \<Rightarrow> Boolean False | Some e \<Rightarrow> e)"
proof -
  have "\<not> is_junct J_OR (ne_bit_cmp L c i)" for i by (simp add: ne_bit_cmp_def)
  then show ?thesis by (simp add: expr_simplify_ne_def Let_def scan_all_eq fold_combine_or_None)
qed

lemma sem_ne_bit_cmp:
  assumes "sym_width (cmp_symbol c) > 0"
  shows "sem E (ne_bit_cmp L c i) \<longleftrightarrow> bit (env_sym E (cmp_symbol c)) i \<noteq> bit (cmp_value c) i"
proof -
  let ?v = "if bit (cmp_value c) i then 0 else set_bit i 0 :: nat"
  have "?v AND set_bit i 0 = ?v" by (auto simp: bit_eq_iff bit_simps)
  from masked_eq_iff [OF this, of "env_sym E (cmp_symbol c)"] assms show ?thesis
    by (auto simp: ne_bit_cmp_def sem_cmp_def bits_simps bit_simps)
qed

lemma sem_simplify_ne:
  assumes "wf_cmp c" "sym_width (cmp_symbol c) > 0"
  shows "sem E (expr_simplify_ne L c) \<longleftrightarrow> env_sym E (cmp_symbol c) AND cmp_mask c \<noteq> cmp_value c"
proof -
  let ?x = "env_sym E (cmp_symbol c)"
  have "?x AND cmp_mask c \<noteq> cmp_value c \<longleftrightarrow> (\<exists>i. bit (cmp_mask c) i \<and> bit ?x i \<noteq> bit (cmp_value c) i)"
    using assms by (subst masked_eq_iff) (auto simp: wf_cmp_def)
  also have "\<dots> \<longleftrightarrow> (\<exists>i < sym_width (cmp_symbol c). bit (cmp_mask c) i \<and> bit ?x i \<noteq> bit (cmp_value c) i)"
    using assms by (auto simp: wf_cmp_def within_width_iff)
  finally show ?thesis
    using assms by (auto simp: expr_simplify_ne_or_list sem_or_list sem_ne_bit_cmp)
qed

lemma simple_ne_bit_cmp:
  "i < sym_width (cmp_symbol c) \<Longrightarrow> simple_expr (ne_bit_cmp L c i)"
  by (auto simp: ne_bit_cmp_def simple_cmp_def bits_simps bit_eq_iff bit_simps)

lemma sem_relational_bit_cmp:
  assumes "sym_width (cmp_symbol c) > 0" "cmp_mask c = bit_range s e" "s \<le> z" "z < e"
    and "cmp_value c AND cmp_mask c = cmp_value c"
  shows "sem E (relational_bit_cmp L as c s z) \<longleftrightarrow>
    bit (env_sym E (cmp_symbol c)) z \<noteq> bit (cmp_value c) z \<and>
    (\<forall>i. z < i \<and> i < e \<longrightarrow> bit (env_sym E (cmp_symbol c)) i = bit (cmp_value c) i)"
proof -
  let ?v = "bitwise_zero L (bitwise_toggle_bit L (cmp_value c) z) s (z - s)"
  let ?m = "bitwise_zero L (cmp_mask c) s (z - s)"
  have m: "bit ?m i \<longleftrightarrow> i = z \<or> z < i \<and> i < e" for i
    using assms(2-4) by (auto simp: bits_simps)
  have v: "bit ?v i \<longleftrightarrow> i = z \<and> \<not> bit (cmp_value c) z \<or> z < i \<and> i < e \<and> bit (cmp_value c) i" for i
    using assms(2-5) by (auto simp: bits_simps bit_simps sub_mask_iff)
  have "?v AND ?m = ?v" by (auto simp: sub_mask_iff m v)
  from masked_eq_iff [OF this] assms(1) show ?thesis
    by (auto simp: relational_bit_cmp_def sem_cmp_def m v)
qed

lemma top_diff_masked:
  fixes v x :: nat
  assumes "v AND bit_range s e = v"
  shows "top_diff v (x AND bit_range s e) z \<longleftrightarrow>
      (s \<le> z \<and> z < e) \<and> \<not> bit v z \<and> bit x z \<noteq> bit v z \<and> (\<forall>i. z < i \<and> i < e \<longrightarrow> bit x i = bit v i)"
    and "top_diff (x AND bit_range s e) v z \<longleftrightarrow>
      (s \<le> z \<and> z < e) \<and> bit v z \<and> bit x z \<noteq> bit v z \<and> (\<forall>i. z < i \<and> i < e \<longrightarrow> bit x i = bit v i)"
  using assms
  by (auto simp: top_diff_def bit_simps sub_mask_iff) (meson le_trans less_imp_le_nat)

lemma masked_compare_iff:
  assumes "cmp_mask c = bit_range s e" "cmp_value c AND cmp_mask c = cmp_value c"
    and "sym_width (cmp_symbol c) > 0"
  shows masked_greater_iff: "cmp_value c < env_sym E (cmp_symbol c) AND cmp_mask c \<longleftrightarrow>
      (\<exists>z. (s \<le> z \<and> z < e) \<and> \<not> bit (cmp_value c) z \<and> sem E (relational_bit_cmp L as c s z))"
    and masked_less_iff: "env_sym E (cmp_symbol c) AND cmp_mask c < cmp_value c \<longleftrightarrow>
      (\<exists>z. (s \<le> z \<and> z < e) \<and> bit (cmp_value c) z \<and> sem E (relational_bit_cmp L as c s z))"
  using sem_relational_bit_cmp [OF assms(3,1) _ _ assms(2), of _ E as]
    top_diff_masked [OF assms(2) [unfolded assms(1)], of "env_sym E (cmp_symbol c)"]
  by (simp_all add: nat_less_bits assms(1) cong: conj_cong)

lemma expr_simplify_relational_eq:
  fixes c as
  defines "lt \<equiv> cmp_relop c = EXPR_R_LT \<or> cmp_relop c = EXPR_R_LE"
    and "eq \<equiv> cmp_relop c = EXPR_R_LE \<or> cmp_relop c = EXPR_R_GE"
  assumes "cmp_mask c = bit_range s e" "s < e" "e \<le> sym_width (cmp_symbol c)"
  shows "expr_simplify_relational L as c = Some
    (if \<forall>i. s \<le> i \<and> i < e \<longrightarrow> bit (cmp_value c) i = lt then
       if eq then Boolean True else expr_simplify_ne L c
     else case or_list ((if eq then [Cmp as (c\<lparr>cmp_relop := EXPR_R_EQ\<rparr>)] else []) @
                 map (relational_bit_cmp L as c s) (filter (\<lambda>i. bit (cmp_value c) i = lt) [s..<e])) of
            None \<Rightarrow> Boolean False | Some e \<Rightarrow> e)"
proof -
  let ?start = "if eq then [Cmp as (c\<lparr>cmp_relop := EXPR_R_EQ\<rparr>)] else []"
  define A where "A \<longleftrightarrow> (\<forall>i. s \<le> i \<and> i < e \<longrightarrow> bit (cmp_value c) i = lt)"
  have "\<not> is_junct J_OR (relational_bit_cmp L as c s z)" for z by (simp add: relational_bit_cmp_def)
  then have "fold (\<lambda>z new. expr_combine J_OR new (Some (relational_bit_cmp L as c s z)))
        xs (or_list ?start) = or_list (?start @ map (relational_bit_cmp L as c s) xs)" for xs
    by (intro fold_combine_or) auto
  moreover have "or_list ?start = (if eq then Some (Cmp as (c\<lparr>cmp_relop := EXPR_R_EQ\<rparr>)) else None)"
    by (simp add: or_list_def)
  moreover have "bitwise_scan L (cmp_value c) (\<not> lt) s e = e \<longleftrightarrow> A"
    using scan_eq_end_iff [of s e "cmp_value c" "\<not> lt"] assms(4) by (simp add: A_def)
  moreover have "scan_all (e - s) L (cmp_value c) lt s e = filter (\<lambda>i. bit (cmp_value c) i = lt) [s..<e]"
    using assms(4) by (simp add: scan_all_eq)
  ultimately show ?thesis
    using assms(3-5)
    by (simp add: expr_simplify_relational_def find_bitwise_range_contiguous Let_def
        flip: lt_def eq_def A_def)
qed

lemma contiguous_within:
  assumes "contiguous m" "take_bit w m = m"
  obtains s e where "m = bit_range s e" "s < e" "e \<le> w"
proof -
  from assms(1) obtain s e where se: "s < e" "m = bit_range s e" by (auto simp: contiguous_def)
  have "bit m (e - 1)" unfolding se(2) bit_bit_range using se(1) by linarith
  with assms(2) have "e - 1 < w" unfolding within_width_iff by blast
  with se(1) have "e \<le> w" by linarith
  from that [OF se(2,1) this] show thesis .
qed

lemma sem_simplify_relational:
  assumes "wf_cmp c" "sym_width (cmp_symbol c) > 0" "cmp_relop c \<notin> {EXPR_R_EQ, EXPR_R_NE}"
  shows "\<exists>e'. expr_simplify_relational L as c = Some e' \<and> (\<forall>E. sem E e' = sem_cmp E c)"
proof -
  from assms have vm: "cmp_value c AND cmp_mask c = cmp_value c"
    by (simp add: wf_cmp_def)
  from assms obtain s e where se: "cmp_mask c = bit_range s e" "s < e" "e \<le> sym_width (cmp_symbol c)"
    by (auto simp: wf_cmp_def elim: contiguous_within)
  define lt where "lt \<longleftrightarrow> cmp_relop c = EXPR_R_LT \<or> cmp_relop c = EXPR_R_LE"
  define all where "all \<longleftrightarrow> (\<forall>i. s \<le> i \<and> i < e \<longrightarrow> bit (cmp_value c) i = lt)"
  note rule = expr_simplify_relational_eq [OF se, of as, folded lt_def, folded all_def]
  show ?thesis unfolding rule
  proof (rule exI, rule conjI, rule refl, rule allI)
    fix E :: env
    let ?x = "env_sym E (cmp_symbol c) AND cmp_mask c" and ?v = "cmp_value c"
    note gt = masked_greater_iff [OF se(1) vm assms(2), of E as]
      and less = masked_less_iff [OF se(1) vm assms(2), of E as]
    have none: "all \<Longrightarrow> (if lt then \<not> ?v < ?x else \<not> ?x < ?v)"
      unfolding gt less all_def by auto
    have cmp: "sem_cmp E c \<longleftrightarrow> expr_relop_test (cmp_relop c) (cmp3 ?x ?v)"
      using assms(2) by (simp add: sem_cmp_def)
    let ?or = "\<exists>z. (s \<le> z \<and> z < e) \<and> bit ?v z = lt \<and> sem E (relational_bit_cmp L as c s z)"
    have "?or \<longleftrightarrow> (if lt then ?x < ?v else ?v < ?x)"
      unfolding gt less by auto
    then show "sem E (if all then if cmp_relop c = EXPR_R_LE \<or> cmp_relop c = EXPR_R_GE then Boolean True
          else expr_simplify_ne L c
        else case or_list ((if cmp_relop c = EXPR_R_LE \<or> cmp_relop c = EXPR_R_GE
               then [Cmp as (c\<lparr>cmp_relop := EXPR_R_EQ\<rparr>)] else []) @
               map (relational_bit_cmp L as c s) (filter (\<lambda>i. bit (cmp_value c) i = lt) [s..<e])) of
             None \<Rightarrow> Boolean False | Some e \<Rightarrow> e) = sem_cmp E c"
      using none assms(2,3) unfolding cmp
      by (cases "cmp_relop c")
        (auto simp: sem_or_list sem_simplify_ne [OF assms(1,2)] lt_def sem_cmp_def)
  qed
qed

lemma simple_ne_tree: "simple_tree (expr_simplify_ne L c)"
  unfolding expr_simplify_ne_or_list
proof (rule simple_tree_or_list, rule ballI)
  fix e
  assume "e \<in> set (map (ne_bit_cmp L c) (filter (bit (cmp_mask c)) [0..<sym_width (cmp_symbol c)]))"
  then obtain i where "e = ne_bit_cmp L c i" "i < sym_width (cmp_symbol c)" by auto
  with simple_ne_bit_cmp [of i c] show "simple_leaf e"
    by (simp add: ne_bit_cmp_def)
qed

lemma simple_relational_bit_cmp:
  assumes "cmp_mask c = bit_range s e" "s \<le> z" "z < e" "e \<le> sym_width (cmp_symbol c)"
    and "cmp_value c AND cmp_mask c = cmp_value c"
  shows "simple_leaf (relational_bit_cmp L as c s z)"
proof -
  let ?m = "bitwise_zero L (cmp_mask c) s (z - s)"
  have m: "bit ?m i \<longleftrightarrow> z \<le> i \<and> i < e" for i
    using assms(1-3) by (auto simp: bits_simps)
  with assms(3) have "?m \<noteq> 0" using bit_imp_nonzero [of ?m z] by simp
  moreover have "bit (bitwise_zero L (bitwise_toggle_bit L (cmp_value c) z) s (z - s)) i \<Longrightarrow> bit ?m i" for i
    unfolding m using assms(1-3,5) by (auto simp: bits_simps bit_simps sub_mask_iff split: if_splits)
  ultimately show ?thesis
    using assms(4) m by (auto simp: relational_bit_cmp_def simple_cmp_def within_width_iff sub_mask_iff)
qed

lemma simple_relational_tree:
  assumes "wf_cmp c" "sym_width (cmp_symbol c) > 0" "cmp_relop c \<notin> {EXPR_R_EQ, EXPR_R_NE}"
    and "expr_simplify_relational L as c = Some e'"
  shows "simple_tree e'"
proof -
  from assms have vm: "cmp_value c AND cmp_mask c = cmp_value c"
    by (simp add: wf_cmp_def)
  from assms obtain s e where se: "cmp_mask c = bit_range s e" "s < e" "e \<le> sym_width (cmp_symbol c)"
    by (auto simp: wf_cmp_def elim: contiguous_within)
  have "bit (cmp_mask c) s" using se by simp
  then have "cmp_mask c \<noteq> 0" by (rule bit_imp_nonzero)
  then have "simple_cmp (c\<lparr>cmp_relop := EXPR_R_EQ\<rparr>)"
    using assms(1) by (auto simp: simple_cmp_def wf_cmp_def)
  moreover have "simple_leaf (relational_bit_cmp L as c s z)" if "s \<le> z" "z < e" for z
    using simple_relational_bit_cmp [OF se(1) that se(3) vm] .
  ultimately show ?thesis
    using assms(4) expr_simplify_relational_eq [OF se, of as]
    by (auto simp: simple_ne_tree intro!: simple_tree_or_list split: if_splits)
qed

lemma stems_from_ne: "sym_width (cmp_symbol c) > 0 \<Longrightarrow> stems_from (Cmp as c) (expr_simplify_ne L c)"
  unfolding expr_simplify_ne_or_list by (rule stems_from_or_list) (auto simp: ne_bit_cmp_def)

lemma stems_from_relational:
  assumes "wf_cmp c" "sym_width (cmp_symbol c) > 0" "cmp_relop c \<notin> {EXPR_R_EQ, EXPR_R_NE}"
    and "expr_simplify_relational L as c = Some e'"
  shows "stems_from (Cmp as c) e'"
proof -
  from assms obtain s e where se: "cmp_mask c = bit_range s e" "s < e" "e \<le> sym_width (cmp_symbol c)"
    by (auto simp: wf_cmp_def elim: contiguous_within)
  from assms(2,4) expr_simplify_relational_eq [OF se, of as] show ?thesis
    by (auto simp: stems_from_ne relational_bit_cmp_def
        intro!: stems_from_or_list split: if_splits)
qed

lemma simplify_cmp_correct:
  assumes "wf_cmp c"
  shows "\<exists>e'. expr_simplify L (Cmp as c) = Some e' \<and> simple_tree e' \<and>
    stems_from (Cmp as c) e' \<and> (\<forall>E. sem E e' = sem_cmp E c)"
proof (cases "sym_width (cmp_symbol c) = 0")
  case True
  then show ?thesis by (simp add: simple_cmp_def)
next
  case False
  then have w: "sym_width (cmp_symbol c) > 0" by simp
  show ?thesis
  proof (cases "cmp_relop c \<in> {EXPR_R_EQ, EXPR_R_NE}")
    case True
    then show ?thesis
      using assms w sem_simplify_ne [OF assms w] simple_ne_tree stems_from_ne [OF w]
      by (auto simp: expr_simplify_eq_def bits_simps sem_cmp_def simple_cmp_def wf_cmp_def)
  next
    case False
    with sem_simplify_relational [OF assms w False, of as] simple_relational_tree [OF assms w False]
      stems_from_relational [OF assms w False]
    show ?thesis using w by auto
  qed
qed

lemma simplify_correct:
  assumes "wf_expr e"
  shows "\<exists>e'. expr_simplify L e = Some e' \<and> simple_tree e' \<and> stems_from e e' \<and> (\<forall>E. sem E e' = sem E e)"
  using assms
proof (induction e)
  case (Cmp as c)
  then show ?case using simplify_cmp_correct [of c as] by simp
next
  case (Andor j es)
  let ?ok = "\<lambda>e e'. expr_simplify L e = Some e' \<and> simple_tree e' \<and> stems_from e e' \<and> (\<forall>E. sem E e' = sem E e)"
  from Andor have "\<forall>e \<in> set es. \<exists>e'. ?ok e e'" by auto
  then obtain f where f: "\<forall>e \<in> set es. ?ok e (f e)" by metis
  then have "mapM (expr_simplify L) es = Some (map f es)"
    by (simp add: mapM_Some_iff list_all2_map2 list_all2_same)
  then have eq: "expr_simplify L (Andor j es) =
      Some (expr_fix (Andor j (concat (map (\<lambda>e. expr_insert_andor j (f e)) es))))"
    by (simp add: comp_def)
  have "sem E (expr_fix (Andor j (concat (map (\<lambda>e. expr_insert_andor j (f e)) es)))) = sem E (Andor j es)" for E
    using f by (simp add: sem_Andor sem_list_concat_map)
  moreover have "simple_tree (expr_fix (Andor j (concat (map (\<lambda>e. expr_insert_andor j (f e)) es))))"
    using f by (intro simple_tree_splice_fix) auto
  moreover have "stems_from (Andor j es) (expr_fix (Andor j (concat (map (\<lambda>e. expr_insert_andor j (f e)) es))))"
    using f by (intro stems_from_fix_splice) auto
  ultimately show ?case using eq by blast
qed (auto simp: simple_tree_def bool_top_def)

end

section \<open>Correctness of condition evaluation\<close>

lemma sem_evaluate_condition:
  "env_resident E = resident \<Longrightarrow> sem E (expr_evaluate_condition resident e) = sem E e"
proof (induction resident e rule: expr_evaluate_condition.induct)
  case (1 resident j es)
  then have "sem_list E j (expr_insert_andor j (expr_fix (expr_evaluate_condition resident e))) = sem E e"
    if "e \<in> set es" for e
    using that by simp
  then show ?case by (simp add: sem_Andor sem_list_concat_map)
qed (auto simp: expr_evaluate_condition1_def)

lemma simple_tree_evaluate_condition:
  "simple_tree e \<Longrightarrow> simple_tree (expr_evaluate_condition resident e)"
proof (induction resident e rule: expr_evaluate_condition.induct)
  case (1 resident j es)
  have "simple_tree e" if "e \<in> set es" for e
    using 1(2) that by (auto simp: simple_tree_def bool_top_def)
  with 1(1) show ?case
    unfolding expr_evaluate_condition.simps by (intro simple_tree_splice_fix simple_tree_fix) auto
qed (auto simp: expr_evaluate_condition1_def)

lemma stems_from_evaluate_condition: "stems_from e (expr_evaluate_condition resident e)"
proof (induction resident e rule: expr_evaluate_condition.induct)
  case (1 resident j es)
  have "stems_from e (expr_fix e)" for e
    using set_expr_cmps_fix [of e] no_cond_fix [of e] by (auto simp: stems_from_def)
  with 1 show ?case
    unfolding expr_evaluate_condition.simps
    by (intro stems_from_fix_splice) (blast intro: stems_from_trans)
qed (auto simp: expr_evaluate_condition1_def)

lemma no_cond_evaluate_condition: "no_cond (expr_evaluate_condition resident e)"
proof (induction resident e rule: expr_evaluate_condition.induct)
  case (1 resident j es)
  have "no_cond e'" if "e' \<in> set (expr_insert_andor j e)" "no_cond e" for e e'
    using that by (cases e) (auto split: if_splits)
  with 1 show ?case
    unfolding expr_evaluate_condition.simps by (intro no_cond_fix) (auto intro: no_cond_fix)
qed (auto simp: expr_evaluate_condition1_def)

end
