(* ===== verification/Crush_Arrays.thy ===== *)
theory Crush_Arrays
  imports Expr_Simplify
begin

text \<open>
  \<open>crush_or_supersets\<close> of \<open>lib/expr.c\<close>: the removal of duplicate and redundant comparisons from
  a disjunction over one symbol.  The sorted array with its skip list and its index by mask size
  is modelled as it is written; the lemmas show that what is left covers everything that was
  there and contains no comparison that another one makes redundant.
\<close>

section \<open>Comparing comparisons\<close>

text \<open>
  A disjunct while \<open>crush_or_supersets\<close> works on it: the number of ones in its mask
  (\<open>mask_n_bits\<close>), its address set name and the comparison.
\<close>

type_synonym crush_sub = "nat \<times> string option \<times> expr_cmp"

fun compare_cmps_3way :: "crush_sub \<Rightarrow> crush_sub \<Rightarrow> int" where
  "compare_cmps_3way (na, _, a) (nb, _, b) =
     (if sym_width (cmp_symbol a) = 0 then strcmp (cmp_string a) (cmp_string b)
      else if na \<noteq> nb then (if na < nb then - 1 else 1)
      else (let d = cmp3 (cmp_value a) (cmp_value b) in
            if d = 0 then cmp3 (cmp_mask a) (cmp_mask b) else d))"

definition expr_bitmap_intersect_check :: "expr_cmp \<Rightarrow> expr_cmp \<Rightarrow> nat \<Rightarrow> bool" where
  "expr_bitmap_intersect_check a b bit_width \<longleftrightarrow>
     take_bit bit_width ((cmp_value a XOR cmp_value b) AND (cmp_mask a AND cmp_mask b)) = 0"

definition round_up_64 :: "nat \<Rightarrow> nat" where
  "round_up_64 w = (w + 63) div 64 * 64"

section \<open>Removing redundant disjuncts\<close>

record crush_arrays =
  ca_subs :: "crush_sub option list"   \<comment> \<open>\<open>subs\<close>; \<open>None\<close> is a deleted element\<close>
  ca_next :: "nat list"                \<comment> \<open>\<open>next\<close>\<close>
  ca_index :: "nat option list"        \<comment> \<open>\<open>mask_index\<close>; \<open>None\<close> is the all-ones val, above every index\<close>

text \<open>\<open>MIN\<close> of two entries of \<open>mask_index\<close>.\<close>

fun min_index :: "nat option \<Rightarrow> nat option \<Rightarrow> nat option" where
  "min_index None y = y"
| "min_index x None = x"
| "min_index (Some x) (Some y) = Some (min x y)"

definition dedup_step :: "nat \<Rightarrow> crush_arrays \<times> nat \<Rightarrow> crush_arrays \<times> nat" where
  "dedup_step i = (\<lambda>(A, prev).
     case (ca_subs A ! prev, ca_subs A ! i) of
       (Some a, Some b) \<Rightarrow>
         if compare_cmps_3way a b \<noteq> 0 then (A\<lparr>ca_next := (ca_next A)[prev := i]\<rparr>, i)
         else (A\<lparr>ca_subs := (ca_subs A)[prev := Some (fst a, None, snd (snd a)), i := None]\<rparr>, prev)
     | _ \<Rightarrow> (A, prev))"

text \<open>The loops over \<open>i = next[i]\<close>; the first argument bounds the number of iterations.\<close>

fun build_index :: "nat \<Rightarrow> nat \<Rightarrow> crush_arrays \<Rightarrow> crush_arrays" where
  "build_index 0 i A = A"
| "build_index (Suc fuel) i A =
     (if i < length (ca_subs A) then
        build_index fuel (ca_next A ! i)
          (case ca_subs A ! i of
             None \<Rightarrow> A
           | Some a \<Rightarrow> A\<lparr>ca_index := (ca_index A)[fst a := min_index (ca_index A ! fst a) (Some i)]\<rparr>)
      else A)"

fun fill_gaps :: "nat \<Rightarrow> nat option list \<Rightarrow> nat option list" where
  "fill_gaps 0 ix = ix"
| "fill_gaps (Suc i) ix = fill_gaps i (ix[Suc i := min_index (ix ! Suc i) (ix ! Suc (Suc i))])"

fun superset_inner ::
  "nat \<Rightarrow> ovs_bits \<Rightarrow> nat \<Rightarrow> nat \<Rightarrow> nat \<Rightarrow> nat \<Rightarrow> crush_arrays \<Rightarrow> crush_arrays option" where
  "superset_inner 0 L bit_width i prev j A = Some A"
| "superset_inner (Suc fuel) L bit_width i prev j A =
     (if j < length (ca_subs A) then
        if i = j then None else
        (case (ca_subs A ! i, ca_subs A ! j) of
           (Some a, Some b) \<Rightarrow>
             if expr_bitmap_intersect_check (snd (snd a)) (snd (snd b)) bit_width \<and>
                bitmap_is_superset L (cmp_mask (snd (snd b))) (cmp_mask (snd (snd a))) bit_width then
               (let A' = A\<lparr>ca_subs := (ca_subs A)[i := Some (fst a, None, snd (snd a)), j := None]\<rparr>;
                    A'' = (if prev \<noteq> 0 then A'\<lparr>ca_next := (ca_next A)[prev := ca_next A ! j]\<rparr>
                           else A'\<lparr>ca_index := (ca_index A)[Suc (fst a) := Some (ca_next A ! j)]\<rparr>)
                in superset_inner fuel L bit_width i prev (ca_next A'' ! j) A'')
             else superset_inner fuel L bit_width i j (ca_next A ! j) A
         | _ \<Rightarrow> superset_inner fuel L bit_width i prev (ca_next A ! j) A)
      else Some A)"

fun superset_outer :: "nat \<Rightarrow> ovs_bits \<Rightarrow> nat \<Rightarrow> nat \<Rightarrow> crush_arrays \<Rightarrow> crush_arrays option" where
  "superset_outer 0 L bit_width i A = Some A"
| "superset_outer (Suc fuel) L bit_width i A =
     (if i < length (ca_subs A) then
        (case ca_subs A ! i of
           None \<Rightarrow> superset_outer fuel L bit_width (ca_next A ! i) A
         | Some a \<Rightarrow>
             (case ca_index A ! Suc (fst a) of
                None \<Rightarrow> Some A
              | Some j \<Rightarrow>
                  do { A' \<leftarrow> superset_inner (length (ca_subs A)) L bit_width i 0 j A;
                       superset_outer fuel L bit_width (ca_next A' ! i) A' }))
      else Some A)"

definition crush_sub_of :: "ovs_bits \<Rightarrow> expr_symbol \<Rightarrow> string option \<times> expr_cmp \<Rightarrow> crush_sub" where
  "crush_sub_of L symbol = (\<lambda>(as, c).
     (if sym_width symbol > 0
      then bitmap_count1 L (cmp_mask c) (round_up_64 (sym_width symbol)) else 0, as, c))"

definition dedup_all :: "crush_sub list \<Rightarrow> crush_arrays" where
  "dedup_all subs = fst (fold dedup_step [1..<length subs]
     (\<lparr>ca_subs = map Some subs, ca_next = map Suc [0..<length subs], ca_index = []\<rparr>, 0))"

definition drop_supersets :: "ovs_bits \<Rightarrow> nat \<Rightarrow> nat \<Rightarrow> crush_arrays \<Rightarrow> crush_arrays option" where
  "drop_supersets L bit_width max_n_bits A =
     (let n = length (ca_subs A);
          A1 = build_index n 0 (A\<lparr>ca_index := replicate (max_n_bits + 2) None\<rparr>);
          A2 = A1\<lparr>ca_index := fill_gaps max_n_bits (ca_index A1)\<rparr>
      in superset_outer n L bit_width 0 A2)"

fun leaf_of :: "expr \<Rightarrow> (string option \<times> expr_cmp) option" where
  "leaf_of (Cmp as c) = Some (as, c)"
| "leaf_of _ = None"

definition crush_or_supersets :: "ovs_bits \<Rightarrow> expr list \<Rightarrow> expr_symbol \<Rightarrow> expr list option" where
  "crush_or_supersets L es symbol =
     do { leaves \<leftarrow> mapM leaf_of es;
          let subs0 = map (crush_sub_of L symbol) leaves;
          let has_addr_set = list_ex (\<lambda>(_, as, _). as \<noteq> None) subs0;
          let max_n_bits = foldr (\<lambda>s m. max (fst s) m) subs0 0;
          let A = dedup_all (qsort compare_cmps_3way subs0);
          A' \<leftarrow> (if sym_width symbol = 0 \<or> sym_level symbol \<noteq> EXPR_L_ORDINAL \<or> has_addr_set then Some A
                else drop_supersets L (round_up_64 (sym_width symbol)) max_n_bits A);
          Some (map (\<lambda>(_, as, c). Cmp as c) (map the (filter (\<lambda>s. s \<noteq> None) (ca_subs A')))) }"

section \<open>The arrays of the redundancy removal\<close>

definition alive :: "crush_arrays \<Rightarrow> nat \<Rightarrow> bool" where
  "alive A q \<longleftrightarrow> q < length (ca_subs A) \<and> ca_subs A ! q \<noteq> None"

text \<open>The links lead forward and jump over deleted elements only.\<close>

definition skips :: "crush_arrays \<Rightarrow> bool" where
  "skips A \<longleftrightarrow> length (ca_next A) = length (ca_subs A) \<and>
     (\<forall>p < length (ca_subs A). p < ca_next A ! p \<and> (\<forall>q. p < q \<and> q < ca_next A ! p \<longrightarrow> \<not> alive A q))"

text \<open>The elements left are those of the sorted array, up to address set names.\<close>

definition same_keys :: "crush_sub list \<Rightarrow> crush_arrays \<Rightarrow> bool" where
  "same_keys S A \<longleftrightarrow> length (ca_subs A) = length S \<and>
     (\<forall>q s. q < length S \<longrightarrow> ca_subs A ! q = Some s \<longrightarrow> fst s = fst (S ! q) \<and> snd (snd s) = snd (snd (S ! q)))"

text \<open>Entry \<open>k\<close> of the index separates the elements with at least \<open>k\<close> bits from the others.\<close>

definition indexed :: "crush_sub list \<Rightarrow> nat \<Rightarrow> crush_arrays \<Rightarrow> bool" where
  "indexed S m A \<longleftrightarrow> length (ca_index A) = m + 2 \<and>
     (\<forall>k q. 0 < k \<longrightarrow> k \<le> Suc m \<longrightarrow> alive A q \<longrightarrow>
        (k \<le> fst (S ! q) \<longleftrightarrow> (\<exists>j. ca_index A ! k = Some j \<and> j \<le> q)))"

definition subsumes :: "nat \<Rightarrow> crush_sub \<Rightarrow> crush_sub \<Rightarrow> bool" where
  "subsumes w a b \<longleftrightarrow> (\<forall>i < w. bit (cmp_mask (snd (snd a))) i \<longrightarrow>
     bit (cmp_mask (snd (snd b))) i \<and> (bit (cmp_value (snd (snd a))) i = bit (cmp_value (snd (snd b))) i))"

definition covered :: "nat \<Rightarrow> crush_sub list \<Rightarrow> crush_arrays \<Rightarrow> bool" where
  "covered w S A \<longleftrightarrow> (\<forall>q < length S. \<exists>p. alive A p \<and> subsumes w (S ! p) (S ! q))"

definition crush_inv :: "nat \<Rightarrow> crush_sub list \<Rightarrow> nat \<Rightarrow> crush_arrays \<Rightarrow> bool" where
  "crush_inv w S m A \<longleftrightarrow> skips A \<and> same_keys S A \<and> indexed S m A \<and> covered w S A"

lemma subsumes_refl [simp]: "subsumes w a a"
  by (simp add: subsumes_def)

lemma subsumes_trans: "subsumes w a b \<Longrightarrow> subsumes w b c \<Longrightarrow> subsumes w a c"
  by (simp add: subsumes_def)

lemma subsumes_cong:
  "snd (snd a) = snd (snd a') \<Longrightarrow> snd (snd b) = snd (snd b') \<Longrightarrow> subsumes w a b = subsumes w a' b'"
  by (simp add: subsumes_def)

lemma intersect_check_iff:
  "expr_bitmap_intersect_check a b w \<longleftrightarrow>
     (\<forall>i < w. bit (cmp_mask a) i \<and> bit (cmp_mask b) i \<longrightarrow> bit (cmp_value a) i = bit (cmp_value b) i)"
  by (auto simp: expr_bitmap_intersect_check_def bit_eq_iff bit_simps)

lemma skipsD:
  assumes "skips A" "p < length (ca_subs A)"
  shows "p < ca_next A ! p" "p < q \<Longrightarrow> q < ca_next A ! p \<Longrightarrow> \<not> alive A q"
  using assms by (auto simp: skips_def)

lemma same_keysD:
  assumes "same_keys S A" "alive A q"
  obtains s where "ca_subs A ! q = Some s" "fst s = fst (S ! q)" "snd (snd s) = snd (snd (S ! q))" "q < length S"
  using assms by (auto simp: same_keys_def alive_def)

text \<open>Deleting element \<open>j\<close>, subsumed by element \<open>i\<close>, and shortening the path to it.\<close>

definition drop_sub :: "nat \<Rightarrow> nat \<Rightarrow> crush_sub \<Rightarrow> nat \<Rightarrow> crush_arrays \<Rightarrow> crush_arrays" where
  "drop_sub i j a prev A =
     (let A' = A\<lparr>ca_subs := (ca_subs A)[i := Some (fst a, None, snd (snd a)), j := None]\<rparr>
      in if prev \<noteq> 0 then A'\<lparr>ca_next := (ca_next A)[prev := ca_next A ! j]\<rparr>
         else A'\<lparr>ca_index := (ca_index A)[Suc (fst a) := Some (ca_next A ! j)]\<rparr>)"

lemma alive_drop_sub:
  assumes "alive A i" "i \<noteq> j"
  shows "alive (drop_sub i j a prev A) q \<longleftrightarrow> alive A q \<and> q \<noteq> j"
  using assms by (auto simp: drop_sub_def alive_def Let_def nth_list_update_if split: if_splits)

text \<open>What the inner loop knows of the elements it has passed.\<close>

definition passed :: "nat \<Rightarrow> nat \<Rightarrow> nat \<Rightarrow> crush_arrays \<Rightarrow> bool" where
  "passed k prev j A \<longleftrightarrow>
     (if prev = 0 then \<exists>j0. ca_index A ! k = Some j0 \<and> j0 \<le> j \<and> (\<forall>q. j0 \<le> q \<and> q < j \<longrightarrow> \<not> alive A q)
      else prev < j \<and> alive A prev \<and> (\<forall>q. prev < q \<and> q < j \<longrightarrow> \<not> alive A q))"

lemma passed_dead:
  assumes "skips A" "passed k prev j A" "j < length (ca_subs A)" "\<not> alive A j"
  shows "passed k prev (ca_next A ! j) A"
proof -
  note nx = skipsD [OF assms(1,3)]
  have "\<not> alive A q" if "p < q" "q < ca_next A ! j" "\<forall>q. p < q \<and> q < j \<longrightarrow> \<not> alive A q" for p q
    using that nx(2) [of q] assms(4) by (metis linorder_neqE_nat)
  moreover have "\<not> alive A q" if "p \<le> q" "q < ca_next A ! j" "\<forall>q. p \<le> q \<and> q < j \<longrightarrow> \<not> alive A q" for p q
    using that nx(2) [of q] assms(4) by (metis linorder_neqE_nat)
  ultimately show ?thesis
    using assms(2) nx(1) unfolding passed_def by (auto split: if_splits)
qed

lemma passed_alive:
  assumes "skips A" "alive A j" "0 < j"
  shows "passed k j (ca_next A ! j) A"
  using assms skipsD [of A j] by (auto simp: passed_def alive_def)

lemma drop_sub_inv:
  assumes inv: "crush_inv w S m A" and i: "alive A i" and j: "alive A j" and "i < j"
    and a: "ca_subs A ! i = Some a" and k: "Suc (fst a) \<le> Suc m"
    and sub: "subsumes w (S ! i) (S ! j)" and passed: "passed (Suc (fst a)) prev j A"
  shows "crush_inv w S m (drop_sub i j a prev A)"
    and "passed (Suc (fst a)) prev (ca_next A ! j) (drop_sub i j a prev A)"
proof -
  let ?A = "drop_sub i j a prev A"
  have alive: "alive ?A q \<longleftrightarrow> alive A q \<and> q \<noteq> j" for q
    using alive_drop_sub i \<open>i < j\<close> by simp
  have len: "length (ca_subs ?A) = length (ca_subs A)"
    by (simp add: drop_sub_def Let_def)
  have jn: "j < length (ca_subs A)" using j by (simp add: alive_def)
  note nx = skipsD [of A, OF _ jn]
  have skips: "skips A" and keys: "same_keys S A" and index: "indexed S m A" and covered: "covered w S A"
    using inv by (auto simp: crush_inv_def)
  have link: "\<not> alive ?A q" if "p < q" "q < ca_next A ! j" "\<forall>q. p < q \<and> q < j \<longrightarrow> \<not> alive A q" for p q
    using that nx(2) [OF skips, of q] alive [of q] by (metis linorder_neqE_nat)
  have link': "\<not> alive ?A q" if "p \<le> q" "q < ca_next A ! j" "\<forall>q. p \<le> q \<and> q < j \<longrightarrow> \<not> alive A q" for p q
    using that nx(2) [OF skips, of q] alive [of q] by (metis linorder_neqE_nat)
  have "skips ?A"
  proof (cases "prev = 0")
    case True
    then have "ca_next ?A = ca_next A" by (simp add: drop_sub_def Let_def)
    then show ?thesis using skips alive len by (auto simp: skips_def)
  next
    case False
    then have nxt: "ca_next ?A = (ca_next A)[prev := ca_next A ! j]" by (simp add: drop_sub_def Let_def)
    have p: "prev < j" "alive A prev" "\<forall>q. prev < q \<and> q < j \<longrightarrow> \<not> alive A q"
      using passed False by (auto simp: passed_def)
    show ?thesis unfolding skips_def nxt
      using skips alive len p nx(1) [OF skips] link [of prev, OF _ _ p(3)]
      by (auto simp: skips_def nth_list_update_if alive_def [of A prev] split: if_splits)
  qed
  moreover have "same_keys S ?A"
    using keys a i \<open>i < j\<close> by (cases a) (auto simp: same_keys_def drop_sub_def Let_def nth_list_update_if split: if_splits)
  moreover have "indexed S m ?A"
  proof (cases "prev = 0")
    case True
    then have ix: "ca_index ?A = (ca_index A)[Suc (fst a) := Some (ca_next A ! j)]"
      by (simp add: drop_sub_def Let_def)
    obtain j0 where j0: "ca_index A ! Suc (fst a) = Some j0" "j0 \<le> j" "\<forall>q. j0 \<le> q \<and> q < j \<longrightarrow> \<not> alive A q"
      using passed True by (auto simp: passed_def)
    have "ca_next A ! j \<le> q \<longleftrightarrow> j0 \<le> q" if "alive ?A q" for q
      using link' [of j0 q] j0 that nx(1) [OF skips] by (metis leI le_trans less_imp_le_nat)
    then show ?thesis
      using index alive j0 k unfolding indexed_def ix
      by (auto simp: nth_list_update_if)
  next
    case False
    then have "ca_index ?A = ca_index A" by (simp add: drop_sub_def Let_def)
    then show ?thesis using index alive by (auto simp: indexed_def)
  qed
  moreover have "covered w S ?A"
    unfolding covered_def
  proof (intro allI impI)
    fix q assume "q < length S"
    then obtain p where p: "alive A p" "subsumes w (S ! p) (S ! q)"
      using covered by (auto simp: covered_def)
    show "\<exists>p. alive ?A p \<and> subsumes w (S ! p) (S ! q)"
    proof (cases "p = j")
      case True
      then have "subsumes w (S ! i) (S ! q)" using p sub subsumes_trans by blast
      then show ?thesis using alive i \<open>i < j\<close> by blast
    next
      case False
      then show ?thesis using alive p by blast
    qed
  qed
  ultimately show "crush_inv w S m ?A" by (simp add: crush_inv_def)
  show "passed (Suc (fst a)) prev (ca_next A ! j) ?A"
  proof (cases "prev = 0")
    case True
    then have "ca_index ?A = (ca_index A)[Suc (fst a) := Some (ca_next A ! j)]"
      by (simp add: drop_sub_def Let_def)
    then show ?thesis using True index k by (auto simp: passed_def indexed_def)
  next
    case False
    then have p: "prev < j" "alive A prev" "\<forall>q. prev < q \<and> q < j \<longrightarrow> \<not> alive A q"
      using passed by (auto simp: passed_def)
    then show ?thesis using False link [of prev, OF _ _ p(3)] nx(1) [OF skips] alive
      by (auto simp: passed_def)
  qed
qed

context ovs_bits_api
begin

lemma subsumes_test:
  "expr_bitmap_intersect_check (snd (snd a)) (snd (snd b)) w \<and>
     bitmap_is_superset L (cmp_mask (snd (snd b))) (cmp_mask (snd (snd a))) w \<longleftrightarrow> subsumes w a b"
  unfolding intersect_check_iff superset subsumes_def by blast

lemma superset_inner_ok:
  assumes "crush_inv w S m A" "alive A i" "fst (S ! i) \<le> m" "i < j"
    and "passed (Suc (fst (S ! i))) prev j A"
    and "\<And>q. q < j \<Longrightarrow> alive A q \<Longrightarrow> fst (S ! i) < fst (S ! q) \<Longrightarrow> \<not> subsumes w (S ! i) (S ! q)"
    and "length S \<le> j + fuel"
  shows "\<exists>A'. superset_inner fuel L w i prev j A = Some A' \<and> crush_inv w S m A' \<and> alive A' i \<and>
    (\<forall>q. alive A' q \<longrightarrow> alive A q) \<and>
    (\<forall>q. alive A' q \<longrightarrow> fst (S ! i) < fst (S ! q) \<longrightarrow> \<not> subsumes w (S ! i) (S ! q))"
  using assms
proof (induction fuel arbitrary: prev j A)
  case 0
  then have "\<forall>q. alive A q \<longrightarrow> q < j"
    by (auto simp: crush_inv_def same_keys_def alive_def)
  then show ?case using 0 by auto
next
  case (Suc fuel)
  have skips: "skips A" and keys: "same_keys S A" and len: "length (ca_subs A) = length S"
    using Suc.prems(1) by (auto simp: crush_inv_def same_keys_def)
  show ?case
  proof (cases "j < length S")
    case False
    then have "\<forall>q. alive A q \<longrightarrow> q < j" by (auto simp: alive_def len)
    then show ?thesis using Suc.prems False len by auto
  next
    case True
    then have jn: "j < length (ca_subs A)" using len by simp
    note nx = skipsD [OF skips jn]
    obtain a where a: "ca_subs A ! i = Some a" "fst a = fst (S ! i)" "snd (snd a) = snd (snd (S ! i))"
      using same_keysD [OF keys Suc.prems(2)] by metis
    show ?thesis
    proof (cases "ca_subs A ! j")
      case None
      then have dead: "\<not> alive A j" by (simp add: alive_def)
      have "\<not> subsumes w (S ! i) (S ! q)" if "q < ca_next A ! j" "alive A q" "fst (S ! i) < fst (S ! q)" for q
        using that Suc.prems(6) [of q] nx(2) [of q] dead by (metis linorder_neqE_nat)
      then show ?thesis
        using Suc.IH [of A "ca_next A ! j" prev] Suc.prems nx(1) passed_dead [OF skips Suc.prems(5) jn dead] a None jn
        by (simp add: len)
    next
      case (Some b)
      then have alive_j: "alive A j" using jn by (simp add: alive_def)
      have b: "snd (snd b) = snd (snd (S ! j))" using Some keys True by (cases b) (auto simp: same_keys_def)
      have sub_iff: "subsumes w a b = subsumes w (S ! i) (S ! j)" by (rule subsumes_cong [OF a(3) b])
      show ?thesis
      proof (cases "subsumes w a b")
        case False
        have "\<not> subsumes w (S ! i) (S ! q)" if "q < ca_next A ! j" "alive A q" "fst (S ! i) < fst (S ! q)" for q
          using that Suc.prems(6) [of q] nx(2) [of q] False sub_iff by (metis linorder_neqE_nat)
        then have "\<exists>A'. superset_inner fuel L w i j (ca_next A ! j) A = Some A' \<and> crush_inv w S m A' \<and>
            alive A' i \<and> (\<forall>q. alive A' q \<longrightarrow> alive A q) \<and>
            (\<forall>q. alive A' q \<longrightarrow> fst (S ! i) < fst (S ! q) \<longrightarrow> \<not> subsumes w (S ! i) (S ! q))"
          using Suc.prems nx(1) passed_alive [OF skips alive_j] by (intro Suc.IH) auto
        moreover have "superset_inner (Suc fuel) L w i prev j A = superset_inner fuel L w i j (ca_next A ! j) A"
          using a(1) Some jn False Suc.prems(4) by (simp add: subsumes_test)
        ultimately show ?thesis by simp
      next
        case True
        let ?A = "drop_sub i j a prev A"
        note drop = drop_sub_inv [OF Suc.prems(1,2) alive_j Suc.prems(4) a(1) _ _ Suc.prems(5) [folded a(2)]]
        have alive: "alive ?A q \<longleftrightarrow> alive A q \<and> q \<noteq> j" for q
          using alive_drop_sub Suc.prems(2,4) by simp
        have "\<not> subsumes w (S ! i) (S ! q)" if "q < ca_next A ! j" "alive ?A q" "fst (S ! i) < fst (S ! q)" for q
          using that Suc.prems(6) [of q] nx(2) [of q] alive [of q] by (metis linorder_neqE_nat)
        then have "\<exists>A'. superset_inner fuel L w i prev (ca_next A ! j) ?A = Some A' \<and> crush_inv w S m A' \<and>
            alive A' i \<and> (\<forall>q. alive A' q \<longrightarrow> alive ?A q) \<and>
            (\<forall>q. alive A' q \<longrightarrow> fst (S ! i) < fst (S ! q) \<longrightarrow> \<not> subsumes w (S ! i) (S ! q))"
          using Suc.prems nx(1) drop True sub_iff a alive by (intro Suc.IH) auto
        moreover have "prev \<noteq> j" using Suc.prems(4,5) by (auto simp: passed_def split: if_splits)
        then have "superset_inner (Suc fuel) L w i prev j A = superset_inner fuel L w i prev (ca_next A ! j) ?A"
          using a(1) Some jn True Suc.prems(4) by (simp add: subsumes_test drop_sub_def Let_def)
        ultimately show ?thesis using alive by auto
      qed
    qed
  qed
qed

lemma superset_outer_ok:
  assumes "crush_inv w S m A"
    and sorted: "\<And>p q. p < q \<Longrightarrow> q < length S \<Longrightarrow> fst (S ! p) \<le> fst (S ! q)"
    and max: "\<And>q. q < length S \<Longrightarrow> fst (S ! q) \<le> m"
    and "\<And>p q. p < i \<Longrightarrow> alive A p \<Longrightarrow> alive A q \<Longrightarrow> fst (S ! p) < fst (S ! q) \<Longrightarrow> \<not> subsumes w (S ! p) (S ! q)"
    and "length S \<le> i + fuel"
  shows "\<exists>A'. superset_outer fuel L w i A = Some A' \<and> crush_inv w S m A' \<and>
    (\<forall>q. alive A' q \<longrightarrow> alive A q) \<and>
    (\<forall>p q. alive A' p \<longrightarrow> alive A' q \<longrightarrow> fst (S ! p) < fst (S ! q) \<longrightarrow> \<not> subsumes w (S ! p) (S ! q))"
  using assms(1,4,5)
proof (induction fuel arbitrary: i A)
  case 0
  then have "\<forall>q. alive A q \<longrightarrow> q < i"
    by (auto simp: crush_inv_def same_keys_def alive_def)
  then show ?case using 0 by auto
next
  case (Suc fuel)
  have skips: "skips A" and keys: "same_keys S A" and len: "length (ca_subs A) = length S"
    and index: "indexed S m A"
    using Suc.prems(1) by (auto simp: crush_inv_def same_keys_def)
  show ?case
  proof (cases "i < length S")
    case False
    then have "\<forall>q. alive A q \<longrightarrow> q < i" by (auto simp: alive_def len)
    then show ?thesis using Suc.prems False len by auto
  next
    case True
    then have i: "i < length (ca_subs A)" using len by simp
    note nx = skipsD [OF skips i]
    show ?thesis
    proof (cases "ca_subs A ! i")
      case None
      then have "\<not> alive A i" by (simp add: alive_def)
      then have "\<not> alive A p" if "i \<le> p" "p < ca_next A ! i" for p
        using that nx(2) [of p] by (metis le_neq_implies_less)
      then show ?thesis
        using Suc.IH [of A "ca_next A ! i"] Suc.prems None i nx(1) by (simp add: len) (meson leI)
    next
      case (Some a)
      then have alive_i: "alive A i" and a: "fst a = fst (S ! i)"
        using i keys True by (cases a; auto simp: alive_def same_keys_def)+
      show ?thesis
      proof (cases "ca_index A ! Suc (fst a)")
        case None
        then have top: "\<not> fst (S ! i) < fst (S ! q)" if "alive A q" for q
          using index that max [OF True] a by (auto simp: indexed_def Suc_le_eq)
        have "\<not> fst (S ! p) < fst (S ! q)" if "i \<le> p" "alive A p" "alive A q" for p q
          using top [OF that(3)] sorted [of i p] that len by (cases "i = p") (auto simp: alive_def)
        then show ?thesis using Suc.prems Some None i by simp (meson leI)
      next
        case (Some j)
        have between: "fst (S ! i) < fst (S ! q) \<longleftrightarrow> j \<le> q" if "alive A q" for q
          using index that Some max [OF True] a by (auto simp: indexed_def Suc_le_eq)
        have "passed (Suc (fst (S ! i))) 0 j A" using Some a by (auto simp: passed_def)
        then obtain A' where A': "superset_inner (length S) L w i 0 j A = Some A'" "crush_inv w S m A'" "alive A' i"
            "\<And>q. alive A' q \<Longrightarrow> alive A q"
            "\<And>q. alive A' q \<Longrightarrow> fst (S ! i) < fst (S ! q) \<Longrightarrow> \<not> subsumes w (S ! i) (S ! q)"
          using superset_inner_ok [OF Suc.prems(1) alive_i max [OF True], of j 0 "length S"]
            between [OF alive_i] between by (metis leD le_add2 not_le_imp_less order_less_irrefl)
        note nx' = skipsD [of A' i]
        have nx'': "i < ca_next A' ! i" "\<not> alive A' p" if "i < p" "p < ca_next A' ! i" for p
          using A'(2,3) nx'(1) nx'(2) [of p] that by (auto simp: crush_inv_def alive_def)
        have step: "i < ca_next A' ! i" using A'(2,3) nx'(1) by (auto simp: crush_inv_def alive_def)
        have "\<not> subsumes w (S ! p) (S ! q)"
          if "p < ca_next A' ! i" "alive A' p" "alive A' q" "fst (S ! p) < fst (S ! q)" for p q
          using that Suc.prems(2) [of p q] A' nx''(2) [of p] by (metis linorder_neqE_nat)
        then show ?thesis
          using Suc.IH [of A' "ca_next A' ! i"] Suc.prems A' step \<open>ca_subs A ! i = Some a\<close> Some i len by auto
      qed
    qed
  qed
qed

end

text \<open>The index while it is built: entry \<open>k\<close> is the first element before \<open>i\<close> with \<open>k\<close> bits.\<close>

fun first_with :: "crush_sub list \<Rightarrow> nat \<Rightarrow> crush_arrays \<Rightarrow> nat \<Rightarrow> nat option \<Rightarrow> bool" where
  "first_with S i A k None \<longleftrightarrow> (\<forall>q < i. alive A q \<longrightarrow> fst (S ! q) \<noteq> k)"
| "first_with S i A k (Some j) \<longleftrightarrow>
     j < i \<and> alive A j \<and> fst (S ! j) = k \<and> (\<forall>q < i. alive A q \<longrightarrow> fst (S ! q) = k \<longrightarrow> j \<le> q)"

lemma first_with_skip:
  assumes "\<And>q. i \<le> q \<Longrightarrow> q < i' \<Longrightarrow> alive A q \<Longrightarrow> fst (S ! q) \<noteq> k" "i \<le> i'"
  shows "first_with S i A k x \<Longrightarrow> first_with S i' A k x"
proof -
  have "q < i" if "q < i'" "alive A q" "fst (S ! q) = k" for q
    using assms(1) [of q] that by (meson leI)
  moreover have "j < i'" if "j < i" for j using that assms(2) by simp
  ultimately show "first_with S i A k x \<Longrightarrow> first_with S i' A k x"
    by (cases x; simp only: first_with.simps) blast+
qed

lemma first_with_shrink:
  assumes "first_with S i A k x" "n \<le> i" "\<And>q. n \<le> q \<Longrightarrow> \<not> alive A q"
  shows "first_with S n A k x"
proof -
  have "q < n" if "alive A q" for q using assms(3) [of q] that by (meson leI)
  moreover have "j < i" if "j < n" for j using that assms(2) by simp
  ultimately show ?thesis using assms(1)
    by (cases x; simp only: first_with.simps) blast+
qed

lemma alive_index [simp]: "alive (A\<lparr>ca_index := ix\<rparr>) q = alive A q"
  by (simp add: alive_def)

lemma first_with_index [simp]: "first_with S i (A\<lparr>ca_index := ix\<rparr>) k x = first_with S i A k x"
  by (cases x) simp_all

lemma skips_index [simp]: "skips (A\<lparr>ca_index := ix\<rparr>) = skips A"
  by (simp add: skips_def)

lemma build_index_ok:
  assumes "skips A" "same_keys S A" "\<And>q. q < length S \<Longrightarrow> fst (S ! q) \<le> m"
    and "length (ca_index A) = m + 2" "\<And>k. k < m + 2 \<Longrightarrow> first_with S i A k (ca_index A ! k)"
    and "length S \<le> i + fuel"
  shows "\<exists>ix. build_index fuel i A = A\<lparr>ca_index := ix\<rparr> \<and> length ix = m + 2 \<and>
    (\<forall>k < m + 2. first_with S (length S) A k (ix ! k))"
  using assms
proof (induction fuel arbitrary: i A)
  case 0
  then have dead: "\<not> alive A q" if "length S \<le> q" for q using that by (auto simp: alive_def same_keys_def)
  have "first_with S (length S) A k (ca_index A ! k)" if "k < m + 2" for k
    using 0(6) dead by (intro first_with_shrink [OF 0(5) [OF that]]) auto
  then show ?case using 0 by (intro exI [of _ "ca_index A"]) simp
next
  case (Suc fuel)
  have len: "length (ca_subs A) = length S" using Suc.prems(2) by (simp add: same_keys_def)
  show ?case
  proof (cases "i < length S")
    case False
    then have dead: "\<not> alive A q" if "length S \<le> q" for q using that len by (auto simp: alive_def)
    have "first_with S (length S) A k (ca_index A ! k)" if "k < m + 2" for k
      using False dead by (intro first_with_shrink [OF Suc.prems(5) [OF that]]) auto
    then show ?thesis using Suc.prems(4) False len by (intro exI [of _ "ca_index A"]) simp
  next
    case True
    note nx = skipsD [OF Suc.prems(1), of i, unfolded len, OF True]
    define A1 where "A1 = (case ca_subs A ! i of None \<Rightarrow> A
      | Some a \<Rightarrow> A\<lparr>ca_index := (ca_index A)[fst a := min_index (ca_index A ! fst a) (Some i)]\<rparr>)"
    have A1: "A1 = A\<lparr>ca_index := ca_index A1\<rparr>" "ca_next A1 = ca_next A" "length (ca_index A1) = m + 2"
      using Suc.prems(4) by (auto simp: A1_def split: option.split)
    have alive1: "alive A1 q = alive A q" for q by (subst A1(1)) simp
    have first1: "first_with S n A1 k x = first_with S n A k x" for n k x by (subst A1(1)) simp
    have "skips A1" by (subst A1(1)) (simp add: Suc.prems(1))
    moreover have "same_keys S A1" using Suc.prems(2) by (subst A1(1)) (simp add: same_keys_def)
    ultimately have same: "skips A1" "same_keys S A1" by auto
    have "first_with S (ca_next A ! i) A1 k (ca_index A1 ! k)" if k: "k < m + 2" for k
    proof (rule first_with_skip [where i = "Suc i"])
      show "first_with S (Suc i) A1 k (ca_index A1 ! k)"
      proof (cases "ca_subs A ! i")
        case None
        then have "A1 = A" "\<not> alive A i" by (auto simp: A1_def alive_def)
        then show ?thesis
          by simp (rule first_with_skip [OF _ _ Suc.prems(5) [OF k]], auto simp: le_less_Suc_eq)
      next
        case (Some a)
        then have a: "fst a = fst (S ! i)" "alive A i"
          using Suc.prems(2) True len by (cases a; auto simp: same_keys_def alive_def)+
        have ix: "ca_index A1 ! k = (if k = fst a then min_index (ca_index A ! k) (Some i) else ca_index A ! k)"
          using Some Suc.prems(4) k by (simp add: A1_def nth_list_update_if)
        show ?thesis
          using Suc.prems(5) [OF k] a unfolding ix first1
          by (cases "ca_index A ! k") (auto simp: less_Suc_eq)
      qed
    qed (use nx in \<open>auto simp: alive1 Suc_le_eq\<close>)
    then have "\<exists>ix. build_index fuel (ca_next A ! i) A1 = A1\<lparr>ca_index := ix\<rparr> \<and> length ix = m + 2 \<and>
        (\<forall>k < m + 2. first_with S (length S) A1 k (ix ! k))"
      using Suc.prems(3,6) A1(3) same nx(1) by (intro Suc.IH) auto
    moreover have "build_index (Suc fuel) i A = build_index fuel (ca_next A ! i) A1"
      using True len by (simp add: A1_def split: option.split)
    moreover have "A1\<lparr>ca_index := ix\<rparr> = A\<lparr>ca_index := ix\<rparr>" for ix by (subst A1(1)) simp
    ultimately show ?thesis by (simp add: first1)
  qed
qed

text \<open>Entry \<open>k\<close> separates the elements with at least \<open>k\<close> bits.\<close>

definition separates :: "crush_sub list \<Rightarrow> crush_arrays \<Rightarrow> nat \<Rightarrow> nat option \<Rightarrow> bool" where
  "separates S A k x \<longleftrightarrow> (\<forall>q. alive A q \<longrightarrow> (k \<le> fst (S ! q) \<longleftrightarrow> (\<exists>j. x = Some j \<and> j \<le> q)))"

lemma separates_min:
  assumes sorted: "\<And>p q. p < q \<Longrightarrow> q < length S \<Longrightarrow> fst (S ! p) \<le> fst (S ! q)"
    and "length (ca_subs A) = length S"
    and "first_with S (length S) A k x" "separates S A (Suc k) y"
  shows "separates S A k (min_index x y)"
  unfolding separates_def
proof (intro allI impI)
  fix q assume q: "alive A q"
  then have qn: "q < length S" using assms(2) by (simp add: alive_def)
  have y: "Suc k \<le> fst (S ! q) \<longleftrightarrow> (\<exists>j. y = Some j \<and> j \<le> q)" using assms(4) q by (simp add: separates_def)
  show "k \<le> fst (S ! q) \<longleftrightarrow> (\<exists>j. min_index x y = Some j \<and> j \<le> q)"
  proof (cases x)
    case None
    then show ?thesis using assms(3) y q qn by (auto simp: Suc_le_eq le_less)
  next
    case (Some j)
    then have j: "fst (S ! j) = k" "fst (S ! q) = k \<longrightarrow> j \<le> q" using assms(3) q qn by auto
    have "j \<le> q \<longrightarrow> k \<le> fst (S ! q)" using sorted [of j q] j(1) qn by (cases "j = q") auto
    then show ?thesis using Some y j by (cases y) (auto simp: Suc_le_eq le_less min_def)
  qed
qed

lemma fill_gaps_ok:
  assumes sorted: "\<And>p q. p < q \<Longrightarrow> q < length S \<Longrightarrow> fst (S ! p) \<le> fst (S ! q)"
    and len: "length (ca_subs A) = length S"
    and "length ix = m + 2" "i \<le> m"
    and "\<And>k. 0 < k \<Longrightarrow> k \<le> i \<Longrightarrow> first_with S (length S) A k (ix ! k)"
    and "\<And>k. i < k \<Longrightarrow> k \<le> Suc m \<Longrightarrow> separates S A k (ix ! k)"
  shows "length (fill_gaps i ix) = m + 2 \<and> (\<forall>k. 0 < k \<longrightarrow> k \<le> Suc m \<longrightarrow> separates S A k (fill_gaps i ix ! k))"
  using assms(3-)
proof (induction i arbitrary: ix)
  case 0
  then show ?case by simp
next
  case (Suc i)
  let ?ix = "ix[Suc i := min_index (ix ! Suc i) (ix ! Suc (Suc i))]"
  have "separates S A (Suc i) (min_index (ix ! Suc i) (ix ! Suc (Suc i)))"
    using Suc.prems by (intro separates_min sorted len) auto
  then have "separates S A k (?ix ! k)" if "i < k" "k \<le> Suc m" for k
    using that Suc.prems(1,2) Suc.prems(4) [of k] by (cases "k = Suc i") auto
  then show ?case using Suc.prems Suc.IH [of ?ix] by simp
qed

context ovs_bits_api
begin

lemma drop_supersets_ok:
  assumes "skips A" "same_keys S A" "covered w S A"
    and sorted: "\<And>p q. p < q \<Longrightarrow> q < length S \<Longrightarrow> fst (S ! p) \<le> fst (S ! q)"
    and max: "\<And>q. q < length S \<Longrightarrow> fst (S ! q) \<le> m"
  shows "\<exists>A'. drop_supersets L w m A = Some A' \<and> same_keys S A' \<and> covered w S A' \<and>
    (\<forall>q. alive A' q \<longrightarrow> alive A q) \<and>
    (\<forall>p q. alive A' p \<longrightarrow> alive A' q \<longrightarrow> fst (S ! p) < fst (S ! q) \<longrightarrow> \<not> subsumes w (S ! p) (S ! q))"
proof -
  define R where "R = replicate (m + 2) (None :: nat option)"
  have R: "length R = m + 2" "\<And>k. k < m + 2 \<Longrightarrow> R ! k = None" by (simp_all add: R_def del: replicate_Suc)
  let ?A0 = "A\<lparr>ca_index := R\<rparr>"
  have len: "length (ca_subs A) = length S" using assms(2) by (simp add: same_keys_def)
  have "\<exists>ix. build_index (length S) 0 ?A0 = ?A0\<lparr>ca_index := ix\<rparr> \<and> length ix = m + 2 \<and>
      (\<forall>k < m + 2. first_with S (length S) ?A0 k (ix ! k))"
    using assms(1,2) max R by (intro build_index_ok) (auto simp: same_keys_def)
  then obtain ix where ix: "build_index (length S) 0 ?A0 = A\<lparr>ca_index := ix\<rparr>" "length ix = m + 2"
      "\<And>k. k < m + 2 \<Longrightarrow> first_with S (length S) A k (ix ! k)"
    by auto
  let ?ix = "fill_gaps m ix" and ?A2 = "A\<lparr>ca_index := fill_gaps m ix\<rparr>"
  have top: "separates S A (Suc m) (ix ! Suc m)"
  proof -
    have le: "fst (S ! q) \<le> m" if "alive A q" for q using that max len by (simp add: alive_def)
    have "ix ! Suc m = None"
      using ix(3) [of "Suc m"] le by (cases "ix ! Suc m") fastforce+
    then show ?thesis using le by (fastforce simp: separates_def)
  qed
  have "length ?ix = m + 2 \<and> (\<forall>k. 0 < k \<longrightarrow> k \<le> Suc m \<longrightarrow> separates S A k (?ix ! k))"
    using ix top sorted len by (intro fill_gaps_ok) (auto simp: le_Suc_eq)
  then have "indexed S m ?A2" by (auto simp: indexed_def separates_def)
  then have "crush_inv w S m ?A2" using assms(1-3) by (auto simp: crush_inv_def same_keys_def covered_def)
  from superset_outer_ok [OF this sorted max, of 0 "length S"]
  obtain A' where "superset_outer (length S) L w 0 ?A2 = Some A'" "crush_inv w S m A'"
      "\<forall>q. alive A' q \<longrightarrow> alive A q"
      "\<forall>p q. alive A' p \<longrightarrow> alive A' q \<longrightarrow> fst (S ! p) < fst (S ! q) \<longrightarrow> \<not> subsumes w (S ! p) (S ! q)"
    by auto
  then show ?thesis using ix len unfolding drop_supersets_def Let_def R_def [symmetric] by (simp add: crush_inv_def)
qed

end

text \<open>The order of the sorted array and the elimination of duplicates.\<close>

lemma compare_keys:
  "fst a = fst a' \<Longrightarrow> snd (snd a) = snd (snd a') \<Longrightarrow> compare_cmps_3way a b = compare_cmps_3way a' b"
  by (cases a; cases a'; cases b) simp

lemma compare_le_iff:
  "compare_cmps_3way a b \<le> 0 \<longleftrightarrow>
     (if sym_width (cmp_symbol (snd (snd a))) = 0
      then strcmp (cmp_string (snd (snd a))) (cmp_string (snd (snd b))) \<le> 0
      else fst a < fst b \<or> fst a = fst b \<and>
        (cmp_value (snd (snd a)) < cmp_value (snd (snd b)) \<or>
         cmp_value (snd (snd a)) = cmp_value (snd (snd b)) \<and> cmp_mask (snd (snd a)) \<le> cmp_mask (snd (snd b))))"
  by (cases a; cases b) (auto simp: Let_def le_less)

lemma compare_zero_iff:
  "compare_cmps_3way a b = 0 \<longleftrightarrow>
     (if sym_width (cmp_symbol (snd (snd a))) = 0
      then cmp_string (snd (snd a)) = cmp_string (snd (snd b))
      else fst a = fst b \<and> cmp_value (snd (snd a)) = cmp_value (snd (snd b)) \<and>
        cmp_mask (snd (snd a)) = cmp_mask (snd (snd b)))"
  by (cases a; cases b) (auto simp: Let_def)

definition on_symbol :: "expr_symbol \<Rightarrow> crush_sub set" where
  "on_symbol symbol = {s. cmp_symbol (snd (snd s)) = symbol}"

lemma compare_total:
  "a \<in> on_symbol symbol \<Longrightarrow> b \<in> on_symbol symbol \<Longrightarrow>
     compare_cmps_3way a b \<le> 0 \<or> compare_cmps_3way b a \<le> 0"
  using strcmp_total [of "cmp_string (snd (snd a))" "cmp_string (snd (snd b))"]
  by (auto simp: compare_le_iff on_symbol_def)

lemma compare_trans:
  "a \<in> on_symbol symbol \<Longrightarrow> b \<in> on_symbol symbol \<Longrightarrow> c \<in> on_symbol symbol \<Longrightarrow>
     compare_cmps_3way a b \<le> 0 \<Longrightarrow> compare_cmps_3way b c \<le> 0 \<Longrightarrow> compare_cmps_3way a c \<le> 0"
  using strcmp_trans [of "cmp_string (snd (snd a))" "cmp_string (snd (snd b))" "cmp_string (snd (snd c))"]
  by (auto simp: compare_le_iff on_symbol_def split: if_splits)

lemma lex3_antisym:
  fixes a b c d e f :: nat
  assumes "a < b \<or> a = b \<and> (c < d \<or> c = d \<and> e \<le> f)" "b < a \<or> b = a \<and> (d < c \<or> d = c \<and> f \<le> e)"
  shows "a = b \<and> c = d \<and> e = f"
  using assms by auto

lemma compare_squeeze:
  assumes "a \<in> on_symbol symbol" "b \<in> on_symbol symbol"
    and "compare_cmps_3way a b \<le> 0" "compare_cmps_3way b c \<le> 0" "compare_cmps_3way a c = 0"
  shows "compare_cmps_3way a b = 0"
proof (cases "sym_width symbol = 0")
  case True
  then show ?thesis
    using assms strcmp_antisym [of "cmp_string (snd (snd a))" "cmp_string (snd (snd b))"]
    by (simp add: compare_le_iff compare_zero_iff on_symbol_def)
next
  case False
  have w: "sym_width (cmp_symbol (snd (snd a))) \<noteq> 0" "sym_width (cmp_symbol (snd (snd b))) \<noteq> 0"
    using assms(1,2) False by (simp_all add: on_symbol_def)
  have ac: "fst c = fst a" "cmp_value (snd (snd c)) = cmp_value (snd (snd a))"
      "cmp_mask (snd (snd c)) = cmp_mask (snd (snd a))"
    using assms(5) w by (simp_all add: compare_zero_iff)
  show ?thesis
    using lex3_antisym [OF assms(3) [unfolded compare_le_iff if_not_P [OF w(1)]]
        assms(4) [unfolded compare_le_iff if_not_P [OF w(2)] ac]] w by (simp add: compare_zero_iff)
qed

lemma sorted_subs:
  assumes "set xs \<subseteq> on_symbol symbol"
  shows "sorted_wrt (\<lambda>a b. compare_cmps_3way a b \<le> 0) (qsort compare_cmps_3way xs)"
  using assms compare_total compare_trans by (intro sorted_wrt_qsort [of "on_symbol symbol"]) blast+

definition dedup_inv :: "crush_sub list \<Rightarrow> nat \<Rightarrow> crush_arrays \<Rightarrow> nat \<Rightarrow> bool" where
  "dedup_inv S i A prev \<longleftrightarrow> prev < i \<and> i \<le> length S \<and> length (ca_next A) = length S \<and>
     same_keys S A \<and> alive A prev \<and>
     (\<forall>q. i \<le> q \<longrightarrow> q < length S \<longrightarrow> ca_subs A ! q = Some (S ! q)) \<and>
     (\<forall>q. prev < q \<longrightarrow> q < i \<longrightarrow> \<not> alive A q) \<and>
     (\<forall>p. prev \<le> p \<longrightarrow> p < length S \<longrightarrow> ca_next A ! p = Suc p) \<and>
     (\<forall>p < prev. p < ca_next A ! p \<and> (\<forall>q. p < q \<longrightarrow> q < ca_next A ! p \<longrightarrow> \<not> alive A q)) \<and>
     (\<forall>q < i. \<exists>p. alive A p \<and> p \<le> q \<and> compare_cmps_3way (S ! p) (S ! q) = 0) \<and>
     (\<forall>p q. p < q \<longrightarrow> q < i \<longrightarrow> alive A p \<longrightarrow> alive A q \<longrightarrow> compare_cmps_3way (S ! p) (S ! q) \<noteq> 0)"

lemma dedup_invD:
  assumes "dedup_inv S i A prev"
  shows "prev < i" "i \<le> length S" "length (ca_next A) = length S" "same_keys S A" "alive A prev"
    "length (ca_subs A) = length S"
    "\<And>q. i \<le> q \<Longrightarrow> q < length S \<Longrightarrow> ca_subs A ! q = Some (S ! q)"
    "\<And>q. prev < q \<Longrightarrow> q < i \<Longrightarrow> \<not> alive A q"
    "\<And>p. prev \<le> p \<Longrightarrow> p < length S \<Longrightarrow> ca_next A ! p = Suc p"
    "\<And>p. p < prev \<Longrightarrow> p < ca_next A ! p"
    "\<And>p q. p < prev \<Longrightarrow> p < q \<Longrightarrow> q < ca_next A ! p \<Longrightarrow> \<not> alive A q"
    "\<And>q. q < i \<Longrightarrow> \<exists>p. alive A p \<and> p \<le> q \<and> compare_cmps_3way (S ! p) (S ! q) = 0"
    "\<And>p q. p < q \<Longrightarrow> q < i \<Longrightarrow> alive A p \<Longrightarrow> alive A q \<Longrightarrow> compare_cmps_3way (S ! p) (S ! q) \<noteq> 0"
  using assms by (simp_all add: dedup_inv_def same_keys_def)

lemma dedup_step_keep:
  assumes inv: "dedup_inv S i A prev" and i: "i < length S" and on: "set S \<subseteq> on_symbol symbol"
    and sorted: "\<And>p q. p < q \<Longrightarrow> q < length S \<Longrightarrow> compare_cmps_3way (S ! p) (S ! q) \<le> 0"
    and ne: "compare_cmps_3way (S ! prev) (S ! i) \<noteq> 0"
  shows "dedup_inv S (Suc i) (A\<lparr>ca_next := (ca_next A)[prev := i]\<rparr>) i" (is "dedup_inv _ _ ?A _")
proof -
  note I = dedup_invD [OF inv]
  have alive: "alive ?A = alive A" by (simp add: alive_def fun_eq_iff)
  have i_alive: "alive A i" using I(6,7) i by (simp add: alive_def)
  have distinct: "compare_cmps_3way (S ! p) (S ! i) \<noteq> 0" if p: "p < i" "alive A p" for p
  proof (cases "p = prev")
    case True
    then show ?thesis using ne by simp
  next
    case False
    then have "p < prev" using I(8) [of p] p by (meson linorder_neqE_nat)
    moreover from this have "compare_cmps_3way (S ! p) (S ! prev) \<noteq> 0" using I(1,5,13) p by blast
    moreover have "S ! p \<in> on_symbol symbol" "S ! prev \<in> on_symbol symbol"
      using on p i I(1) by (auto intro!: subsetD [OF on nth_mem])
    ultimately show ?thesis
      using compare_squeeze [of "S ! p" symbol "S ! prev" "S ! i"] sorted [of p prev] sorted [of prev i] I(1) i
      by linarith
  qed
  have nxt: "p < (ca_next A)[prev := i] ! p" "p < q \<Longrightarrow> q < (ca_next A)[prev := i] ! p \<Longrightarrow> \<not> alive A q"
    if "p < i" for p q
    using that I(1,3,8,9,10,11) i by (cases p prev rule: linorder_cases; simp add: nth_list_update_if)+
  have refl: "compare_cmps_3way (S ! i) (S ! i) = 0" by (simp add: compare_zero_iff)
  show ?thesis
    unfolding dedup_inv_def alive
  proof (intro conjI)
    show "\<forall>q < Suc i. \<exists>p. alive A p \<and> p \<le> q \<and> compare_cmps_3way (S ! p) (S ! q) = 0"
      using I(12) i_alive refl by (metis less_antisym order_refl)
    show "\<forall>p q. p < q \<longrightarrow> q < Suc i \<longrightarrow> alive A p \<longrightarrow> alive A q \<longrightarrow> compare_cmps_3way (S ! p) (S ! q) \<noteq> 0"
      using I(13) distinct by (metis less_antisym)
  qed (use I i i_alive nxt in \<open>auto simp: nth_list_update_if same_keys_def\<close>)
qed

lemma dedup_step_drop:
  assumes inv: "dedup_inv S i A prev" and i: "i < length S"
    and a: "ca_subs A ! prev = Some a" and eq: "compare_cmps_3way (S ! prev) (S ! i) = 0"
  shows "dedup_inv S (Suc i)
    (A\<lparr>ca_subs := (ca_subs A)[prev := Some (fst a, None, snd (snd a)), i := None]\<rparr>) prev"
    (is "dedup_inv _ _ ?A _")
proof -
  note I = dedup_invD [OF inv]
  have alive: "alive ?A q \<longleftrightarrow> alive A q \<and> q \<noteq> i" for q
    using I(1,5,6) i by (auto simp: alive_def nth_list_update_if)
  have keys: "same_keys S ?A"
    using I(1,4,6) a i by (cases a) (auto simp: same_keys_def nth_list_update_if split: if_splits)
  show ?thesis
    unfolding dedup_inv_def alive
  proof (intro conjI)
    show "same_keys S ?A" by (rule keys)
    show "\<forall>q < Suc i. \<exists>p. (alive A p \<and> p \<noteq> i) \<and> p \<le> q \<and> compare_cmps_3way (S ! p) (S ! q) = 0"
    proof (intro allI impI)
      fix q assume "q < Suc i"
      then consider "q = i" | "q < i" by linarith
      then show "\<exists>p. (alive A p \<and> p \<noteq> i) \<and> p \<le> q \<and> compare_cmps_3way (S ! p) (S ! q) = 0"
      proof cases
        case 1
        then show ?thesis using I(1,5) eq by (intro exI [of _ prev]) auto
      next
        case 2
        then show ?thesis using I(12) [of q] by (metis leD)
      qed
    qed
    show "\<forall>p q. p < q \<longrightarrow> q < Suc i \<longrightarrow> alive A p \<and> p \<noteq> i \<longrightarrow> alive A q \<and> q \<noteq> i \<longrightarrow>
        compare_cmps_3way (S ! p) (S ! q) \<noteq> 0"
      using I(13) by (metis less_antisym)
    show "\<forall>q. prev < q \<longrightarrow> q < Suc i \<longrightarrow> \<not> (alive A q \<and> q \<noteq> i)"
      using I(8) by (metis less_antisym)
  qed (use I i in \<open>auto simp: nth_list_update_if\<close>)
qed

lemma dedup_step_inv:
  assumes inv: "dedup_inv S i A prev" and "i < length S" "set S \<subseteq> on_symbol symbol"
    and "\<And>p q. p < q \<Longrightarrow> q < length S \<Longrightarrow> compare_cmps_3way (S ! p) (S ! q) \<le> 0"
    and step: "dedup_step i (A, prev) = (A', prev')"
  shows "dedup_inv S (Suc i) A' prev'"
proof -
  note I = dedup_invD [OF inv]
  obtain a where a: "ca_subs A ! prev = Some a" "fst a = fst (S ! prev)" "snd (snd a) = snd (snd (S ! prev))"
    using same_keysD [OF I(4,5)] by blast
  have "(A', prev') = (if compare_cmps_3way (S ! prev) (S ! i) \<noteq> 0 then (A\<lparr>ca_next := (ca_next A)[prev := i]\<rparr>, i)
      else (A\<lparr>ca_subs := (ca_subs A)[prev := Some (fst a, None, snd (snd a)), i := None]\<rparr>, prev))"
    using step a(1) I(7) [of i] assms(2) compare_keys [OF a(2,3), of "S ! i"] by (simp add: dedup_step_def)
  then show ?thesis
    using dedup_step_keep [OF inv assms(2-4)] dedup_step_drop [OF inv assms(2) a(1)] by (auto split: if_splits)
qed

lemma dedup_fold_inv:
  assumes "set S \<subseteq> on_symbol symbol"
    and "\<And>p q. p < q \<Longrightarrow> q < length S \<Longrightarrow> compare_cmps_3way (S ! p) (S ! q) \<le> 0"
    and "0 < i" "i \<le> length S"
  shows "\<exists>A prev. fold dedup_step [1..<i]
      (\<lparr>ca_subs = map Some S, ca_next = map Suc [0..<length S], ca_index = []\<rparr>, 0) = (A, prev) \<and>
    dedup_inv S i A prev"
  using assms(3,4)
proof (induction i)
  case 0
  then show ?case by simp
next
  case (Suc i)
  show ?case
  proof (cases "i = 0")
    case True
    then show ?thesis using Suc.prems(2)
      by (cases "S ! 0") (simp add: dedup_inv_def same_keys_def alive_def compare_zero_iff Suc_le_eq)
  next
    case False
    then obtain A prev where "fold dedup_step [1..<i]
        (\<lparr>ca_subs = map Some S, ca_next = map Suc [0..<length S], ca_index = []\<rparr>, 0) = (A, prev)"
        "dedup_inv S i A prev"
      using Suc by auto
    then show ?thesis
      using dedup_step_inv [of S i A prev symbol, OF _ _ assms(1,2)] Suc.prems(2) False
      by (cases "dedup_step i (A, prev)") auto
  qed
qed

lemma dedup_all_ok:
  assumes "set S \<subseteq> on_symbol symbol" "S \<noteq> []"
    and "\<And>p q. p < q \<Longrightarrow> q < length S \<Longrightarrow> compare_cmps_3way (S ! p) (S ! q) \<le> 0"
  shows "skips (dedup_all S)" "same_keys S (dedup_all S)"
    "\<And>q. q < length S \<Longrightarrow> \<exists>p. alive (dedup_all S) p \<and> compare_cmps_3way (S ! p) (S ! q) = 0"
    "\<And>p q. p < q \<Longrightarrow> alive (dedup_all S) p \<Longrightarrow> alive (dedup_all S) q \<Longrightarrow> compare_cmps_3way (S ! p) (S ! q) \<noteq> 0"
proof -
  obtain prev where inv: "dedup_inv S (length S) (dedup_all S) prev"
    using dedup_fold_inv [OF assms(1,3), of "length S"] assms(2) by (auto simp: dedup_all_def)
  note I = dedup_invD [OF inv]
  show "same_keys S (dedup_all S)" by (rule I(4))
  show "skips (dedup_all S)"
    unfolding skips_def
  proof (intro conjI allI impI)
    show "length (ca_next (dedup_all S)) = length (ca_subs (dedup_all S))" using I(3,6) by simp
    fix p assume p: "p < length (ca_subs (dedup_all S))"
    show "p < ca_next (dedup_all S) ! p" using I(6,9,10) p by (cases "p < prev") auto
    fix q assume "p < q \<and> q < ca_next (dedup_all S) ! p"
    then show "\<not> alive (dedup_all S) q" using I(6,9,11) p by (cases "p < prev") auto
  qed
  show "\<exists>p. alive (dedup_all S) p \<and> compare_cmps_3way (S ! p) (S ! q) = 0" if "q < length S" for q
    using I(12) [OF that] by blast
  show "compare_cmps_3way (S ! p) (S ! q) \<noteq> 0"
    if "p < q" "alive (dedup_all S) p" "alive (dedup_all S) q" for p q
    using I(13) [of p q] I(6) that by (simp add: alive_def)
qed

section \<open>Correctness of the redundancy removal\<close>

text \<open>The comparisons that are crushed: equality on the given symbol, with a proper mask.\<close>

definition good_cmp :: "expr_symbol \<Rightarrow> expr_cmp \<Rightarrow> bool" where
  "good_cmp symbol c \<longleftrightarrow> cmp_symbol c = symbol \<and> cmp_relop c = EXPR_R_EQ \<and> simple_cmp c"

fun good_leaf :: "expr_symbol \<Rightarrow> expr \<Rightarrow> bool" where
  "good_leaf symbol (Cmp as c) \<longleftrightarrow> good_cmp symbol c"
| "good_leaf symbol _ \<longleftrightarrow> False"

lemma good_leafE:
  assumes "good_leaf symbol e"
  obtains as c where "e = Cmp as c" "good_cmp symbol c"
  using assms by (cases e) auto

lemma sem_good_cmp:
  "good_cmp symbol c \<Longrightarrow> sym_width symbol > 0 \<Longrightarrow> sem_cmp E c \<longleftrightarrow> env_sym E symbol AND cmp_mask c = cmp_value c"
  by (auto simp: good_cmp_def sem_cmp_def)

lemma sem_good_cmp_bits:
  "good_cmp symbol c \<Longrightarrow> sym_width symbol > 0 \<Longrightarrow>
     sem_cmp E c \<longleftrightarrow> (\<forall>i. bit (cmp_mask c) i \<longrightarrow> bit (env_sym E symbol) i = bit (cmp_value c) i)"
  by (subst sem_good_cmp) (auto simp: good_cmp_def simple_cmp_def masked_eq_iff)

lemma round_up_64_ge: "w \<le> round_up_64 w"
proof -
  have "(w + 63) div 64 * 64 + (w + 63) mod 64 = w + 63" by (rule div_mult_mod_eq)
  moreover have "(w + 63) mod 64 < 64" by simp
  ultimately show ?thesis unfolding round_up_64_def by linarith
qed

lemma subsumes_sem:
  assumes "good_cmp symbol a" "good_cmp symbol b" "sym_width symbol > 0" "sym_width symbol \<le> w"
    and "subsumes w (na, xa, a) (nb, xb, b)" "sem_cmp E b"
  shows "sem_cmp E a"
proof -
  have "bit (env_sym E symbol) i = bit (cmp_value a) i" if i: "bit (cmp_mask a) i" for i
  proof -
    have "i < w" using assms(1,3,4) i by (auto simp: good_cmp_def simple_cmp_def within_width_iff)
    then have "bit (cmp_mask b) i" "bit (cmp_value a) i = bit (cmp_value b) i"
      using assms(5) i by (auto simp: subsumes_def)
    then show ?thesis using assms(2,3,6) by (simp add: sem_good_cmp_bits)
  qed
  then show ?thesis using assms(1,3) by (simp add: sem_good_cmp_bits)
qed

lemma not_subsumes_sem:
  assumes "good_cmp symbol a" "good_cmp symbol b" "sym_width symbol > 0"
    and "\<not> subsumes w (na, xa, a) (nb, xb, b)"
  shows "\<exists>E. sem_cmp E b \<and> \<not> sem_cmp E a"
proof -
  obtain i where i: "bit (cmp_mask a) i" "bit (cmp_mask b) i \<longrightarrow> bit (cmp_value a) i \<noteq> bit (cmp_value b) i"
    using assms(4) by (auto simp: subsumes_def)
  define x where "x = (if bit (cmp_mask b) i then cmp_value b
    else if bit (cmp_value a) i then unset_bit i (cmp_value b) else set_bit i (cmp_value b))"
  have "bit x i \<noteq> bit (cmp_value a) i" using i(2) by (simp add: x_def bit_simps)
  moreover have "bit x k = bit (cmp_value b) k" if "bit (cmp_mask b) k" for k
    using that by (auto simp: x_def bit_simps)
  ultimately show ?thesis
    using assms(1-3) i(1)
    by (intro exI [of _ "\<lparr>env_sym = \<lambda>_. x, env_port = \<lambda>_. None, env_resident = \<lambda>_. False\<rparr>"])
      (auto simp: sem_good_cmp_bits)
qed

lemma subsumes_same_count:
  assumes sub: "subsumes w a b" and good: "good_cmp symbol (snd (snd a))" "good_cmp symbol (snd (snd b))"
    and w: "sym_width symbol > 0" "sym_width symbol \<le> w"
    and count: "fst a = count1 (cmp_mask (snd (snd a))) w" "fst b = count1 (cmp_mask (snd (snd b))) w"
    and ge: "fst b \<le> fst a"
  shows "compare_cmps_3way a b = 0"
proof -
  let ?a = "snd (snd a)" and ?b = "snd (snd b)"
  let ?A = "{i. i < w \<and> bit (cmp_mask ?a) i}" and ?B = "{i. i < w \<and> bit (cmp_mask ?b) i}"
  have inw: "i < w" if "bit (cmp_mask ?a) i \<or> bit (cmp_mask ?b) i" for i
    using that good w by (auto simp: good_cmp_def simple_cmp_def within_width_iff)
  have "?A \<subseteq> ?B" using sub by (auto simp: subsumes_def)
  moreover have "card ?B \<le> card ?A" using ge count by (simp add: count1_card)
  ultimately have eq: "?A = ?B" by (intro card_seteq) auto
  then have mask: "bit (cmp_mask ?a) i = bit (cmp_mask ?b) i" for i using inw by blast
  have val: "bit (cmp_value ?a) i = bit (cmp_value ?b) i" for i
  proof (cases "bit (cmp_mask ?a) i")
    case True
    then show ?thesis using sub inw by (auto simp: subsumes_def)
  next
    case False
    then show ?thesis using good w mask by (auto simp: good_cmp_def simple_cmp_def sub_mask_iff)
  qed
  have "cmp_mask ?a = cmp_mask ?b" "cmp_value ?a = cmp_value ?b" using mask val by (auto simp: bit_eq_iff)
  moreover have "fst a = fst b" using eq count by (simp add: count1_card)
  ultimately show ?thesis using good(1) w by (auto simp: compare_zero_iff good_cmp_def)
qed

lemma compare_zero_sem:
  assumes "good_cmp symbol a" "good_cmp symbol b" "compare_cmps_3way (na, xa, a) (nb, xb, b) = 0"
  shows "sem_cmp E a = sem_cmp E b"
  using assms by (auto simp: compare_zero_iff good_cmp_def sem_cmp_def split: if_splits option.splits)

lemma leaf_of_map:
  assumes "\<forall>e \<in> set es. good_leaf symbol e"
  shows "\<exists>ls. mapM leaf_of es = Some ls \<and> es = map (\<lambda>(as, c). Cmp as c) ls \<and> (\<forall>(as, c) \<in> set ls. good_cmp symbol c)"
  using assms by (induction es) (auto elim!: good_leafE)


lemma set_filter_nth: "set (filter P xs) = {xs ! q | q. q < length xs \<and> P (xs ! q)}"
  unfolding set_filter by (auto simp: in_set_conv_nth)

lemma sorted_wrt_the_filter:
  assumes "\<And>p q. p < q \<Longrightarrow> q < length xs \<Longrightarrow> xs ! p \<noteq> None \<Longrightarrow> xs ! q \<noteq> None \<Longrightarrow> P (the (xs ! p)) (the (xs ! q))"
  shows "sorted_wrt P (map the (filter (\<lambda>s. s \<noteq> None) xs))"
proof -
  have "sorted_wrt (\<lambda>x y. x \<noteq> None \<longrightarrow> y \<noteq> None \<longrightarrow> P (the x) (the y)) xs"
    using assms by (simp add: sorted_wrt_iff_nth_less)
  then have "sorted_wrt (\<lambda>x y. x \<noteq> None \<longrightarrow> y \<noteq> None \<longrightarrow> P (the x) (the y)) (filter (\<lambda>s. s \<noteq> None) xs)"
    by (rule sorted_wrt_filter)
  then show ?thesis
    unfolding sorted_wrt_map by (rule sorted_wrt_mono_rel [rotated]) auto
qed

text \<open>No comparison of the list implies another one.\<close>

definition irredundant :: "expr list \<Rightarrow> bool" where
  "irredundant es \<longleftrightarrow>
     sorted_wrt (\<lambda>x y. (\<exists>E. sem E x \<and> \<not> sem E y) \<and> (\<exists>E. sem E y \<and> \<not> sem E x)) es"

definition has_as_name :: "expr \<Rightarrow> bool" where
  "has_as_name e \<longleftrightarrow> (case leaf_of e of Some (Some _, _) \<Rightarrow> True | _ \<Rightarrow> False)"

text \<open>What is left in the arrays, as expressions.\<close>

definition survivors :: "crush_arrays \<Rightarrow> expr list" where
  "survivors A = map (\<lambda>(_, as, c). Cmp as c) (map the (filter (\<lambda>s. s \<noteq> None) (ca_subs A)))"

lemma set_survivors:
  "set (survivors A) = (\<lambda>q. Cmp (fst (snd (the (ca_subs A ! q)))) (snd (snd (the (ca_subs A ! q))))) ` {q. alive A q}"
  unfolding survivors_def set_map set_filter_nth alive_def case_prod_unfold by blast

lemma same_keys_nth:
  assumes "same_keys S A" "alive A q"
  shows "snd (snd (the (ca_subs A ! q))) = snd (snd (S ! q))" "q < length S"
  using same_keysD [OF assms] by fastforce+

lemma survivors_sem:
  assumes "same_keys S A"
  shows "(\<exists>e \<in> set (survivors A). sem E e) \<longleftrightarrow> (\<exists>q. alive A q \<and> sem_cmp E (snd (snd (S ! q))))"
  unfolding set_survivors using same_keys_nth(1) [OF assms] by auto

lemma survivors_good:
  assumes keys: "same_keys S A" and "\<forall>s \<in> set S. good_cmp symbol (snd (snd s))"
  shows "\<forall>e \<in> set (survivors A). good_leaf symbol e"
proof -
  have "good_cmp symbol (snd (snd (the (ca_subs A ! q))))" if "alive A q" for q
    using same_keys_nth [OF keys that] assms(2) by simp
  then show ?thesis unfolding set_survivors by auto
qed

lemma survivors_irredundant:
  assumes keys: "same_keys S A" and good: "\<And>q. q < length S \<Longrightarrow> good_cmp symbol (snd (snd (S ! q)))"
    and w: "sym_width symbol > 0"
    and sub: "\<And>p q. alive A p \<Longrightarrow> alive A q \<Longrightarrow> p \<noteq> q \<Longrightarrow> \<not> subsumes w (S ! p) (S ! q)"
  shows "irredundant (survivors A)"
proof -
  have "\<exists>E. sem_cmp E (snd (snd (S ! q))) \<and> \<not> sem_cmp E (snd (snd (S ! p)))"
    if "alive A p" "alive A q" "p \<noteq> q" for p q
  proof -
    have "p < length S" "q < length S" using that same_keys_nth(2) [OF keys] by auto
    then show ?thesis
      using not_subsumes_sem [OF good good w, of p q w "fst (S ! p)" "fst (snd (S ! p))" "fst (S ! q)" "fst (snd (S ! q))"]
        sub [OF that] by simp
  qed
  then have D: "\<exists>E. sem_cmp E (snd (snd (the (ca_subs A ! q)))) \<and> \<not> sem_cmp E (snd (snd (the (ca_subs A ! p))))"
    if "alive A p" "alive A q" "p \<noteq> q" for p q
    using that by (simp add: same_keys_nth(1) [OF keys])
  have "sorted_wrt (\<lambda>x y. (\<exists>E. sem_cmp E (snd (snd x)) \<and> \<not> sem_cmp E (snd (snd y))) \<and>
      (\<exists>E. sem_cmp E (snd (snd y)) \<and> \<not> sem_cmp E (snd (snd x)))) (map the (filter (\<lambda>s. s \<noteq> None) (ca_subs A)))"
    using D by (intro sorted_wrt_the_filter) (simp_all add: alive_def)
  then show ?thesis
    unfolding irredundant_def survivors_def sorted_wrt_map [of _ "\<lambda>(_, as, c). Cmp as c"]
    by (simp add: case_prod_unfold)
qed


lemma survivors_cover:
  assumes keys: "same_keys S A"
    and "\<And>q. q < length S \<Longrightarrow> \<exists>p. alive A p \<and> (\<forall>E. sem_cmp E (snd (snd (S ! q))) \<longrightarrow> sem_cmp E (snd (snd (S ! p))))"
  shows "(\<exists>e \<in> set (survivors A). sem E e) \<longleftrightarrow> (\<exists>s \<in> set S. sem_cmp E (snd (snd s)))"
proof -
  have "(\<exists>q. alive A q \<and> sem_cmp E (snd (snd (S ! q)))) \<longleftrightarrow> (\<exists>q < length S. sem_cmp E (snd (snd (S ! q))))"
    using assms(2) same_keys_nth(2) [OF keys] by blast
  then show ?thesis unfolding survivors_sem [OF keys] by (metis in_set_conv_nth)
qed

lemma survivors_Nil: "alive A p \<Longrightarrow> survivors A \<noteq> []"
  using set_survivors [of A] by auto

lemma foldr_max_ge: "s \<in> set ss \<Longrightarrow> fst s \<le> foldr (\<lambda>s m. max (fst s) m) ss (0 :: nat)"
  by (induction ss) (auto simp: max_def)

lemma compare_zero_sym:
  "a \<in> on_symbol symbol \<Longrightarrow> b \<in> on_symbol symbol \<Longrightarrow> compare_cmps_3way a b = 0 \<longleftrightarrow> compare_cmps_3way b a = 0"
  by (auto simp: compare_zero_iff on_symbol_def)

context ovs_bits_api
begin

lemma crush_sub_of_simps [simp]:
  "snd (snd (crush_sub_of L symbol l)) = snd l" "fst (snd (crush_sub_of L symbol l)) = fst l"
  "sym_width symbol > 0 \<Longrightarrow> fst (crush_sub_of L symbol l) = count1 (cmp_mask (snd l)) (round_up_64 (sym_width symbol))"
  by (simp_all add: crush_sub_of_def count split: prod.split)

lemma drop_supersets_dedup:
  assumes good: "\<And>q. q < length S \<Longrightarrow> good_cmp symbol (snd (snd (S ! q)))" and "S \<noteq> []"
    and count: "\<And>q. q < length S \<Longrightarrow> fst (S ! q) = count1 (cmp_mask (snd (snd (S ! q)))) w"
    and sorted: "\<And>p q. p < q \<Longrightarrow> q < length S \<Longrightarrow> compare_cmps_3way (S ! p) (S ! q) \<le> 0"
    and w: "sym_width symbol > 0" "sym_width symbol \<le> w"
    and max: "\<And>q. q < length S \<Longrightarrow> fst (S ! q) \<le> m"
  shows "\<exists>A. drop_supersets L w m (dedup_all S) = Some A \<and> same_keys S A \<and> covered w S A \<and>
    (\<forall>p q. alive A p \<longrightarrow> alive A q \<longrightarrow> p \<noteq> q \<longrightarrow> \<not> subsumes w (S ! p) (S ! q))"
proof -
  have on: "set S \<subseteq> on_symbol symbol"
    using good by (auto simp: on_symbol_def good_cmp_def set_conv_nth)
  have width: "sym_width (cmp_symbol (snd (snd (S ! q)))) > 0" if "q < length S" for q
    using good [OF that] w by (simp add: good_cmp_def)
  note dedup = dedup_all_ok [OF on \<open>S \<noteq> []\<close> sorted]
  have in_S: "q < length S" if "alive (dedup_all S) q" for q
    using that dedup(2) by (simp add: alive_def same_keys_def)
  have "covered w S (dedup_all S)"
    unfolding covered_def
  proof (intro allI impI)
    fix q assume "q < length S"
    then obtain p where "alive (dedup_all S) p" "compare_cmps_3way (S ! p) (S ! q) = 0" using dedup(3) by blast
    then show "\<exists>p. alive (dedup_all S) p \<and> subsumes w (S ! p) (S ! q)"
      using width [OF in_S] by (intro exI [of _ p]) (auto simp: compare_zero_iff subsumes_def)
  qed
  moreover have "fst (S ! p) \<le> fst (S ! q)" if "p < q" "q < length S" for p q
    using sorted [OF that] width [of p] that by (auto simp: compare_le_iff)
  ultimately obtain A where A: "drop_supersets L w m (dedup_all S) = Some A" "same_keys S A" "covered w S A"
      "\<forall>q. alive A q \<longrightarrow> alive (dedup_all S) q"
      "\<forall>p q. alive A p \<longrightarrow> alive A q \<longrightarrow> fst (S ! p) < fst (S ! q) \<longrightarrow> \<not> subsumes w (S ! p) (S ! q)"
    using drop_supersets_ok [of "dedup_all S" S w m, OF dedup(1,2)] max by blast
  have "\<not> subsumes w (S ! p) (S ! q)" if pq: "alive A p" "alive A q" "p \<noteq> q" for p q
  proof
    assume sub: "subsumes w (S ! p) (S ! q)"
    have alive: "alive (dedup_all S) p" "alive (dedup_all S) q" using A(4) pq by auto
    then have len: "p < length S" "q < length S" using in_S by auto
    have "fst (S ! q) \<le> fst (S ! p)" using A(5) pq sub by (meson leI)
    then have zero: "compare_cmps_3way (S ! p) (S ! q) = 0"
      using subsumes_same_count [OF sub good good w] count len by simp
    moreover have "S ! p \<in> on_symbol symbol" "S ! q \<in> on_symbol symbol" using subsetD [OF on nth_mem] len by blast+
    ultimately have "compare_cmps_3way (S ! q) (S ! p) = 0" using compare_zero_sym by blast
    then show False using dedup(4) [of p q] dedup(4) [of q p] alive zero pq(3) by (meson linorder_neqE_nat)
  qed
  then show ?thesis using A by blast
qed

lemma crush_or_supersets_ok:
  assumes good: "\<forall>e \<in> set es. good_leaf symbol e" and "es \<noteq> []"
  shows "\<exists>es'. crush_or_supersets L es symbol = Some es' \<and> es' \<noteq> [] \<and> (\<forall>e \<in> set es'. good_leaf symbol e) \<and>
    (\<forall>E. (\<exists>e \<in> set es'. sem E e) \<longleftrightarrow> (\<exists>e \<in> set es. sem E e)) \<and>
    (sym_width symbol > 0 \<longrightarrow> sym_level symbol = EXPR_L_ORDINAL \<longrightarrow> \<not> list_ex has_as_name es \<longrightarrow> irredundant es')"
proof -
  let ?w = "round_up_64 (sym_width symbol)"
  obtain ls where ls: "mapM leaf_of es = Some ls" "es = map (\<lambda>(as, c). Cmp as c) ls"
      "\<forall>(as, c) \<in> set ls. good_cmp symbol c"
    using leaf_of_map [OF good] by blast
  define S0 where "S0 = map (crush_sub_of L symbol) ls"
  define S where "S = qsort compare_cmps_3way S0"
  define m where "m = foldr (\<lambda>s m. max (fst s) m) S0 0"
  define plain where "plain \<longleftrightarrow> sym_width symbol = 0 \<or> sym_level symbol \<noteq> EXPR_L_ORDINAL \<or>
    list_ex (\<lambda>(_, as, _). as \<noteq> None) S0"
  have run: "crush_or_supersets L es symbol =
      map_option survivors (if plain then Some (dedup_all S) else drop_supersets L ?w m (dedup_all S))"
    unfolding crush_or_supersets_def survivors_def [symmetric]
    by (simp add: ls(1) m_def S_def plain_def Let_def map_conv_bind_option comp_def flip: S0_def)
  have set_S: "set S = crush_sub_of L symbol ` set ls" by (simp add: S_def S0_def)
  have good_S: "good_cmp symbol (snd (snd (S ! q)))" if "q < length S" for q
    using ls(3) nth_mem [OF that] by (auto simp: set_S)
  then have good_S': "\<forall>s \<in> set S. good_cmp symbol (snd (snd s))" by (metis in_set_conv_nth)
  then have on: "set S \<subseteq> on_symbol symbol" by (auto simp: on_symbol_def good_cmp_def)
  have "S \<noteq> []" using assms(2) ls(2) set_S by auto
  have sorted: "compare_cmps_3way (S ! p) (S ! q) \<le> 0" if "p < q" "q < length S" for p q
    using sorted_subs [of S0 symbol] on that by (simp add: S_def sorted_wrt_iff_nth_less)
  note dedup = dedup_all_ok [OF on \<open>S \<noteq> []\<close> sorted]
  have sem_S: "(\<exists>s \<in> set S. sem_cmp E (snd (snd s))) \<longleftrightarrow> (\<exists>e \<in> set es. sem E e)" for E
    unfolding set_S ls(2) by force
  show ?thesis
  proof (cases plain)
    case True
    have cover: "\<exists>p. alive (dedup_all S) p \<and> (\<forall>E. sem_cmp E (snd (snd (S ! q))) \<longrightarrow> sem_cmp E (snd (snd (S ! p))))"
      if q: "q < length S" for q
    proof -
      obtain p where p: "alive (dedup_all S) p" "compare_cmps_3way (S ! p) (S ! q) = 0" using dedup(3) q by blast
      then have "p < length S" using dedup(2) by (simp add: alive_def same_keys_def)
      then show ?thesis
        using p compare_zero_sem [OF good_S good_S [OF q]] by (metis prod.collapse)
    qed
    have "\<not> list_ex has_as_name es \<longrightarrow> sym_width symbol = 0 \<or> sym_level symbol \<noteq> EXPR_L_ORDINAL"
      using True by (auto simp: plain_def ls(2) list_ex_iff S0_def has_as_name_def crush_sub_of_def)
    moreover have "survivors (dedup_all S) \<noteq> []" using survivors_Nil cover [of 0] \<open>S \<noteq> []\<close> by blast
    moreover have "crush_or_supersets L es symbol = Some (survivors (dedup_all S))" using run True by simp
    ultimately show ?thesis
      using survivors_cover [OF dedup(2) cover] sem_S survivors_good [OF dedup(2) good_S'] by auto
  next
    case False
    then have w: "sym_width symbol > 0" by (simp add: plain_def)
    have count: "fst (S ! q) = count1 (cmp_mask (snd (snd (S ! q)))) ?w" if "q < length S" for q
      using nth_mem [OF that] w by (auto simp: set_S)
    have "fst (S ! q) \<le> m" if "q < length S" for q
      using nth_mem [OF that] foldr_max_ge [of "S ! q" S0] by (simp add: S_def m_def)
    then obtain A where A: "drop_supersets L ?w m (dedup_all S) = Some A" "same_keys S A" "covered ?w S A"
        "\<forall>p q. alive A p \<longrightarrow> alive A q \<longrightarrow> p \<noteq> q \<longrightarrow> \<not> subsumes ?w (S ! p) (S ! q)"
      using drop_supersets_dedup [OF good_S \<open>S \<noteq> []\<close> count sorted w round_up_64_ge] by blast
    have cover: "\<exists>p. alive A p \<and> (\<forall>E. sem_cmp E (snd (snd (S ! q))) \<longrightarrow> sem_cmp E (snd (snd (S ! p))))"
      if q: "q < length S" for q
    proof -
      obtain p where p: "alive A p" "subsumes ?w (S ! p) (S ! q)" using A(3) q by (auto simp: covered_def)
      then have "p < length S" using A(2) by (simp add: alive_def same_keys_def)
      then show ?thesis
        using p subsumes_sem [OF good_S good_S [OF q] w round_up_64_ge] by (metis prod.collapse)
    qed
    moreover have "survivors A \<noteq> []" using survivors_Nil cover [of 0] \<open>S \<noteq> []\<close> by blast
    moreover have "irredundant (survivors A)" using survivors_irredundant [OF A(2) good_S w] A(4) by blast
    moreover have "crush_or_supersets L es symbol = Some (survivors A)" using run False A(1) by simp
    ultimately show ?thesis
      using survivors_cover [OF A(2) cover] sem_S survivors_good [OF A(2) good_S'] by auto
  qed
qed

end

end
