(* ===== verification/Expr_Crush.thy ===== *)
theory Expr_Crush
  imports Crush_Arrays
begin

text \<open>
  \<open>crush_cmps\<close> of \<open>lib/expr.c\<close>: an expression over a single symbol becomes a constant, one
  comparison, or a disjunction of comparisons.
\<close>

fun cmp_of :: "expr \<Rightarrow> expr_cmp option" where
  "cmp_of (Cmp _ c) = Some c"
| "cmp_of _ = None"

section \<open>Crushing conjunctions and disjunctions\<close>

definition disjunction_matches_string :: "expr list \<Rightarrow> string \<Rightarrow> bool option" where
  "disjunction_matches_string subs s =
     do { cs \<leftarrow> mapM cmp_of subs; Some (list_ex (\<lambda>c. cmp_string c = s) cs) }"

text \<open>
  The first loop of \<open>crush_and_string\<close>: \<open>Inl\<close> is the result of an early return, \<open>Inr\<close> the
  singleton found and the disjunctions kept.
\<close>

fun crush_string_loop ::
  "(expr \<Rightarrow> expr option) \<Rightarrow> expr list \<Rightarrow> (string option \<times> expr_cmp) option \<Rightarrow> expr list list \<Rightarrow>
     (expr + (string option \<times> expr_cmp) option \<times> expr list list) option" where
  "crush_string_loop crush [] singleton ors = Some (Inr (singleton, ors))"
| "crush_string_loop crush (sub # subs) singleton ors =
     do { new \<leftarrow> crush sub;
          case new of
            Cmp as c \<Rightarrow>
              (case singleton of
                 None \<Rightarrow> crush_string_loop crush subs (Some (as, c)) ors
               | Some (_, sc) \<Rightarrow>
                   if cmp_string c = cmp_string sc then crush_string_loop crush subs singleton ors
                   else Some (Inl (Boolean False)))
          | Andor J_AND _ \<Rightarrow> None
          | Andor J_OR ds \<Rightarrow> crush_string_loop crush subs singleton (ors @ [ds])
          | Boolean b \<Rightarrow>
              if \<not> b then Some (Inl (Boolean b)) else crush_string_loop crush subs singleton ors
          | Condition _ _ _ \<Rightarrow> None }"

definition sset_add :: "string list \<Rightarrow> string \<Rightarrow> string list" where
  "sset_add xs s = (if s \<in> set xs then xs else xs @ [s])"

text \<open>The intersection of the disjunctions, \<open>None\<close> inside when it becomes empty.\<close>

fun intersect_strings :: "string list \<Rightarrow> expr list list \<Rightarrow> string list option option" where
  "intersect_strings result [] = Some (Some result)"
| "intersect_strings result (ds # ors) =
     do { cs \<leftarrow> mapM cmp_of ds;
          let strings = foldl sset_add [] (map cmp_string cs);
          let result' = (if result = [] then strings else filter (\<lambda>s. s \<in> set strings) result);
          if result' = [] then Some None else intersect_strings result' ors }"

fun singleton_allowed :: "expr list list \<Rightarrow> string \<Rightarrow> bool option" where
  "singleton_allowed [] s = Some True"
| "singleton_allowed (ds # ors) s =
     do { m \<leftarrow> disjunction_matches_string ds s; if m then singleton_allowed ors s else Some False }"

definition string_cmp :: "expr_symbol \<Rightarrow> string \<Rightarrow> expr" where
  "string_cmp symbol s = Cmp None
     \<lparr>cmp_symbol = symbol, cmp_relop = EXPR_R_EQ, cmp_string = s, cmp_value = 0, cmp_mask = 0\<rparr>"

definition crush_and_string ::
  "ovs_bits \<Rightarrow> (expr \<Rightarrow> expr option) \<Rightarrow> expr list \<Rightarrow> expr_symbol \<Rightarrow> expr option" where
  "crush_and_string L crush es symbol =
     (if length es < 2 then None else
      do { r \<leftarrow> crush_string_loop crush es None [];
           case r of
             Inl e \<Rightarrow> Some e
           | Inr (Some (as, c), ors) \<Rightarrow>
               do { ok \<leftarrow> singleton_allowed ors (cmp_string c);
                    Some (if ok then Cmp as c else Boolean False) }
           | Inr (None, ors) \<Rightarrow>
               do { result \<leftarrow> intersect_strings [] ors;
                    case result of
                      None \<Rightarrow> Some (Boolean False)
                    | Some strings \<Rightarrow>
                        Some (expr_fix (Andor J_OR (map (string_cmp symbol) (sset_order L strings)))) } })"

text \<open>The first loop of \<open>crush_and_numeric\<close>, with the intersection of the plain comparisons.\<close>

fun crush_numeric_loop ::
  "ovs_bits \<Rightarrow> (expr \<Rightarrow> expr option) \<Rightarrow> expr list \<Rightarrow> mf_subvalue \<Rightarrow> mf_subvalue \<Rightarrow> expr list list \<Rightarrow>
     (expr + mf_subvalue \<times> mf_subvalue \<times> expr list list) option" where
  "crush_numeric_loop L crush [] val msk ors = Some (Inr (val, msk, ors))"
| "crush_numeric_loop L crush (sub # subs) val msk ors =
     do { new \<leftarrow> crush sub;
          case new of
            Cmp as c \<Rightarrow>
              (case mf_subvalue_intersect L val msk (cmp_value c) (cmp_mask c) of
                 None \<Rightarrow> Some (Inl (Boolean False))
               | Some (val', msk') \<Rightarrow> crush_numeric_loop L crush subs val' msk' ors)
          | Andor J_AND _ \<Rightarrow> None
          | Andor J_OR ds \<Rightarrow> crush_numeric_loop L crush subs val msk (ors @ [ds])
          | Boolean b \<Rightarrow>
              if \<not> b then Some (Inl (Boolean b)) else crush_numeric_loop L crush subs val msk ors
          | Condition _ _ _ \<Rightarrow> None }"

definition numeric_cmp :: "expr_symbol \<Rightarrow> mf_subvalue \<Rightarrow> mf_subvalue \<Rightarrow> expr" where
  "numeric_cmp symbol val msk = Cmp None
     \<lparr>cmp_symbol = symbol, cmp_relop = EXPR_R_EQ, cmp_string = '''', cmp_value = val, cmp_mask = msk\<rparr>"

text \<open>\<open>a && (b || c || d)\<close> as \<open>ab || ac || ad\<close>.\<close>

fun distribute :: "ovs_bits \<Rightarrow> mf_subvalue \<Rightarrow> mf_subvalue \<Rightarrow> expr list \<Rightarrow> expr list option" where
  "distribute L val msk [] = Some []"
| "distribute L val msk (sub # subs) =
     do { (as, c) \<leftarrow> leaf_of sub;
          rest \<leftarrow> distribute L val msk subs;
          Some (case mf_subvalue_intersect L val msk (cmp_value c) (cmp_mask c) of
                  None \<Rightarrow> rest
                | Some (v, m) \<Rightarrow> Cmp as (c\<lparr>cmp_value := v, cmp_mask := m\<rparr>) # rest) }"

text \<open>\<open>x && (a0 || a1) && (b0 || b1)\<close> as \<open>xa0b0 || xa0b1 || xa1b0 || xa1b1\<close>.\<close>

fun cross_inner ::
  "ovs_bits \<Rightarrow> expr_symbol \<Rightarrow> mf_subvalue \<Rightarrow> mf_subvalue \<Rightarrow> expr list \<Rightarrow> expr list option" where
  "cross_inner L symbol val msk [] = Some []"
| "cross_inner L symbol val msk (b # bs) =
     do { c \<leftarrow> cmp_of b;
          rest \<leftarrow> cross_inner L symbol val msk bs;
          Some (case mf_subvalue_intersect L val msk (cmp_value c) (cmp_mask c) of
                  None \<Rightarrow> rest
                | Some (v, m) \<Rightarrow> numeric_cmp symbol v m # rest) }"

fun cross_product ::
  "ovs_bits \<Rightarrow> expr_symbol \<Rightarrow> mf_subvalue \<Rightarrow> mf_subvalue \<Rightarrow> expr list \<Rightarrow> expr list \<Rightarrow> expr list option" where
  "cross_product L symbol val msk [] bs = Some []"
| "cross_product L symbol val msk (a # as) bs =
     do { c \<leftarrow> cmp_of a;
          row \<leftarrow> (case mf_subvalue_intersect L val msk (cmp_value c) (cmp_mask c) of
                   None \<Rightarrow> Some []
                 | Some (v, m) \<Rightarrow> cross_inner L symbol v m bs);
          rest \<leftarrow> cross_product L symbol val msk as bs;
          Some (row @ rest) }"

definition crush_and_numeric ::
  "ovs_bits \<Rightarrow> (expr \<Rightarrow> expr option) \<Rightarrow> expr list \<Rightarrow> expr_symbol \<Rightarrow> expr option" where
  "crush_and_numeric L crush es symbol =
     (if length es < 2 then None else
      do { r \<leftarrow> crush_numeric_loop L crush es 0 0 [];
           case r of
             Inl e \<Rightarrow> Some e
           | Inr (val, msk, []) \<Rightarrow>
               Some (if is_all_zeros L msk then Boolean True else numeric_cmp symbol val msk)
           | Inr (val, msk, [disjuncts]) \<Rightarrow>
               do { subs \<leftarrow> distribute L val msk disjuncts;
                    case subs of
                      [] \<Rightarrow> Some (Boolean False)
                    | [cmp] \<Rightarrow> Some cmp
                    | _ \<Rightarrow> crush (Andor J_OR subs) }
           | Inr (val, msk, as # bs # rest) \<Rightarrow>
               do { subs \<leftarrow> cross_product L symbol val msk as bs;
                    case subs of
                      [] \<Rightarrow> Some (Boolean False)
                    | [cmp] \<Rightarrow>
                        if rest = [] then crush cmp
                        else crush (Andor J_AND (cmp # map (Andor J_OR) rest))
                    | _ \<Rightarrow>
                        if rest \<noteq> [] then crush (Andor J_AND (Andor J_OR subs # map (Andor J_OR) rest))
                        else crush (Andor J_OR subs) } })"

definition crush_or ::
  "ovs_bits \<Rightarrow> (expr \<Rightarrow> expr option) \<Rightarrow> expr list \<Rightarrow> expr_symbol \<Rightarrow> expr option" where
  "crush_or L crush es symbol =
     do { subs \<leftarrow> mapM crush es;
          case expr_fix (Andor J_OR (concat (map (expr_insert_andor J_OR) subs))) of
            Andor J_OR es' \<Rightarrow>
              do { es'' \<leftarrow> crush_or_supersets L es' symbol; Some (expr_fix (Andor J_OR es'')) }
          | e \<Rightarrow> Some e }"

text \<open>\<open>crush_cmps\<close>; the first argument bounds the depth of the recursion.\<close>

fun crush_cmps_fuel :: "nat \<Rightarrow> ovs_bits \<Rightarrow> expr_symbol \<Rightarrow> expr \<Rightarrow> expr option" where
  "crush_cmps_fuel 0 L symbol e = None"
| "crush_cmps_fuel (Suc fuel) L symbol e =
     (case e of
        Andor J_OR es \<Rightarrow> crush_or L (crush_cmps_fuel fuel L symbol) es symbol
      | Andor J_AND es \<Rightarrow>
          if sym_width symbol > 0
          then crush_and_numeric L (crush_cmps_fuel fuel L symbol) es symbol
          else crush_and_string L (crush_cmps_fuel fuel L symbol) es symbol
      | Cmp as c \<Rightarrow> Some (Cmp as c)
      | Boolean b \<Rightarrow> Some (Boolean b)
      | Condition _ _ _ \<Rightarrow> None)"

text \<open>The number of nodes, and the recursion depth that is always enough.\<close>

fun expr_nodes :: "expr \<Rightarrow> nat" where
  "expr_nodes (Andor _ es) = Suc (sum_list (map expr_nodes es))"
| "expr_nodes _ = 1"

definition crush_cmps :: "ovs_bits \<Rightarrow> expr \<Rightarrow> expr_symbol \<Rightarrow> expr option" where
  "crush_cmps L e symbol = crush_cmps_fuel (Suc (expr_nodes e)) L symbol e"

lemma expr_nodes_pos: "0 < expr_nodes e"
  by (cases e) auto

lemma length_le_nodes: "length es \<le> sum_list (map expr_nodes es)"
proof (induction es)
  case (Cons a es)
  then show ?case using expr_nodes_pos [of a] by simp
qed simp

lemma expr_nodes_child: "e \<in> set es \<Longrightarrow> expr_nodes e + length es \<le> expr_nodes (Andor j es)"
proof (induction es)
  case (Cons a es)
  then show ?case using length_le_nodes [of es] expr_nodes_pos [of a] by auto
qed simp

section \<open>Correctness of crushing\<close>

text \<open>What crushing accepts and what it returns.\<close>

fun crushable :: "expr_symbol \<Rightarrow> expr \<Rightarrow> bool" where
  "crushable symbol (Cmp as c) \<longleftrightarrow> good_cmp symbol c"
| "crushable symbol (Andor j es) \<longleftrightarrow> 2 \<le> length es \<and> (\<forall>e \<in> set es. crushable symbol e)"
| "crushable symbol (Boolean b) \<longleftrightarrow> False"
| "crushable symbol (Condition t n s) \<longleftrightarrow> False"

definition flat :: "expr_symbol \<Rightarrow> expr list \<Rightarrow> bool" where
  "flat symbol ds \<longleftrightarrow> 2 \<le> length ds \<and> (\<forall>e \<in> set ds. good_leaf symbol e)"

fun crushed :: "expr_symbol \<Rightarrow> expr \<Rightarrow> bool" where
  "crushed symbol (Cmp as c) \<longleftrightarrow> good_cmp symbol c"
| "crushed symbol (Andor J_OR es) \<longleftrightarrow> flat symbol es"
| "crushed symbol (Andor J_AND es) \<longleftrightarrow> False"
| "crushed symbol (Boolean b) \<longleftrightarrow> \<not> b"
| "crushed symbol (Condition t n s) \<longleftrightarrow> False"

lemma crushed_cases [consumes 1, case_names cmp disj false]:
  assumes "crushed symbol e"
  obtains as c where "e = Cmp as c" "good_cmp symbol c"
  | ds where "e = Andor J_OR ds" "flat symbol ds"
  | "e = Boolean False"
  using assms by (cases "(symbol, e)" rule: crushed.cases) auto

text \<open>Two logical ports have different port numbers.\<close>

definition ports_inj :: "env \<Rightarrow> bool" where
  "ports_inj E \<longleftrightarrow> (\<forall>a b p. env_port E a = Some p \<longrightarrow> env_port E b = Some p \<longrightarrow> a = b)"

definition crushes :: "(expr \<Rightarrow> expr option) \<Rightarrow> expr_symbol \<Rightarrow> expr \<Rightarrow> bool" where
  "crushes f symbol e \<longleftrightarrow>
     (\<exists>e'. f e = Some e' \<and> crushed symbol e' \<and> (\<forall>E. ports_inj E \<longrightarrow> sem E e' = sem E e))"

lemma crushesE:
  assumes "crushes f symbol e"
  obtains e' where "f e = Some e'" "crushed symbol e'" "\<And>E. ports_inj E \<Longrightarrow> sem E e' = sem E e"
  using assms by (auto simp: crushes_def)

text \<open>A result that has the meaning of \<open>e\<close>.\<close>

definition crush_result :: "expr_symbol \<Rightarrow> expr \<Rightarrow> expr option \<Rightarrow> bool" where
  "crush_result symbol e r \<longleftrightarrow>
     (\<exists>e'. r = Some e' \<and> crushed symbol e' \<and> (\<forall>E. ports_inj E \<longrightarrow> sem E e' = sem E e))"

lemma crushes_result: "crushes f symbol e \<longleftrightarrow> crush_result symbol e (f e)"
  by (simp add: crushes_def crush_result_def)

lemma crush_result_cong:
  assumes "crush_result symbol e r" "\<And>E. ports_inj E \<Longrightarrow> sem E e = sem E e'"
  shows "crush_result symbol e' r"
  using assms by (auto simp: crush_result_def)

lemma crush_result_Some [simp]:
  "crush_result symbol e (Some e') \<longleftrightarrow> crushed symbol e' \<and> (\<forall>E. ports_inj E \<longrightarrow> sem E e' = sem E e)"
  by (simp add: crush_result_def)

text \<open>A value within its mask, and a mask within the field.\<close>

definition ok_mask :: "expr_symbol \<Rightarrow> nat \<Rightarrow> nat \<Rightarrow> bool" where
  "ok_mask symbol v m \<longleftrightarrow> v AND m = v \<and> take_bit (sym_width symbol) m = m"

lemma good_cmp_numeric:
  "sym_width symbol > 0 \<Longrightarrow> good_cmp symbol c \<longleftrightarrow>
     cmp_symbol c = symbol \<and> cmp_relop c = EXPR_R_EQ \<and> cmp_mask c \<noteq> 0 \<and> ok_mask symbol (cmp_value c) (cmp_mask c)"
  by (auto simp: good_cmp_def simple_cmp_def ok_mask_def)

lemma ok_mask_zero [simp]: "ok_mask symbol 0 0"
  by (simp add: ok_mask_def)

lemma good_numeric_cmp:
  "sym_width symbol > 0 \<Longrightarrow> ok_mask symbol v m \<Longrightarrow> m \<noteq> 0 \<Longrightarrow> good_leaf symbol (numeric_cmp symbol v m)"
  by (simp add: numeric_cmp_def good_cmp_numeric)

lemma sem_numeric_cmp:
  "sym_width symbol > 0 \<Longrightarrow> sem E (numeric_cmp symbol v m) \<longleftrightarrow> env_sym E symbol AND m = v"
  by (simp add: numeric_cmp_def sem_cmp_def)

context ovs_bits_api
begin

lemma intersect_None:
  assumes "mf_subvalue_intersect L v m v' m' = None" "ok_mask symbol v m" "ok_mask symbol v' m'"
  shows "\<not> (x AND m = v \<and> x AND m' = v')"
proof -
  obtain i where "bit m i" "bit m' i" "bit v i \<noteq> bit v' i"
    using assms(1) by (auto simp: intersect bit_eq_iff bit_simps split: if_splits)
  then show ?thesis using assms(2,3) by (auto simp: ok_mask_def masked_eq_iff)
qed

lemma intersect_Some:
  assumes "mf_subvalue_intersect L v m v' m' = Some (v'', m'')" "ok_mask symbol v m" "ok_mask symbol v' m'"
  shows "ok_mask symbol v'' m''" "x AND m'' = v'' \<longleftrightarrow> x AND m = v \<and> x AND m' = v'"
    "m'' = 0 \<longleftrightarrow> m = 0 \<and> m' = 0"
proof -
  have eq: "v'' = v OR v'" "m'' = m OR m'" and agree: "bit m i \<and> bit m' i \<longrightarrow> bit v i = bit v' i" for i
    using assms(1) by (auto simp: intersect bit_eq_iff bit_simps split: if_splits)
  have sub: "bit v i \<longrightarrow> bit m i" "bit v' i \<longrightarrow> bit m' i" for i
    using assms(2,3) by (auto simp: ok_mask_def sub_mask_iff)
  show ok: "ok_mask symbol v'' m''"
    using assms(2,3) by (auto simp: eq ok_mask_def bit_eq_iff bit_simps)
  show "x AND m'' = v'' \<longleftrightarrow> x AND m = v \<and> x AND m' = v'"
  proof -
    have "x AND m'' = v'' \<longleftrightarrow> (\<forall>i. bit m'' i \<longrightarrow> bit x i = bit v'' i)"
      using ok by (simp add: ok_mask_def masked_eq_iff)
    also have "\<dots> \<longleftrightarrow> (\<forall>i. bit m i \<longrightarrow> bit x i = bit v i) \<and> (\<forall>i. bit m' i \<longrightarrow> bit x i = bit v' i)"
      using sub agree unfolding eq by (simp add: bit_or_iff) blast
    finally show ?thesis using assms(2,3) by (simp add: ok_mask_def masked_eq_iff)
  qed
  show "m'' = 0 \<longleftrightarrow> m = 0 \<and> m' = 0" by (auto simp: eq bit_eq_iff bit_simps)
qed

end

text \<open>The conjunction that the first loop of \<open>crush_and_numeric\<close> has collected.\<close>

definition num_sem :: "env \<Rightarrow> expr_symbol \<Rightarrow> nat \<Rightarrow> nat \<Rightarrow> expr list list \<Rightarrow> bool" where
  "num_sem E symbol v m ors \<longleftrightarrow> env_sym E symbol AND m = v \<and> (\<forall>ds \<in> set ors. \<exists>d \<in> set ds. sem E d)"

definition num_ok :: "expr_symbol \<Rightarrow> nat \<Rightarrow> nat \<Rightarrow> expr list list \<Rightarrow> bool" where
  "num_ok symbol v m ors \<longleftrightarrow> ok_mask symbol v m \<and> (\<forall>ds \<in> set ors. flat symbol ds)"

context ovs_bits_api
begin

lemma crush_numeric_loop_ok:
  assumes w: "sym_width symbol > 0" and "\<forall>sub \<in> set subs. crushes f symbol sub" and "num_ok symbol v m ors"
  shows "\<exists>r. crush_numeric_loop L f subs v m ors = Some r \<and>
    (case r of
       Inl e \<Rightarrow> e = Boolean False \<and>
         (\<forall>E. ports_inj E \<longrightarrow> \<not> (num_sem E symbol v m ors \<and> (\<forall>sub \<in> set subs. sem E sub)))
     | Inr (v', m', ors') \<Rightarrow> num_ok symbol v' m' ors' \<and> length ors' \<le> length ors + length subs \<and>
         (m' = 0 \<longrightarrow> ors' = [] \<longrightarrow> subs = [] \<and> ors = [] \<and> m = 0) \<and>
         (\<forall>E. ports_inj E \<longrightarrow>
            num_sem E symbol v' m' ors' = (num_sem E symbol v m ors \<and> (\<forall>sub \<in> set subs. sem E sub))))"
  using assms(2,3)
proof (induction subs arbitrary: v m ors)
  case Nil
  then show ?case by simp
next
  case (Cons sub subs)
  from Cons.prems(1) obtain new where new: "f sub = Some new" "crushed symbol new"
      "\<And>E. ports_inj E \<Longrightarrow> sem E new = sem E sub"
    by (auto elim: crushesE)
  from new(2) show ?case
  proof (cases rule: crushed_cases)
    case (cmp as c)
    then have c: "ok_mask symbol (cmp_value c) (cmp_mask c)" "cmp_mask c \<noteq> 0"
      using w by (auto simp: good_cmp_numeric)
    have sem_c: "sem E sub \<longleftrightarrow> env_sym E symbol AND cmp_mask c = cmp_value c" if "ports_inj E" for E
      using new(3) [OF that] cmp sem_good_cmp [OF cmp(2) w] by simp
    have v: "ok_mask symbol v m" using Cons.prems(2) by (simp add: num_ok_def)
    show ?thesis
    proof (cases "mf_subvalue_intersect L v m (cmp_value c) (cmp_mask c)")
      case None
      then show ?thesis
        using new(1) cmp sem_c intersect_None [OF None v c(1)] by (auto simp: num_sem_def)
    next
      case (Some vm)
      obtain v' m' where vm: "vm = (v', m')" by (cases vm)
      note I = intersect_Some [OF Some [unfolded vm] v c(1)]
      have "num_ok symbol v' m' ors" using Cons.prems(2) I(1) by (simp add: num_ok_def)
      moreover have "num_sem E symbol v' m' ors \<longleftrightarrow> num_sem E symbol v m ors \<and> sem E sub" if "ports_inj E" for E
        using I(2) sem_c [OF that] by (auto simp: num_sem_def)
      moreover have "m' \<noteq> 0" using I(3) c(2) by simp
      ultimately show ?thesis
        using Cons.IH [of v' m' ors] Cons.prems(1) new(1) cmp Some vm
        by (fastforce split: sum.splits)
    qed
  next
    case (disj ds)
    then have "num_ok symbol v m (ors @ [ds])" using Cons.prems(2) by (auto simp: num_ok_def)
    moreover have "num_sem E symbol v m (ors @ [ds]) \<longleftrightarrow> num_sem E symbol v m ors \<and> sem E sub" if "ports_inj E" for E
      using new(3) [OF that] disj by (auto simp: num_sem_def)
    ultimately show ?thesis
      using Cons.IH [of v m "ors @ [ds]"] Cons.prems(1) new(1) disj
      by (fastforce split: sum.splits)
  next
    case false
    then show ?thesis using new by auto
  qed
qed


lemma distribute_ok:
  assumes w: "sym_width symbol > 0" and v: "ok_mask symbol v m" and "\<forall>d \<in> set ds. good_leaf symbol d"
  shows "\<exists>es. distribute L v m ds = Some es \<and> (\<forall>e \<in> set es. good_leaf symbol e) \<and>
    (\<forall>E. (\<exists>e \<in> set es. sem E e) \<longleftrightarrow> env_sym E symbol AND m = v \<and> (\<exists>d \<in> set ds. sem E d))"
  using assms(3)
proof (induction ds)
  case Nil
  then show ?case by simp
next
  case (Cons d ds)
  obtain as c where d: "d = Cmp as c" "good_cmp symbol c" using Cons.prems by (auto elim: good_leafE)
  then have c: "ok_mask symbol (cmp_value c) (cmp_mask c)" "cmp_mask c \<noteq> 0"
    using w by (auto simp: good_cmp_numeric)
  note sem_c = sem_good_cmp [OF d(2) w]
  obtain es where es: "distribute L v m ds = Some es" "\<forall>e \<in> set es. good_leaf symbol e"
      "\<And>E. (\<exists>e \<in> set es. sem E e) \<longleftrightarrow> env_sym E symbol AND m = v \<and> (\<exists>d \<in> set ds. sem E d)"
    using Cons by auto
  show ?case
  proof (cases "mf_subvalue_intersect L v m (cmp_value c) (cmp_mask c)")
    case None
    then show ?thesis using intersect_None [OF None v c(1)] es d sem_c by auto
  next
    case (Some vm)
    obtain v' m' where vm: "vm = (v', m')" by (cases vm)
    note I = intersect_Some [OF Some [unfolded vm] v c(1)]
    let ?c = "c\<lparr>cmp_value := v', cmp_mask := m'\<rparr>"
    have "good_cmp symbol ?c" using d(2) I c(2) w by (simp add: good_cmp_numeric)
    moreover have "sem_cmp E ?c \<longleftrightarrow> env_sym E symbol AND m = v \<and> sem_cmp E c" for E
      using sem_good_cmp [OF calculation w] I(2) sem_c by simp
    ultimately show ?thesis using Some vm d es by auto
  qed
qed

lemma cross_inner_ok:
  assumes w: "sym_width symbol > 0" and v: "ok_mask symbol v m" and "\<forall>d \<in> set ds. good_leaf symbol d"
  shows "\<exists>es. cross_inner L symbol v m ds = Some es \<and> (\<forall>e \<in> set es. good_leaf symbol e) \<and>
    (\<forall>E. (\<exists>e \<in> set es. sem E e) \<longleftrightarrow> env_sym E symbol AND m = v \<and> (\<exists>d \<in> set ds. sem E d))"
  using assms(3)
proof (induction ds)
  case Nil
  then show ?case by simp
next
  case (Cons d ds)
  obtain as c where d: "d = Cmp as c" "good_cmp symbol c" using Cons.prems by (auto elim: good_leafE)
  then have c: "ok_mask symbol (cmp_value c) (cmp_mask c)" "cmp_mask c \<noteq> 0"
    using w by (auto simp: good_cmp_numeric)
  note sem_c = sem_good_cmp [OF d(2) w]
  obtain es where es: "cross_inner L symbol v m ds = Some es" "\<forall>e \<in> set es. good_leaf symbol e"
      "\<And>E. (\<exists>e \<in> set es. sem E e) \<longleftrightarrow> env_sym E symbol AND m = v \<and> (\<exists>d \<in> set ds. sem E d)"
    using Cons by auto
  show ?case
  proof (cases "mf_subvalue_intersect L v m (cmp_value c) (cmp_mask c)")
    case None
    then show ?thesis using intersect_None [OF None v c(1)] es d sem_c by auto
  next
    case (Some vm)
    obtain v' m' where vm: "vm = (v', m')" by (cases vm)
    note I = intersect_Some [OF Some [unfolded vm] v c(1)]
    have "good_leaf symbol (numeric_cmp symbol v' m')" using I c(2) w by (intro good_numeric_cmp) auto
    then show ?thesis using Some vm d es I(2) sem_c w by (auto simp: sem_numeric_cmp)
  qed
qed

lemma cross_product_ok:
  assumes w: "sym_width symbol > 0" and v: "ok_mask symbol v m"
    and "\<forall>d \<in> set as. good_leaf symbol d" and bs: "\<forall>d \<in> set bs. good_leaf symbol d"
  shows "\<exists>es. cross_product L symbol v m as bs = Some es \<and> (\<forall>e \<in> set es. good_leaf symbol e) \<and>
    (\<forall>E. (\<exists>e \<in> set es. sem E e) \<longleftrightarrow>
       env_sym E symbol AND m = v \<and> (\<exists>d \<in> set as. sem E d) \<and> (\<exists>d \<in> set bs. sem E d))"
  using assms(3)
proof (induction as)
  case Nil
  then show ?case by simp
next
  case (Cons d ds)
  obtain as c where d: "d = Cmp as c" "good_cmp symbol c" using Cons.prems by (auto elim: good_leafE)
  then have c: "ok_mask symbol (cmp_value c) (cmp_mask c)" using w by (auto simp: good_cmp_numeric)
  note sem_c = sem_good_cmp [OF d(2) w]
  obtain es where es: "cross_product L symbol v m ds bs = Some es" "\<forall>e \<in> set es. good_leaf symbol e"
      "\<And>E. (\<exists>e \<in> set es. sem E e) \<longleftrightarrow>
         env_sym E symbol AND m = v \<and> (\<exists>d \<in> set ds. sem E d) \<and> (\<exists>d \<in> set bs. sem E d)"
    using Cons by auto
  show ?case
  proof (cases "mf_subvalue_intersect L v m (cmp_value c) (cmp_mask c)")
    case None
    then show ?thesis using intersect_None [OF None v c] es d sem_c by auto
  next
    case (Some vm)
    obtain v' m' where vm: "vm = (v', m')" by (cases vm)
    note I = intersect_Some [OF Some [unfolded vm] v c]
    obtain row where row: "cross_inner L symbol v' m' bs = Some row" "\<forall>e \<in> set row. good_leaf symbol e"
        "\<And>E. (\<exists>e \<in> set row. sem E e) \<longleftrightarrow> env_sym E symbol AND m' = v' \<and> (\<exists>d \<in> set bs. sem E d)"
      using cross_inner_ok [OF w I(1) bs] by auto
    have "(\<exists>e \<in> set (row @ es). sem E e) \<longleftrightarrow>
        env_sym E symbol AND m = v \<and> (\<exists>d \<in> set (d # ds). sem E d) \<and> (\<exists>d \<in> set bs. sem E d)" for E
      using row(3) [of E] es(3) [of E] I(2) sem_c [of E] d(1) by (simp add: bex_Un) blast
    then show ?thesis using Some vm d es(1,2) row(1,2) by auto
  qed
qed

lemma crush_numeric_loop_cases:
  assumes w: "sym_width symbol > 0" and subs: "\<forall>sub \<in> set es. crushes f symbol sub" and "es \<noteq> []"
  obtains (stop) "crush_numeric_loop L f es 0 0 [] = Some (Inl (Boolean False))"
      "\<And>E. ports_inj E \<Longrightarrow> \<not> sem E (Andor J_AND es)"
  | (run) v m ors where "crush_numeric_loop L f es 0 0 [] = Some (Inr (v, m, ors))"
      "ok_mask symbol v m" "\<forall>ds \<in> set ors. flat symbol ds" "length ors \<le> length es" "ors = [] \<Longrightarrow> m \<noteq> 0"
      "\<And>E. ports_inj E \<Longrightarrow> num_sem E symbol v m ors = sem E (Andor J_AND es)"
proof -
  have init: "num_ok symbol 0 0 []" "num_sem E symbol 0 0 []" for E
    by (simp_all add: num_ok_def num_sem_def)
  obtain r where r: "crush_numeric_loop L f es 0 0 [] = Some r"
    using crush_numeric_loop_ok [OF w subs init(1)] by auto
  show thesis
  proof (cases r)
    case (Inl e)
    then show thesis using crush_numeric_loop_ok [OF w subs init(1)] r init(2) stop by auto
  next
    case (Inr vmo)
    then obtain v m ors where "r = Inr (v, m, ors)" by (cases vmo) auto
    then show thesis
      using crush_numeric_loop_ok [OF w subs init(1)] r init(2) assms(3) run [of v m ors]
      by (auto simp: num_ok_def)
  qed
qed

lemma crush_distributed:
  assumes good: "\<forall>e \<in> set subs. good_leaf symbol e"
    and disj: "\<And>ds. flat symbol ds \<Longrightarrow> crushes f symbol (Andor J_OR ds)"
    and sem_eq: "\<And>E. ports_inj E \<Longrightarrow> (\<exists>e \<in> set subs. sem E e) = sem E e0"
  shows "crush_result symbol e0
    (case subs of [] \<Rightarrow> Some (Boolean False) | [cmp] \<Rightarrow> Some cmp | _ \<Rightarrow> f (Andor J_OR subs))"
proof (cases subs rule: list_cases3)
  case 1
  then show ?thesis using sem_eq by simp
next
  case (2 e)
  then show ?thesis using sem_eq good by (auto elim!: good_leafE)
next
  case (3 x y ys)
  then have "crushes f symbol (Andor J_OR subs)" using good by (intro disj) (simp add: flat_def)
  then have "crush_result symbol e0 (f (Andor J_OR subs))"
    unfolding crushes_result by (rule crush_result_cong) (use sem_eq in simp)
  then show ?thesis using 3 by simp
qed

lemma crush_crossed:
  assumes good: "\<forall>e \<in> set subs. good_leaf symbol e" and rest: "\<forall>ds \<in> set rest. flat symbol ds"
    and cmp: "\<And>e. good_leaf symbol e \<Longrightarrow> crushes f symbol e"
    and disj: "\<And>ds. flat symbol ds \<Longrightarrow> crushes f symbol (Andor J_OR ds)"
    and conj: "\<And>e. crushed symbol e \<Longrightarrow> rest \<noteq> [] \<Longrightarrow> crushes f symbol (Andor J_AND (e # map (Andor J_OR) rest))"
    and sem_eq: "\<And>E. ports_inj E \<Longrightarrow>
      ((\<exists>e \<in> set subs. sem E e) \<and> (\<forall>ds \<in> set rest. \<exists>d \<in> set ds. sem E d)) = sem E e0"
  shows "crush_result symbol e0
    (case subs of
       [] \<Rightarrow> Some (Boolean False)
     | [cmp] \<Rightarrow> if rest = [] then f cmp else f (Andor J_AND (cmp # map (Andor J_OR) rest))
     | _ \<Rightarrow> if rest \<noteq> [] then f (Andor J_AND (Andor J_OR subs # map (Andor J_OR) rest)) else f (Andor J_OR subs))"
proof -
  have via: "crush_result symbol e0 (f e)"
    if "crushes f symbol e" "\<And>E. sem E e = ((\<exists>e \<in> set subs. sem E e) \<and> (\<forall>ds \<in> set rest. \<exists>d \<in> set ds. sem E d))" for e
    using crush_result_cong [of symbol e "f e" e0] that sem_eq by (simp add: crushes_result)
  show ?thesis
  proof (cases subs rule: list_cases3)
    case 1
    then show ?thesis using sem_eq by simp
  next
    case (2 e)
    then have e: "good_leaf symbol e" "crushed symbol e" using good by (auto elim!: good_leafE)
    show ?thesis
      using 2 via [OF cmp [OF e(1)]] via [OF conj [OF e(2)]] by (cases "rest = []") simp_all
  next
    case (3 x y ys)
    then have flat: "flat symbol subs" using good by (simp add: flat_def)
    then have "crushed symbol (Andor J_OR subs)" by simp
    then show ?thesis
      using 3 via [OF disj [OF flat]] via [OF conj] by (cases "rest = []") simp_all
  qed
qed

lemma crush_and_numeric_ok:
  assumes w: "sym_width symbol > 0" and len: "2 \<le> length es"
    and subs: "\<forall>sub \<in> set es. crushes f symbol sub"
    and cmp: "\<And>e. good_leaf symbol e \<Longrightarrow> crushes f symbol e"
    and disj: "\<And>ds. flat symbol ds \<Longrightarrow> crushes f symbol (Andor J_OR ds)"
    and conj: "\<And>e ors. crushed symbol e \<Longrightarrow> ors \<noteq> [] \<Longrightarrow> \<forall>ds \<in> set ors. flat symbol ds \<Longrightarrow>
      Suc (length ors) < length es \<Longrightarrow> crushes f symbol (Andor J_AND (e # map (Andor J_OR) ors))"
  shows "crush_result symbol (Andor J_AND es) (crush_and_numeric L f es symbol)"
proof -
  have ne: "es \<noteq> []" using len by auto
  show ?thesis
  proof (cases rule: crush_numeric_loop_cases [OF w subs ne, case_names stop run])
    case stop
    then show ?thesis using len by (simp add: crush_and_numeric_def)
  next
    case (run v m ors)
    show ?thesis
    proof (cases ors rule: list_cases3)
      case 1
      have "sem E (numeric_cmp symbol v m) = sem E (Andor J_AND es)" if "ports_inj E" for E
        using run(6) [OF that] 1 w by (simp add: num_sem_def sem_numeric_cmp)
      moreover have "crushed symbol (numeric_cmp symbol v m)"
        using good_numeric_cmp [OF w run(2) run(5) [OF 1]] by (simp add: numeric_cmp_def)
      ultimately show ?thesis using 1 run(1) run(5) [OF 1] len by (simp add: crush_and_numeric_def all_zeros)
    next
      case (2 ds)
      obtain subs where subs: "distribute L v m ds = Some subs" "\<forall>e \<in> set subs. good_leaf symbol e"
          "\<And>E. (\<exists>e \<in> set subs. sem E e) \<longleftrightarrow> env_sym E symbol AND m = v \<and> (\<exists>d \<in> set ds. sem E d)"
        using distribute_ok [OF w run(2), of ds] run(3) 2 by (auto simp: flat_def)
      have "(\<exists>e \<in> set subs. sem E e) = sem E (Andor J_AND es)" if "ports_inj E" for E
        using subs(3) run(6) [OF that] 2 by (simp add: num_sem_def)
      from crush_distributed [OF subs(2) disj this] show ?thesis
        using run(1) 2 len subs(1) by (simp add: crush_and_numeric_def)
    next
      case (3 as bs rest)
      obtain subs where subs: "cross_product L symbol v m as bs = Some subs" "\<forall>e \<in> set subs. good_leaf symbol e"
          "\<And>E. (\<exists>e \<in> set subs. sem E e) \<longleftrightarrow>
             env_sym E symbol AND m = v \<and> (\<exists>d \<in> set as. sem E d) \<and> (\<exists>d \<in> set bs. sem E d)"
        using cross_product_ok [OF w run(2), of as bs] run(3) 3 by (auto simp: flat_def)
      have rest: "\<forall>ds \<in> set rest. flat symbol ds" "Suc (length rest) < length es" using run(3,4) 3 by auto
      have "((\<exists>e \<in> set subs. sem E e) \<and> (\<forall>ds \<in> set rest. \<exists>d \<in> set ds. sem E d)) = sem E (Andor J_AND es)"
        if "ports_inj E" for E
        using subs(3) [of E] run(6) [OF that] 3 by (auto simp: num_sem_def)
      from crush_crossed [OF subs(2) rest(1) cmp disj conj [OF _ _ rest] this] show ?thesis
        using run(1) 3 len subs(1) by (simp add: crush_and_numeric_def)
    qed
  qed
qed

end

lemma sem_good_string:
  "good_cmp symbol c \<Longrightarrow> sym_width symbol = 0 \<Longrightarrow>
     sem_cmp E c \<longleftrightarrow> env_port E (cmp_string c) = Some (env_sym E symbol)"
  by (auto simp: good_cmp_def sem_cmp_def split: option.splits)

lemma good_string_cmp: "sym_width symbol = 0 \<Longrightarrow> good_leaf symbol (string_cmp symbol s)"
  by (simp add: string_cmp_def good_cmp_def simple_cmp_def)

lemma sem_string_cmp:
  "sym_width symbol = 0 \<Longrightarrow> sem E (string_cmp symbol s) \<longleftrightarrow> env_port E s = Some (env_sym E symbol)"
  by (auto simp: string_cmp_def sem_cmp_def split: option.splits)

lemma flat_cmps:
  assumes "flat symbol ds"
  obtains cs where "mapM cmp_of ds = Some cs" "\<forall>c \<in> set cs. good_cmp symbol c"
    "\<And>E. (\<exists>d \<in> set ds. sem E d) \<longleftrightarrow> (\<exists>c \<in> set cs. sem_cmp E c)" "length cs = length ds"
proof -
  have "\<exists>cs. mapM cmp_of ds = Some cs \<and> (\<forall>c \<in> set cs. good_cmp symbol c) \<and>
      (\<forall>E. (\<exists>d \<in> set ds. sem E d) \<longleftrightarrow> (\<exists>c \<in> set cs. sem_cmp E c)) \<and> length cs = length ds"
    if "\<forall>e \<in> set ds. good_leaf symbol e"
    using that by (induction ds) (auto elim!: good_leafE)
  then show thesis using that assms by (auto simp: flat_def)
qed

text \<open>Under distinct port numbers at most one name matches.\<close>

lemma string_match_unique:
  assumes "ports_inj E" "env_port E a = Some p" "\<forall>c \<in> set cs. good_cmp symbol c" "sym_width symbol = 0"
    "p = env_sym E symbol"
  shows "(\<exists>c \<in> set cs. sem_cmp E c) \<longleftrightarrow> a \<in> cmp_string ` set cs"
proof -
  have "sem_cmp E c \<longleftrightarrow> cmp_string c = a" if "c \<in> set cs" for c
    using assms that by (auto simp: sem_good_string [of symbol] ports_inj_def)
  then show ?thesis by auto
qed

lemma crushed_fix_or:
  assumes "\<forall>e \<in> set es. good_leaf symbol e \<or> e = Boolean False"
  shows "crushed symbol (expr_fix (Andor J_OR es))"
proof -
  obtain es' where es': "fix_andor_scan True es = Some es'"
    using assms fix_andor_scan_None [of True es] by fastforce
  then have "\<forall>e \<in> set es'. good_leaf symbol e"
    using assms fix_andor_scan_Some [OF es'] by auto
  then show ?thesis
    using es' by (auto simp: expr_fix_andor_def flat_def elim!: good_leafE split: list.splits)
qed

fun single_sem :: "env \<Rightarrow> (string option \<times> expr_cmp) option \<Rightarrow> bool" where
  "single_sem E None \<longleftrightarrow> True"
| "single_sem E (Some (as, c)) \<longleftrightarrow> sem_cmp E c"

fun single_ok :: "expr_symbol \<Rightarrow> (string option \<times> expr_cmp) option \<Rightarrow> bool" where
  "single_ok symbol None \<longleftrightarrow> True"
| "single_ok symbol (Some (as, c)) \<longleftrightarrow> good_cmp symbol c"

definition str_sem :: "env \<Rightarrow> (string option \<times> expr_cmp) option \<Rightarrow> expr list list \<Rightarrow> bool" where
  "str_sem E single ors \<longleftrightarrow> single_sem E single \<and> (\<forall>ds \<in> set ors. \<exists>d \<in> set ds. sem E d)"

lemma crush_string_loop_ok:
  assumes w: "sym_width symbol = 0" and "\<forall>sub \<in> set subs. crushes f symbol sub"
    and "single_ok symbol single" "\<forall>ds \<in> set ors. flat symbol ds"
  shows "\<exists>r. crush_string_loop f subs single ors = Some r \<and>
    (case r of
       Inl e \<Rightarrow> e = Boolean False \<and>
         (\<forall>E. ports_inj E \<longrightarrow> \<not> (str_sem E single ors \<and> (\<forall>sub \<in> set subs. sem E sub)))
     | Inr (single', ors') \<Rightarrow> single_ok symbol single' \<and> (\<forall>ds \<in> set ors'. flat symbol ds) \<and>
         (single' = None \<longrightarrow> ors' = [] \<longrightarrow> subs = [] \<and> ors = []) \<and>
         (\<forall>E. ports_inj E \<longrightarrow> str_sem E single' ors' = (str_sem E single ors \<and> (\<forall>sub \<in> set subs. sem E sub))))"
  using assms(2-)
proof (induction subs arbitrary: single ors)
  case Nil
  then show ?case by simp
next
  case (Cons sub subs)
  from Cons.prems(1) obtain new where new: "f sub = Some new" "crushed symbol new"
      "\<And>E. ports_inj E \<Longrightarrow> sem E new = sem E sub"
    by (auto elim: crushesE)
  from new(2) show ?case
  proof (cases rule: crushed_cases)
    case (cmp as c)
    have sem_c: "sem E sub \<longleftrightarrow> sem_cmp E c" if "ports_inj E" for E
      using new(3) [OF that] cmp by simp
    show ?thesis
    proof (cases single)
      case None
      have "str_sem E (Some (as, c)) ors \<longleftrightarrow> str_sem E single ors \<and> sem E sub" if "ports_inj E" for E
        using sem_c [OF that] None by (auto simp: str_sem_def)
      then show ?thesis
        using Cons.IH [of "Some (as, c)" ors] Cons.prems new(1) cmp None
        by (fastforce split: sum.splits)
    next
      case (Some sc)
      obtain sas s where sc: "sc = (sas, s)" by (cases sc)
      have s: "good_cmp symbol s" using Cons.prems(2) Some sc by simp
      have both: "sem_cmp E s \<and> sem_cmp E c \<longleftrightarrow> sem_cmp E s \<and> cmp_string c = cmp_string s" if "ports_inj E" for E
        using that cmp(2) s w by (auto simp: sem_good_string ports_inj_def)
      have state: "str_sem E single ors \<and> sem E sub \<longleftrightarrow> str_sem E single ors \<and> cmp_string c = cmp_string s"
        if "ports_inj E" for E
        using both [OF that] sem_c [OF that] Some sc by (auto simp: str_sem_def)
      show ?thesis
      proof (cases "cmp_string c = cmp_string s")
        case True
        then show ?thesis
          using Cons.IH [of single ors] Cons.prems new(1) cmp Some sc state
          by (fastforce split: sum.splits)
      next
        case False
        then show ?thesis using new(1) cmp Some sc state by auto
      qed
    qed
  next
    case (disj ds)
    have "str_sem E single (ors @ [ds]) \<longleftrightarrow> str_sem E single ors \<and> sem E sub" if "ports_inj E" for E
      using new(3) [OF that] disj by (auto simp: str_sem_def)
    then show ?thesis
      using Cons.IH [of single "ors @ [ds]"] Cons.prems new(1) disj
      by (fastforce split: sum.splits)
  next
    case false
    then show ?thesis using new by auto
  qed
qed

lemma singleton_allowed_ok:
  assumes "\<forall>ds \<in> set ors. flat symbol ds" "sym_width symbol = 0"
  shows "\<exists>b. singleton_allowed ors s = Some b \<and>
    (\<forall>E. ports_inj E \<longrightarrow> env_port E s = Some (env_sym E symbol) \<longrightarrow>
       b = (\<forall>ds \<in> set ors. \<exists>d \<in> set ds. sem E d))"
  using assms(1)
proof (induction ors)
  case Nil
  show ?case by (intro exI [of _ True]) simp
next
  case (Cons ds ors)
  obtain cs where cs: "mapM cmp_of ds = Some cs" "\<forall>c \<in> set cs. good_cmp symbol c"
      "\<And>E. (\<exists>d \<in> set ds. sem E d) \<longleftrightarrow> (\<exists>c \<in> set cs. sem_cmp E c)" "length cs = length ds"
    by (rule flat_cmps [of symbol ds]) (use Cons.prems in auto)
  have "disjunction_matches_string ds s = Some (s \<in> cmp_string ` set cs)"
    by (auto simp: disjunction_matches_string_def cs(1) list_ex_iff)
  moreover have "(\<exists>d \<in> set ds. sem E d) \<longleftrightarrow> s \<in> cmp_string ` set cs"
    if "ports_inj E" "env_port E s = Some (env_sym E symbol)" for E
    using string_match_unique [OF that cs(2) assms(2) refl] cs(3) by simp
  ultimately show ?case using Cons by (cases "s \<in> cmp_string ` set cs") auto
qed

lemma set_foldl_sset_add: "set (foldl sset_add xs ys) = set xs \<union> set ys"
  by (induction ys arbitrary: xs) (auto simp: sset_add_def)

lemma intersect_strings_step:
  assumes "\<forall>ds \<in> set ors. flat symbol ds" "sym_width symbol = 0" "result \<noteq> []"
  shows "\<exists>r. intersect_strings result ors = Some r \<and>
    (case r of None \<Rightarrow> \<forall>E. ports_inj E \<longrightarrow>
         \<not> ((\<exists>s \<in> set result. env_port E s = Some (env_sym E symbol)) \<and> (\<forall>ds \<in> set ors. \<exists>d \<in> set ds. sem E d))
     | Some strings \<Rightarrow> strings \<noteq> [] \<and>
         (\<forall>E. ports_inj E \<longrightarrow> (\<exists>s \<in> set strings. env_port E s = Some (env_sym E symbol)) =
            ((\<exists>s \<in> set result. env_port E s = Some (env_sym E symbol)) \<and> (\<forall>ds \<in> set ors. \<exists>d \<in> set ds. sem E d))))"
  using assms(1,3)
proof (induction ors arbitrary: result)
  case Nil
  then show ?case by simp
next
  case (Cons ds ors)
  obtain cs where cs: "mapM cmp_of ds = Some cs" "\<forall>c \<in> set cs. good_cmp symbol c"
      "\<And>E. (\<exists>d \<in> set ds. sem E d) \<longleftrightarrow> (\<exists>c \<in> set cs. sem_cmp E c)" "length cs = length ds"
    by (rule flat_cmps [of symbol ds]) (use Cons.prems in auto)
  define R where "R = filter (\<lambda>s. s \<in> cmp_string ` set cs) result"
  have run: "intersect_strings result (ds # ors) = (if R = [] then Some None else intersect_strings R ors)"
    using Cons.prems(2) by (simp add: cs(1) set_foldl_sset_add flip: R_def)
  have sem_r: "(\<exists>s \<in> set R. env_port E s = Some (env_sym E symbol)) \<longleftrightarrow>
      (\<exists>s \<in> set result. env_port E s = Some (env_sym E symbol)) \<and> (\<exists>d \<in> set ds. sem E d)" if "ports_inj E" for E
  proof -
    have "(\<exists>d \<in> set ds. sem E d) \<longleftrightarrow> s \<in> cmp_string ` set cs" if "env_port E s = Some (env_sym E symbol)" for s
      using string_match_unique [OF \<open>ports_inj E\<close> that cs(2) assms(2) refl] cs(3) by simp
    then show ?thesis unfolding R_def set_filter by blast
  qed
  show ?case
  proof (cases "R = []")
    case True
    then show ?thesis using run sem_r by (auto simp del: intersect_strings.simps)
  next
    case False
    from Cons.IH [OF _ this] Cons.prems(1) obtain r where r: "intersect_strings R ors = Some r"
      and spec: "case r of None \<Rightarrow> \<forall>E. ports_inj E \<longrightarrow>
         \<not> ((\<exists>s \<in> set R. env_port E s = Some (env_sym E symbol)) \<and> (\<forall>ds \<in> set ors. \<exists>d \<in> set ds. sem E d))
       | Some strings \<Rightarrow> strings \<noteq> [] \<and>
         (\<forall>E. ports_inj E \<longrightarrow> (\<exists>s \<in> set strings. env_port E s = Some (env_sym E symbol)) =
            ((\<exists>s \<in> set R. env_port E s = Some (env_sym E symbol)) \<and> (\<forall>ds \<in> set ors. \<exists>d \<in> set ds. sem E d)))"
      by auto
    show ?thesis using spec sem_r run r False by (cases r) (auto simp del: intersect_strings.simps)
  qed
qed

lemma intersect_strings_ok:
  assumes "\<forall>ds \<in> set ors. flat symbol ds" "sym_width symbol = 0" "ors \<noteq> []"
  shows "\<exists>r. intersect_strings [] ors = Some r \<and>
    (case r of None \<Rightarrow> \<forall>E. ports_inj E \<longrightarrow> \<not> (\<forall>ds \<in> set ors. \<exists>d \<in> set ds. sem E d)
     | Some strings \<Rightarrow> strings \<noteq> [] \<and>
         (\<forall>E. ports_inj E \<longrightarrow> (\<exists>s \<in> set strings. env_port E s = Some (env_sym E symbol)) =
            (\<forall>ds \<in> set ors. \<exists>d \<in> set ds. sem E d)))"
proof -
  obtain ds rest where ors: "ors = ds # rest" using assms(3) by (cases ors) auto
  obtain cs where cs: "mapM cmp_of ds = Some cs" "\<forall>c \<in> set cs. good_cmp symbol c"
      "\<And>E. (\<exists>d \<in> set ds. sem E d) \<longleftrightarrow> (\<exists>c \<in> set cs. sem_cmp E c)" "length cs = length ds"
    by (rule flat_cmps [of symbol ds]) (use assms(1) ors in auto)
  let ?r = "foldl sset_add [] (map cmp_string cs)"
  have set_r: "set ?r = cmp_string ` set cs" by (simp add: set_foldl_sset_add)
  then have ne: "?r \<noteq> []" using cs(4) assms(1) ors by (auto simp: flat_def)
  then have run: "intersect_strings [] ors = intersect_strings ?r rest" by (simp add: ors cs(1))
  have sem_r: "(\<exists>s \<in> set ?r. env_port E s = Some (env_sym E symbol)) \<longleftrightarrow> (\<exists>d \<in> set ds. sem E d)" for E
  proof -
    have "sem_cmp E c \<longleftrightarrow> env_port E (cmp_string c) = Some (env_sym E symbol)" if "c \<in> set cs" for c
      using cs(2) assms(2) that by (simp add: sem_good_string)
    then show ?thesis unfolding set_r cs(3) by auto
  qed
  have "\<forall>ds \<in> set rest. flat symbol ds" using assms(1) ors by simp
  from intersect_strings_step [OF this assms(2) ne]
  obtain r where r: "intersect_strings [] ors = Some r" and spec: "case r of None \<Rightarrow> \<forall>E. ports_inj E \<longrightarrow>
         \<not> ((\<exists>s \<in> set ?r. env_port E s = Some (env_sym E symbol)) \<and> (\<forall>ds \<in> set rest. \<exists>d \<in> set ds. sem E d))
     | Some strings \<Rightarrow> strings \<noteq> [] \<and>
         (\<forall>E. ports_inj E \<longrightarrow> (\<exists>s \<in> set strings. env_port E s = Some (env_sym E symbol)) =
            ((\<exists>s \<in> set ?r. env_port E s = Some (env_sym E symbol)) \<and> (\<forall>ds \<in> set rest. \<exists>d \<in> set ds. sem E d)))"
    unfolding run by blast
  show ?thesis using spec r unfolding sem_r by (cases r) (auto simp: ors simp del: intersect_strings.simps)
qed

context ovs_bits_api
begin

lemma crush_and_string_ok:
  assumes w: "sym_width symbol = 0" and len: "2 \<le> length es"
    and subs: "\<forall>sub \<in> set es. crushes f symbol sub"
  shows "crush_result symbol (Andor J_AND es) (crush_and_string L f es symbol)"
proof -
  have init: "str_sem E None []" for E by (simp add: str_sem_def)
  obtain r where r: "crush_string_loop f es None [] = Some r" and spec: "case r of
       Inl e \<Rightarrow> e = Boolean False \<and> (\<forall>E. ports_inj E \<longrightarrow> \<not> sem E (Andor J_AND es))
     | Inr (single', ors') \<Rightarrow> single_ok symbol single' \<and> (\<forall>ds \<in> set ors'. flat symbol ds) \<and>
         (single' = None \<longrightarrow> ors' \<noteq> []) \<and> (\<forall>E. ports_inj E \<longrightarrow> str_sem E single' ors' = sem E (Andor J_AND es))"
  proof -
    obtain r where r: "crush_string_loop f es None [] = Some r"
      using crush_string_loop_ok [OF w subs, of None "[]"] by auto
    have "es \<noteq> []" using len by auto
    then show thesis
      using crush_string_loop_ok [OF w subs, of None "[]"] init r that [OF r] by (cases r) auto
  qed
  show ?thesis
  proof (cases r)
    case (Inl e)
    then show ?thesis using r spec len by (simp add: crush_and_string_def)
  next
    case (Inr p)
    obtain single ors where p: "p = (single, ors)" by (cases p)
    have S: "single_ok symbol single" "\<forall>ds \<in> set ors. flat symbol ds" "single = None \<Longrightarrow> ors \<noteq> []"
        "\<And>E. ports_inj E \<Longrightarrow> str_sem E single ors = sem E (Andor J_AND es)"
      using spec Inr p by auto
    show ?thesis
    proof (cases single)
      case (Some sc)
      obtain as c where sc: "sc = (as, c)" by (cases sc)
      then have c: "good_cmp symbol c" using S(1) Some by simp
      obtain b where b: "singleton_allowed ors (cmp_string c) = Some b"
          "\<And>E. ports_inj E \<Longrightarrow> env_port E (cmp_string c) = Some (env_sym E symbol) \<Longrightarrow>
             b = (\<forall>ds \<in> set ors. \<exists>d \<in> set ds. sem E d)"
        using singleton_allowed_ok [OF S(2) w] by blast
      have "sem E (Andor J_AND es) \<longleftrightarrow> sem_cmp E c \<and> b" if "ports_inj E" for E
        using S(4) [OF that] b(2) [OF that] Some sc sem_good_string [OF c w, of E] by (auto simp: str_sem_def)
      then show ?thesis using r Inr p Some sc len b(1) c by (simp add: crush_and_string_def)
    next
      case None
      obtain res where res: "intersect_strings [] ors = Some res" and spec': "case res of
           None \<Rightarrow> \<forall>E. ports_inj E \<longrightarrow> \<not> (\<forall>ds \<in> set ors. \<exists>d \<in> set ds. sem E d)
         | Some strings \<Rightarrow> strings \<noteq> [] \<and>
           (\<forall>E. ports_inj E \<longrightarrow> (\<exists>s \<in> set strings. env_port E s = Some (env_sym E symbol)) =
              (\<forall>ds \<in> set ors. \<exists>d \<in> set ds. sem E d))"
        using intersect_strings_ok [OF S(2) w S(3) [OF None]] by blast
      have sem_es: "sem E (Andor J_AND es) \<longleftrightarrow> (\<forall>ds \<in> set ors. \<exists>d \<in> set ds. sem E d)" if "ports_inj E" for E
        using S(4) [OF that] None by (simp add: str_sem_def)
      show ?thesis
      proof (cases res)
        case None
        then show ?thesis using r Inr p \<open>single = None\<close> len res spec' sem_es by (simp add: crush_and_string_def)
      next
        case (Some strings)
        let ?e = "Andor J_OR (map (string_cmp symbol) (sset_order L strings))"
        have "crushed symbol (expr_fix ?e)" using w by (intro crushed_fix_or) (auto simp: good_string_cmp)
        moreover have "sem E (expr_fix ?e) = sem E (Andor J_AND es)" if "ports_inj E" for E
          unfolding sem_fix using spec' Some sem_es [OF that] that w by (simp add: sset_order_set sem_string_cmp)
        ultimately show ?thesis
          using r Inr p \<open>single = None\<close> len res Some by (simp add: crush_and_string_def)
      qed
    qed
  qed
qed

lemma crush_or_ok:
  assumes subs: "\<forall>sub \<in> set es. crushes f symbol sub" 
  shows "crush_result symbol (Andor J_OR es) (crush_or L f es symbol)"
proof -
  obtain subs where subs: "mapM f es = Some subs" "\<forall>e \<in> set subs. crushed symbol e"
      "\<And>E. ports_inj E \<Longrightarrow> sem_list E J_OR subs = sem_list E J_OR es"
  proof -
    have "\<exists>subs. mapM f es = Some subs \<and> (\<forall>e \<in> set subs. crushed symbol e) \<and>
        (\<forall>E. ports_inj E \<longrightarrow> sem_list E J_OR subs = sem_list E J_OR es)"
      using assms by (induction es) (auto elim!: crushesE)
    then show thesis using that by blast
  qed
  define e where "e = expr_fix (Andor J_OR (concat (map (expr_insert_andor J_OR) subs)))"
  have run: "crush_or L f es symbol =
      (case e of
         Andor J_OR es' \<Rightarrow> do { es'' \<leftarrow> crush_or_supersets L es' symbol; Some (expr_fix (Andor J_OR es'')) }
       | e \<Rightarrow> Some e)"
    unfolding crush_or_def e_def by (simp add: subs(1) del: expr_fix.simps)
  have splice: "good_leaf symbol e'' \<or> e'' = Boolean False" if "e' \<in> set subs" "e'' \<in> set (expr_insert_andor J_OR e')" for e' e''
  proof -
    have "crushed symbol e'" using subs(2) that(1) by blast
    then show ?thesis using that(2) by (cases rule: crushed_cases) (auto simp: flat_def)
  qed
  then have e: "crushed symbol e" unfolding e_def by (intro crushed_fix_or) auto
  have sem_e: "sem E e = sem E (Andor J_OR es)" if "ports_inj E" for E
    using subs(3) [OF that] sem_list_concat_map [of subs E J_OR "expr_insert_andor J_OR"]
    unfolding e_def sem_fix by (simp add: sem_Andor)
  from e show ?thesis
  proof (cases rule: crushed_cases)
    case (disj ds)
    then obtain es' where es': "crush_or_supersets L ds symbol = Some es'" "\<forall>e \<in> set es'. good_leaf symbol e"
        "\<And>E. (\<exists>e \<in> set es'. sem E e) \<longleftrightarrow> (\<exists>e \<in> set ds. sem E e)"
      using crush_or_supersets_ok [of ds symbol] unfolding flat_def by fastforce
    have "crushed symbol (expr_fix (Andor J_OR es'))" using es'(2) by (intro crushed_fix_or) auto
    moreover have "sem E (expr_fix (Andor J_OR es')) = sem E (Andor J_OR es)" if "ports_inj E" for E
      unfolding sem_fix using es'(3) sem_e [OF that] disj by simp
    ultimately show ?thesis using disj es'(1) run by (simp del: expr_fix.simps)
  qed (use e sem_e run in simp_all)
qed


lemma crushes_leaf:
  "good_leaf symbol e \<Longrightarrow> crushes (crush_cmps_fuel (Suc n) L symbol) symbol e"
  by (auto simp: crushes_def elim!: good_leafE)

lemma crushes_flat:
  assumes "flat symbol ds"
  shows "crushes (crush_cmps_fuel (Suc (Suc n)) L symbol) symbol (Andor J_OR ds)"
proof -
  have "\<forall>d \<in> set ds. crushes (crush_cmps_fuel (Suc n) L symbol) symbol d"
    using assms crushes_leaf by (auto simp: flat_def)
  from crush_or_ok [OF this] show ?thesis by (simp add: crushes_result)
qed

lemma crushes_crushed:
  assumes "crushed symbol e" "2 \<le> n"
  shows "crushes (crush_cmps_fuel n L symbol) symbol e"
proof -
  obtain k where n: "n = Suc (Suc k)" using assms(2) by (metis Suc_le_D numeral_2_eq_2 Suc_le_mono)
  from assms(1) show ?thesis
  proof (cases rule: crushed_cases)
    case (cmp as c)
    then show ?thesis using crushes_leaf [of symbol e] n by simp
  next
    case (disj ds)
    then show ?thesis using crushes_flat n by simp
  qed (simp add: crushes_def n)
qed

text \<open>A conjunction of \<open>k\<close> crushed expressions needs depth \<open>k + 1\<close>.\<close>

lemma crushes_conj:
  assumes w: "sym_width symbol > 0" and "2 \<le> length es" "length es < n" "\<forall>e \<in> set es. crushed symbol e"
  shows "crushes (crush_cmps_fuel n L symbol) symbol (Andor J_AND es)"
  using assms(2-)
proof (induction "length es" arbitrary: es n rule: less_induct)
  case less
  obtain k where n: "n = Suc k" using less.prems(2) by (cases n) auto
  have k: "2 \<le> k" using less.prems n by simp
  have "crush_result symbol (Andor J_AND es) (crush_and_numeric L (crush_cmps_fuel k L symbol) es symbol)"
  proof (rule crush_and_numeric_ok [OF w less.prems(1)])
    show "\<forall>sub \<in> set es. crushes (crush_cmps_fuel k L symbol) symbol sub"
      using less.prems(3) crushes_crushed k by blast
    show "crushes (crush_cmps_fuel k L symbol) symbol e" if "good_leaf symbol e" for e
      using that k by (intro crushes_crushed) (auto elim!: good_leafE)
    show "crushes (crush_cmps_fuel k L symbol) symbol (Andor J_OR ds)" if "flat symbol ds" for ds
      using that k by (intro crushes_crushed) auto
    show "crushes (crush_cmps_fuel k L symbol) symbol (Andor J_AND (e # map (Andor J_OR) ors))"
      if "crushed symbol e" "ors \<noteq> []" "\<forall>ds \<in> set ors. flat symbol ds" "Suc (length ors) < length es" for e ors
      using that less.prems(2) n by (intro less.hyps) (auto simp: Suc_le_eq)
  qed
  then show ?case using w n by (simp add: crushes_result)
qed

lemma crush_cmps_fuel_ok:
  assumes "crushable symbol e" "expr_nodes e < n"
  shows "crushes (crush_cmps_fuel n L symbol) symbol e"
  using assms
proof (induction e arbitrary: n)
  case (Cmp as c)
  then show ?case by (cases n) (auto simp: crushes_def)
next
  case (Andor j es)
  obtain k where n: "n = Suc k" using Andor.prems(2) by (cases n) auto
  have len: "2 \<le> length es" using Andor.prems(1) by simp
  have nodes: "expr_nodes e < k" "length es < k" if "e \<in> set es" for e
    using expr_nodes_child [OF that, of j] Andor.prems(2) n len expr_nodes_pos [of e] by auto
  have k: "length es < k" using nodes(2) len by (cases es) auto
  have subs: "\<forall>sub \<in> set es. crushes (crush_cmps_fuel k L symbol) symbol sub"
    using Andor nodes(1) by auto
  consider (disj) "j = J_OR" | (num) "j = J_AND" "sym_width symbol > 0" | (str) "j = J_AND" "sym_width symbol = 0"
    by (cases j) auto
  then show ?case
  proof cases
    case disj
    then show ?thesis using crush_or_ok [OF subs] n by (simp add: crushes_result)
  next
    case num
    have "crush_result symbol (Andor J_AND es) (crush_and_numeric L (crush_cmps_fuel k L symbol) es symbol)"
    proof (rule crush_and_numeric_ok [OF num(2) len subs])
      show "crushes (crush_cmps_fuel k L symbol) symbol e" if "good_leaf symbol e" for e
        using that k len by (intro crushes_crushed) (auto elim!: good_leafE)
      show "crushes (crush_cmps_fuel k L symbol) symbol (Andor J_OR ds)" if "flat symbol ds" for ds
        using that k len by (intro crushes_crushed) auto
      show "crushes (crush_cmps_fuel k L symbol) symbol (Andor J_AND (e # map (Andor J_OR) ors))"
        if "crushed symbol e" "ors \<noteq> []" "\<forall>ds \<in> set ors. flat symbol ds" "Suc (length ors) < length es" for e ors
        using that k by (intro crushes_conj [OF num(2)]) (auto simp: Suc_le_eq)
    qed
    then show ?thesis using num n by (simp add: crushes_result)
  next
    case str
    then show ?thesis using crush_and_string_ok [OF str(2) len subs] n by (simp add: crushes_result)
  qed
qed auto

lemma crush_cmps_ok:
  assumes "crushable symbol e"
  shows "\<exists>e'. crush_cmps L e symbol = Some e' \<and> crushed symbol e' \<and> (\<forall>E. ports_inj E \<longrightarrow> sem E e' = sem E e)"
  using crush_cmps_fuel_ok [OF assms, of "Suc (expr_nodes e)"] by (auto simp: crush_cmps_def crushes_def)

end

end
