(* ===== verification/Expr_Normalize.thy ===== *)
theory Expr_Normalize
  imports Expr_Crush
begin

text \<open>
  \<open>expr_normalize\<close> of \<open>lib/expr.c\<close>: an expression over comparisons, conjunctions and disjunctions
  becomes a disjunction of conjunctions of clauses, where a clause is a comparison or a
  disjunction of comparisons on a single symbol.
\<close>

section \<open>Sorting and crushing the terms of a conjunction\<close>

record expr_sort_item =
  es_expr :: expr
  es_symbol :: "expr_symbol option"
  es_type :: expr_type

text \<open>The order of the members of \<open>enum expr_type\<close>.\<close>

fun expr_type_rank :: "expr_type \<Rightarrow> nat" where
  "expr_type_rank EXPR_T_CMP = 0"
| "expr_type_rank EXPR_T_AND = 1"
| "expr_type_rank EXPR_T_OR = 2"
| "expr_type_rank EXPR_T_BOOLEAN = 3"
| "expr_type_rank EXPR_T_CONDITION = 4"

definition sort_item :: "expr \<Rightarrow> expr_sort_item" where
  "sort_item sub =
     (let symbol = expr_get_unique_symbol sub
      in \<lparr>es_expr = sub, es_symbol = symbol,
          es_type = (if symbol \<noteq> None then EXPR_T_CMP else expr_type_of sub)\<rparr>)"

definition compare_expr_sort :: "expr_sort_item \<Rightarrow> expr_sort_item \<Rightarrow> int" where
  "compare_expr_sort a b =
     (if es_type a \<noteq> es_type b then cmp3 (expr_type_rank (es_type a)) (expr_type_rank (es_type b))
      else
        (case es_symbol a of
           Some s \<Rightarrow>
             let cmp = strcmp (sym_name s) (case es_symbol b of Some t \<Rightarrow> sym_name t | None \<Rightarrow> [])
             in if cmp \<noteq> 0 then cmp
                else (let a_type = expr_type_rank (expr_type_of (es_expr a));
                          b_type = expr_type_rank (expr_type_of (es_expr a))
                      in cmp3 a_type b_type)
         | None \<Rightarrow>
             if es_type a = EXPR_T_AND \<or> es_type a = EXPR_T_OR
             then cmp3 (length (andor_subs (es_expr a))) (length (andor_subs (es_expr b)))
             else 0))"

definition combine_and :: "expr \<Rightarrow> expr \<Rightarrow> expr" where
  "combine_and a b = Andor J_AND (expr_insert_andor J_AND a @ expr_insert_andor J_AND b)"

lemma combine_and_eq: "expr_combine J_AND (Some a) (Some b) = Some (combine_and a b)"
  by (simp add: combine_and_def)

text \<open>Crushing a group of terms with the same symbol.\<close>

definition crush_sort_group :: "ovs_bits \<Rightarrow> expr_sort_item \<Rightarrow> expr_sort_item list \<Rightarrow> expr_symbol \<Rightarrow> expr option" where
  "crush_sort_group L item grp symbol =
     (if grp = [] then crush_cmps L (es_expr item) symbol
      else
        (let combined = fold (\<lambda>i c. combine_and c (es_expr i)) grp (es_expr item)
         in if length (andor_subs combined) < 2 then None else crush_cmps L combined symbol))"

text \<open>The main loop of \<open>expr_sort\<close>, over groups of terms with the same symbol.\<close>

function expr_sort_loop :: "ovs_bits \<Rightarrow> expr_sort_item list \<Rightarrow> expr option \<Rightarrow> expr option option" where
  "expr_sort_loop L [] e = Some e"
| "expr_sort_loop L (item # items) e =
     (case es_symbol item of
        Some symbol \<Rightarrow>
          (let grp = takeWhile (\<lambda>i. es_symbol i = es_symbol item) items;
               rest = dropWhile (\<lambda>i. es_symbol i = es_symbol item) items
           in do { crushed \<leftarrow> crush_sort_group L item grp symbol;
                   case crushed of
                     Boolean b \<Rightarrow> if \<not> b then Some (Some crushed) else expr_sort_loop L rest e
                   | _ \<Rightarrow> expr_sort_loop L rest (expr_combine J_AND e (Some crushed)) })
      | None \<Rightarrow> expr_sort_loop L items (expr_combine J_AND e (Some (es_expr item))))"
  by pat_completeness auto

termination
  by (relation "measure (\<lambda>(L, items, e). length items)") (auto simp: less_Suc_eq_le length_dropWhile_le)

definition expr_sort :: "ovs_bits \<Rightarrow> expr list \<Rightarrow> expr option" where
  "expr_sort L es =
     do { r \<leftarrow> expr_sort_loop L (qsort compare_expr_sort (map sort_item es)) None;
          Some (case r of Some e \<Rightarrow> e | None \<Rightarrow> Boolean True) }"

section \<open>Normalization\<close>

text \<open>Merging adjacent comparisons on the same symbol; \<open>None\<close> if they contradict each other.\<close>

fun merge_cmps :: "ovs_bits \<Rightarrow> expr list \<Rightarrow> expr list option" where
  "merge_cmps L (Cmp as a # Cmp bs b # rest) =
     (if cmp_symbol a \<noteq> cmp_symbol b then map_option ((#) (Cmp as a)) (merge_cmps L (Cmp bs b # rest))
      else if sym_width (cmp_symbol a) > 0 then
        (case mf_subvalue_intersect L (cmp_value a) (cmp_mask a) (cmp_value b) (cmp_mask b) of
           Some (v, m) \<Rightarrow> merge_cmps L (Cmp bs (b\<lparr>cmp_value := v, cmp_mask := m\<rparr>) # rest)
         | None \<Rightarrow> None)
      else if cmp_string a = cmp_string b then merge_cmps L (Cmp bs b # rest)
      else None)"
| "merge_cmps L (e # rest) = map_option ((#) e) (merge_cmps L rest)"
| "merge_cmps L [] = Some []"

text \<open>
  The first term that has to be multiplied out: \<open>Some None\<close> if there is none, otherwise the terms
  before it, its children, and the terms after it.
\<close>

fun find_cross :: "expr list \<Rightarrow> (expr list \<times> expr list \<times> expr list) option option" where
  "find_cross [] = Some None"
| "find_cross (sub # rest) =
     (let continue = map_option (map_option (\<lambda>(pre, ks, post). (sub # pre, ks, post))) (find_cross rest)
      in case sub of
           Cmp _ _ \<Rightarrow> continue
         | Condition _ _ _ \<Rightarrow> continue
         | Andor J_OR ks \<Rightarrow>
             (case expr_get_unique_symbol sub of
                None \<Rightarrow> Some (Some ([], ks, rest))
              | Some symbol \<Rightarrow> if sym_must_crossproduct symbol then Some (Some ([], ks, rest)) else continue)
         | _ \<Rightarrow> None)"

text \<open>The loop of \<open>expr_normalize_or\<close>; \<open>Inl\<close> is an early return.\<close>

fun normalize_or_loop ::
  "(expr list \<Rightarrow> expr option) \<Rightarrow> expr list \<Rightarrow> (expr + expr list) option" where
  "normalize_or_loop normalize_and [] = Some (Inr [])"
| "normalize_or_loop normalize_and (sub # rest) =
     (case sub of
        Andor J_AND es \<Rightarrow>
          do { new \<leftarrow> normalize_and es;
               case new of
                 Boolean b \<Rightarrow>
                   if b then Some (Inl new) else normalize_or_loop normalize_and rest
               | _ \<Rightarrow>
                   do { r \<leftarrow> normalize_or_loop normalize_and rest;
                        Some (case r of Inl e \<Rightarrow> Inl e | Inr es' \<Rightarrow> Inr (expr_insert_andor J_OR new @ es')) } }
      | Cmp _ _ \<Rightarrow>
          do { r \<leftarrow> normalize_or_loop normalize_and rest;
               Some (case r of Inl e \<Rightarrow> Inl e | Inr es' \<Rightarrow> Inr (sub # es')) }
      | Condition _ _ _ \<Rightarrow>
          do { r \<leftarrow> normalize_or_loop normalize_and rest;
               Some (case r of Inl e \<Rightarrow> Inl e | Inr es' \<Rightarrow> Inr (sub # es')) }
      | _ \<Rightarrow> None)"

definition expr_normalize_or :: "(expr list \<Rightarrow> expr option) \<Rightarrow> expr list \<Rightarrow> expr option" where
  "expr_normalize_or normalize_and es =
     do { r \<leftarrow> normalize_or_loop normalize_and es;
          Some (case r of
                  Inl e \<Rightarrow> e
                | Inr [] \<Rightarrow> Boolean False
                | Inr [e] \<Rightarrow> e
                | Inr es' \<Rightarrow> Andor J_OR es') }"

text \<open>\<open>expr_normalize_and\<close>; the first argument bounds the depth of the recursion.\<close>

fun expr_normalize_and :: "nat \<Rightarrow> ovs_bits \<Rightarrow> expr list \<Rightarrow> expr option" where
  "expr_normalize_and 0 L es = None"
| "expr_normalize_and (Suc fuel) L es =
     do { e \<leftarrow> expr_sort L es;
          case e of
            Andor J_AND es' \<Rightarrow>
              (case merge_cmps L es' of
                 None \<Rightarrow> Some (Boolean False)
               | Some [] \<Rightarrow> None
               | Some [sub] \<Rightarrow> Some sub
               | Some terms \<Rightarrow>
                   do { c \<leftarrow> find_cross terms;
                        case c of
                          None \<Rightarrow> Some (Andor J_AND terms)
                        | Some (pre, ks, post) \<Rightarrow>
                            expr_normalize_or (expr_normalize_and fuel L)
                              (map (\<lambda>k. Andor J_AND (concat (map (expr_insert_andor J_AND) (pre @ k # post)))) ks) })
          | _ \<Rightarrow> Some e }"

definition expr_normalize :: "ovs_bits \<Rightarrow> expr \<Rightarrow> expr option" where
  "expr_normalize L e =
     (case e of
        Cmp _ _ \<Rightarrow> Some e
      | Andor J_AND es \<Rightarrow> expr_normalize_and (Suc (expr_nodes e)) L es
      | Andor J_OR es \<Rightarrow> expr_normalize_or (expr_normalize_and (Suc (expr_nodes e)) L) es
      | Boolean _ \<Rightarrow> Some e
      | Condition _ _ _ \<Rightarrow> None)"

lemma sum_list_insort3:
  "sum_list (map f (insort3 c x xs)) = f x + sum_list (map f xs)" for f :: "'a \<Rightarrow> nat"
  by (induction xs) auto

lemma sum_list_qsort [simp]: "sum_list (map f (qsort c xs)) = sum_list (map f xs)" for f :: "'a \<Rightarrow> nat"
  by (induction xs) (auto simp: sum_list_insort3)

section \<open>Trees in terms of equality comparisons\<close>

fun good_tree :: "expr \<Rightarrow> bool" where
  "good_tree (Cmp as c) \<longleftrightarrow> good_cmp (cmp_symbol c) c"
| "good_tree (Andor j es) \<longleftrightarrow> 2 \<le> length es \<and> (\<forall>e \<in> set es. good_tree e \<and> \<not> is_junct j e)"
| "good_tree (Boolean b) \<longleftrightarrow> False"
| "good_tree (Condition t n s) \<longleftrightarrow> False"

definition expr_syms :: "expr \<Rightarrow> expr_symbol set" where
  "expr_syms e = cmp_symbol ` set (expr_cmps e)"

lemma expr_syms_simps [simp]:
  "expr_syms (Cmp as c) = {cmp_symbol c}"
  "expr_syms (Andor j es) = (\<Union>e \<in> set es. expr_syms e)"
  "expr_syms (Boolean b) = {}"
  "expr_syms (Condition t n s) = {}"
  by (auto simp: expr_syms_def)

text \<open>A symbol table has one symbol per name.\<close>

definition well_named :: "expr_symbol set \<Rightarrow> bool" where
  "well_named X \<longleftrightarrow> (\<forall>s \<in> X. \<forall>t \<in> X. sym_name s = sym_name t \<longrightarrow> s = t)"

lemma well_named_mono: "well_named Y \<Longrightarrow> X \<subseteq> Y \<Longrightarrow> well_named X"
  by (auto simp: well_named_def)

lemma unique_symbol_loop_iff:
  "unique_symbol_loop prev es = Some s \<longleftrightarrow>
     (if es = [] then prev = Some s
      else (prev = None \<or> prev = Some s) \<and> (\<forall>e \<in> set es. expr_get_unique_symbol e = Some s))"
proof (induction es arbitrary: prev)
  case Nil
  then show ?case by simp
next
  case (Cons e es)
  then show ?case by (auto split: option.splits)
qed

declare unique_symbol_loop.simps [simp del]

lemma unique_symbol_Andor [simp]:
  "expr_get_unique_symbol (Andor j es) = Some s \<longleftrightarrow> es \<noteq> [] \<and> (\<forall>e \<in> set es. expr_get_unique_symbol e = Some s)"
  by (simp add: unique_symbol_loop_iff)

lemma unique_crushable:
  "good_tree e \<Longrightarrow> expr_get_unique_symbol e = Some s \<Longrightarrow> crushable s e"
  by (induction e) (auto simp del: expr_get_unique_symbol.simps(2) simp: good_cmp_def)

lemma good_leaf_unique: "good_leaf s e \<Longrightarrow> expr_get_unique_symbol e = Some s \<and> good_tree e"
  by (auto elim!: good_leafE simp: good_cmp_def)

lemma crushed_unique:
  assumes "crushed s e" "e \<noteq> Boolean False"
  shows "expr_get_unique_symbol e = Some s" "good_tree e" "\<not> is_junct J_AND e" "expr_syms e = {s}"
proof -
  have "expr_get_unique_symbol e = Some s \<and> good_tree e \<and> \<not> is_junct J_AND e \<and> expr_syms e = {s}"
    using assms(1)
  proof (cases rule: crushed_cases)
    case (disj ds)
    have "expr_syms d = {s}" "\<not> is_junct J_OR d" if "d \<in> set ds" for d
      using disj that by (auto simp: flat_def good_cmp_def elim!: good_leafE)
    moreover have "ds \<noteq> []" using disj by (auto simp: flat_def)
    ultimately show ?thesis
      using disj good_leaf_unique unfolding disj(1) unique_symbol_Andor by (auto simp: flat_def)
  qed (use assms(2) in \<open>auto simp: good_cmp_def\<close>)
  then show "expr_get_unique_symbol e = Some s" "good_tree e" "\<not> is_junct J_AND e" "expr_syms e = {s}" by auto
qed

lemma crushable_syms: "crushable s e \<Longrightarrow> expr_syms e = {s}"
proof (induction e)
  case (Andor j es)
  then have "es \<noteq> []" by auto
  then show ?case using Andor by auto
qed (auto simp: good_cmp_def)

text \<open>The terms of a conjunction.\<close>

definition term_ok :: "expr \<Rightarrow> bool" where
  "term_ok e \<longleftrightarrow> good_tree e \<and> \<not> is_junct J_AND e"

definition and_list :: "expr list \<Rightarrow> expr option" where
  "and_list es = (case es of [] \<Rightarrow> None | [e] \<Rightarrow> Some e | _ \<Rightarrow> Some (Andor J_AND es))"

lemma combine_and_list:
  assumes "\<forall>e \<in> set es. \<not> is_junct J_AND e" "\<not> is_junct J_AND x"
  shows "expr_combine J_AND (and_list es) (Some x) = and_list (es @ [x])"
  using assms by (auto simp: and_list_def expr_insert_andor_def split: list.splits)

lemma fold_combine_and:
  assumes "\<not> is_junct J_AND e" "\<forall>i \<in> set is. \<not> is_junct J_AND (f i)" "is \<noteq> []"
  shows "fold (\<lambda>i c. combine_and c (f i)) is e = Andor J_AND (e # map f is)"
proof -
  have "fold (\<lambda>i c. combine_and c (f i)) js (Andor J_AND es) = Andor J_AND (es @ map f js)"
    if "\<forall>i \<in> set js. \<not> is_junct J_AND (f i)" for js es
    using that by (induction js arbitrary: es) (auto simp: combine_and_def expr_insert_andor_def)
  then show ?thesis using assms by (cases "is") (auto simp: combine_and_def expr_insert_andor_def)
qed

text \<open>The progress measure of normalization.\<close>

definition term_weight :: "expr \<Rightarrow> nat" where
  "term_weight e = (case expr_get_unique_symbol e of
     None \<Rightarrow> expr_nodes e | Some _ \<Rightarrow> if leaf_of e \<noteq> None then 0 else 1)"

definition weight :: "expr list \<Rightarrow> nat" where
  "weight es = sum_list (map term_weight es)"

lemma weight_simps [simp]:
  "weight [] = 0" "weight (e # es) = term_weight e + weight es" "weight (es @ es') = weight es + weight es'"
  by (simp_all add: weight_def)

lemma weight_member: "e \<in> set es \<Longrightarrow> term_weight e \<le> weight es"
  by (induction es) auto

lemma term_weight_le: "term_weight e \<le> expr_nodes e"
  using expr_nodes_pos [of e] by (auto simp: term_weight_def Suc_le_eq split: option.splits)

lemma weight_le: "weight es \<le> sum_list (map expr_nodes es)"
  by (induction es) (auto intro: add_mono term_weight_le)

section \<open>Crushing comparisons only\<close>

lemma crush_numeric_loop_leaves:
  assumes "\<forall>e \<in> set es. leaf_of e \<noteq> None" "\<And>as c. f (Cmp as c) = Some (Cmp as c)"
    and "crush_numeric_loop L f es v m [] = Some r"
  shows "r = Inl (Boolean False) \<or> (\<exists>v m. r = Inr (v, m, []))"
  using assms(1,3)
proof (induction es arbitrary: v m)
  case (Cons e es)
  then obtain as c where "e = Cmp as c" by (cases e) auto
  then show ?case using Cons assms(2) by (auto split: option.splits)
qed auto

lemma crush_string_loop_leaves:
  assumes "\<forall>e \<in> set es. leaf_of e \<noteq> None" "\<And>as c. f (Cmp as c) = Some (Cmp as c)"
    and "crush_string_loop f es single [] = Some r" "single \<noteq> None \<or> es \<noteq> []"
  shows "r = Inl (Boolean False) \<or> (\<exists>s. r = Inr (Some s, []))"
  using assms(1,3,4)
proof (induction es arbitrary: single)
  case (Cons e es)
  then obtain as c where "e = Cmp as c" by (cases e) auto
  then show ?case using Cons assms(2) by (auto split: option.splits if_splits)
qed auto

lemma crush_cmps_leaves:
  assumes "\<forall>e \<in> set es. leaf_of e \<noteq> None" "es \<noteq> []" "crush_cmps L (Andor J_AND es) symbol = Some e'"
  shows "\<not> is_junct J_OR e'"
proof -
  define n where "n = sum_list (map expr_nodes es)"
  have run: "(if sym_width symbol > 0 then crush_and_numeric L (crush_cmps_fuel (Suc n) L symbol) es symbol
      else crush_and_string L (crush_cmps_fuel (Suc n) L symbol) es symbol) = Some e'"
    using assms(3) by (simp add: crush_cmps_def n_def split: if_splits)
  have f': "crush_cmps_fuel (Suc n) L symbol (Cmp as c) = Some (Cmp as c)" for as c by simp
  show ?thesis
  proof (cases "sym_width symbol > 0")
    case True
    then obtain r where "crush_numeric_loop L (crush_cmps_fuel (Suc n) L symbol) es 0 0 [] = Some r" "2 \<le> length es"
      using run by (cases "crush_numeric_loop L (crush_cmps_fuel (Suc n) L symbol) es 0 0 []")
        (auto simp: crush_and_numeric_def split: if_splits)
    then show ?thesis
      using crush_numeric_loop_leaves [OF assms(1) f'] run True
      by (fastforce simp: crush_and_numeric_def numeric_cmp_def split: if_splits)
  next
    case False
    then obtain r where "crush_string_loop (crush_cmps_fuel (Suc n) L symbol) es None [] = Some r" "2 \<le> length es"
      using run by (cases "crush_string_loop (crush_cmps_fuel (Suc n) L symbol) es None []")
        (auto simp: crush_and_string_def split: if_splits)
    then show ?thesis
      using crush_string_loop_leaves [OF assms(1) f', of None] run False assms(2)
      by (fastforce simp: crush_and_string_def split: if_splits)
  qed
qed

section \<open>The order of the terms\<close>

text \<open>The items that \<open>expr_sort\<close> sorts: those with a unique symbol count as comparisons.\<close>

definition sort_items :: "expr_sort_item set" where
  "sort_items = {i. (es_type i = EXPR_T_CMP \<longleftrightarrow> es_symbol i \<noteq> None)}"

lemma rank_eq [simp]: "expr_type_rank a = expr_type_rank b \<longleftrightarrow> a = b"
  by (cases a; cases b) auto

lemma rank_cmp: "expr_type_rank t \<le> expr_type_rank EXPR_T_CMP \<longleftrightarrow> t = EXPR_T_CMP"
  by (cases t) auto

lemma compare_sort_le_iff:
  "compare_expr_sort a b \<le> 0 \<longleftrightarrow>
     expr_type_rank (es_type a) < expr_type_rank (es_type b) \<or>
     es_type a = es_type b \<and>
       (case es_symbol a of
          Some s \<Rightarrow> strcmp (sym_name s) (case es_symbol b of Some t \<Rightarrow> sym_name t | None \<Rightarrow> []) \<le> 0
        | None \<Rightarrow> es_type a \<in> {EXPR_T_AND, EXPR_T_OR} \<longrightarrow>
            length (andor_subs (es_expr a)) \<le> length (andor_subs (es_expr b)))"
proof (cases "es_type a = es_type b")
  case True
  then show ?thesis by (auto simp: compare_expr_sort_def Let_def cmp3_def split: option.splits)
next
  case False
  then have "expr_type_rank (es_type a) \<noteq> expr_type_rank (es_type b)" by simp
  then show ?thesis using False by (auto simp: compare_expr_sort_def cmp3_def)
qed

lemma compare_sort_total:
  "a \<in> sort_items \<Longrightarrow> b \<in> sort_items \<Longrightarrow> compare_expr_sort a b \<le> 0 \<or> compare_expr_sort b a \<le> 0"
  using strcmp_total rank_eq [of "es_type a" "es_type b"]
  by (fastforce simp: compare_sort_le_iff sort_items_def simp del: rank_eq split: option.splits)

lemma compare_sort_trans:
  assumes "a \<in> sort_items" "b \<in> sort_items" "c \<in> sort_items"
    and "compare_expr_sort a b \<le> 0" "compare_expr_sort b c \<le> 0"
  shows "compare_expr_sort a c \<le> 0"
proof -
  consider "expr_type_rank (es_type a) < expr_type_rank (es_type c)" | "es_type a = es_type b" "es_type b = es_type c"
    using assms(4,5) unfolding compare_sort_le_iff by (metis less_trans)
  then show ?thesis
  proof cases
    case 2
    show ?thesis
    proof (cases "es_symbol a")
      case None
      then show ?thesis using assms 2 by (auto simp: compare_sort_le_iff sort_items_def split: option.splits)
    next
      case (Some s)
      then obtain t u where "es_symbol b = Some t" "es_symbol c = Some u"
        using assms(1-3) 2 by (auto simp: sort_items_def)
      then show ?thesis
        using assms(4,5) 2 Some strcmp_trans [of "sym_name s" "sym_name t" "sym_name u"]
        by (auto simp: compare_sort_le_iff)
    qed
  qed (simp add: compare_sort_le_iff)
qed

lemma sort_item_simps [simp]:
  "es_expr (sort_item e) = e" "es_symbol (sort_item e) = expr_get_unique_symbol e"
  by (simp_all add: sort_item_def Let_def)

lemma sort_item_sort_items: "good_tree e \<Longrightarrow> sort_item e \<in> sort_items"
  by (cases e rule: expr_type_of.cases) (auto simp: sort_items_def sort_item_def Let_def)

text \<open>Terms with the same symbol are adjacent after sorting.\<close>

lemma sorted_group:
  assumes sorted: "sorted_wrt (\<lambda>a b. compare_expr_sort a b \<le> 0) (item # items)"
    and items: "set (item # items) \<subseteq> sort_items" and sym: "es_symbol item = Some s"
    and names: "\<And>i t. i \<in> set items \<Longrightarrow> es_symbol i = Some t \<Longrightarrow> sym_name t = sym_name s \<Longrightarrow> t = s"
    and i: "i \<in> set (dropWhile (\<lambda>i. es_symbol i = Some s) items)"
  shows "es_symbol i \<noteq> Some s"
proof
  assume i_sym: "es_symbol i = Some s"
  obtain y ys where drop: "dropWhile (\<lambda>i. es_symbol i = Some s) items = y # ys"
    using i by (cases "dropWhile (\<lambda>i. es_symbol i = Some s) items") auto
  have y_in: "y \<in> set items" using drop by (metis list.set_intros(1) set_dropWhileD)
  have y_ne: "es_symbol y \<noteq> Some s"
    using drop hd_dropWhile [of "\<lambda>i. es_symbol i = Some s" items] by simp
  have i_in: "i \<in> set ys" using i drop i_sym y_ne by auto
  have "items = takeWhile (\<lambda>i. es_symbol i = Some s) items @ y # ys" using drop by (metis takeWhile_dropWhile_id)
  then have "sorted_wrt (\<lambda>a b. compare_expr_sort a b \<le> 0) (y # ys)"
    using sorted by (metis sorted_wrt_append sorted_wrt.simps(2))
  then have le: "compare_expr_sort y i \<le> 0" "compare_expr_sort item y \<le> 0"
    using i_in sorted y_in by auto
  have "i \<in> set items" using i by (rule set_dropWhileD)
  then have ty: "es_type item = EXPR_T_CMP" "es_type i = EXPR_T_CMP"
    using items sym i_sym by (auto simp: sort_items_def)
  have "es_type y = EXPR_T_CMP" using le(1) ty(2) by (auto simp: compare_sort_le_iff)
  then obtain t where t: "es_symbol y = Some t" using items y_in by (auto simp: sort_items_def)
  have "sym_name t = sym_name s"
    using le t sym i_sym ty by (auto simp: compare_sort_le_iff intro: strcmp_antisym)
  then show False using names y_in t y_ne by blast
qed

text \<open>What \<open>expr_sort\<close> leaves: crushed terms on distinct symbols, and terms without a unique symbol.\<close>

definition sorted_term :: "expr \<Rightarrow> bool" where
  "sorted_term e \<longleftrightarrow> (case expr_get_unique_symbol e of
     Some s \<Rightarrow> crushed s e | None \<Rightarrow> term_ok e)"

definition unique_symbols :: "expr list \<Rightarrow> expr_symbol list" where
  "unique_symbols es = map the (filter (\<lambda>s. s \<noteq> None) (map expr_get_unique_symbol es))"

lemma unique_symbols_simps [simp]:
  "unique_symbols [] = []"
  "unique_symbols (e # es) = (case expr_get_unique_symbol e of None \<Rightarrow> unique_symbols es | Some s \<Rightarrow> s # unique_symbols es)"
  "unique_symbols (es @ es') = unique_symbols es @ unique_symbols es'"
  by (auto simp: unique_symbols_def split: option.split)

lemma sorted_term_ok: "sorted_term e \<Longrightarrow> term_ok e"
  using crushed_unique by (cases "e = Boolean False") (auto simp: sorted_term_def term_ok_def split: option.splits)

lemma term_or: "term_ok e \<Longrightarrow> expr_get_unique_symbol e = None \<Longrightarrow> \<exists>es. e = Andor J_OR es"
  by (cases e rule: expr_type_of.cases) (auto simp: term_ok_def)

lemma crushed_weight: "crushed s e \<Longrightarrow> e \<noteq> Boolean False \<Longrightarrow> term_weight e \<le> 1"
  using crushed_unique(1) [of s e] by (simp add: term_weight_def)

context ovs_bits_api
begin

lemma crush_group:
  assumes "\<forall>i \<in> set (item # grp). term_ok (es_expr i) \<and> es_symbol i = Some s \<and> expr_get_unique_symbol (es_expr i) = Some s"
  shows "\<exists>e. crush_sort_group L item grp s = Some e \<and>
    crushed s e \<and> (\<forall>E. ports_inj E \<longrightarrow> sem E e = (\<forall>i \<in> set (item # grp). sem E (es_expr i))) \<and>
    (e \<noteq> Boolean False \<longrightarrow> term_weight e \<le> weight (map es_expr (item # grp)))"
proof -
  have crushable: "crushable s (es_expr i)" if "i \<in> set (item # grp)" for i
    using assms that unique_crushable by (auto simp: term_ok_def)
  show ?thesis
  proof (cases "grp = []")
    case True
    obtain e where e: "crush_cmps L (es_expr item) s = Some e" "crushed s e"
        "\<forall>E. ports_inj E \<longrightarrow> sem E e = sem E (es_expr item)"
      using crush_cmps_ok [OF crushable [of item]] by auto
    have "term_weight e \<le> term_weight (es_expr item)" if "e \<noteq> Boolean False"
    proof (cases "leaf_of (es_expr item)")
      case None
      then show ?thesis using assms crushed_weight [OF e(2) that] by (simp add: term_weight_def)
    next
      case (Some a)
      then have "e = es_expr item" using e(1) by (cases "es_expr item") (auto simp: crush_cmps_def)
      then show ?thesis by simp
    qed
    then show ?thesis using e True by (simp add: crush_sort_group_def)
  next
    case False
    let ?e = "Andor J_AND (es_expr item # map es_expr grp)"
    have comb: "fold (\<lambda>i c. combine_and c (es_expr i)) grp (es_expr item) = ?e"
      using assms False by (intro fold_combine_and) (auto simp: term_ok_def)
    have "crushable s ?e" using crushable False by (auto simp: Suc_le_eq)
    from crush_cmps_ok [OF this] obtain e where e: "crush_cmps L ?e s = Some e" "crushed s e"
        "\<forall>E. ports_inj E \<longrightarrow> sem E e = sem E ?e" by auto
    have "term_weight e \<le> weight (map es_expr (item # grp))" if "e \<noteq> Boolean False"
    proof (cases "\<forall>i \<in> set (item # grp). leaf_of (es_expr i) \<noteq> None")
      case True
      then have "\<not> is_junct J_OR e" using crush_cmps_leaves [OF _ _ e(1)] by auto
      then have "term_weight e = 0" using e(2) that by (auto simp: term_weight_def elim!: crushed_cases)
      then show ?thesis by simp
    next
      case False
      then obtain i where i: "i \<in> set (item # grp)" "leaf_of (es_expr i) = None" by blast
      then have "term_weight (es_expr i) = 1" using assms by (auto simp: term_weight_def)
      then have "1 \<le> weight (map es_expr (item # grp))"
        using i(1) weight_member [of "es_expr i" "map es_expr (item # grp)"] by auto
      then show ?thesis using crushed_weight [OF e(2) that] by simp
    qed
    then show ?thesis using e False comb by (auto simp: crush_sort_group_def Let_def Suc_le_eq)
  qed
qed


end

definition items_ok :: "expr_sort_item list \<Rightarrow> bool" where
  "items_ok items \<longleftrightarrow> (\<forall>i \<in> set items. term_ok (es_expr i) \<and> i = sort_item (es_expr i))"

definition items_syms :: "expr_sort_item list \<Rightarrow> expr_symbol set" where
  "items_syms items = (\<Union>i \<in> set items. expr_syms (es_expr i))"

lemma items_okD:
  "items_ok items \<Longrightarrow> i \<in> set items \<Longrightarrow>
     term_ok (es_expr i) \<and> es_symbol i = expr_get_unique_symbol (es_expr i) \<and> i \<in> sort_items"
  using sort_item_sort_items by (metis items_ok_def sort_item_simps(2) term_ok_def)

definition sort_result :: "expr_sort_item list \<Rightarrow> expr list \<Rightarrow> bool" where
  "sort_result items ys \<longleftrightarrow>
     (\<forall>y \<in> set ys. sorted_term y) \<and> (items \<noteq> [] \<longrightarrow> ys \<noteq> []) \<and>
     (\<forall>y. ys = [y] \<and> expr_get_unique_symbol y = None \<longrightarrow> length items \<le> 1) \<and>
     distinct (unique_symbols ys) \<and> set (unique_symbols ys) \<subseteq> {s. \<exists>i \<in> set items. es_symbol i = Some s} \<and>
     (\<Union>y \<in> set ys. expr_syms y) \<subseteq> items_syms items \<and>
     weight ys \<le> weight (map es_expr items) \<and>
     (\<forall>E. ports_inj E \<longrightarrow> (\<forall>y \<in> set ys. sem E y) = (\<forall>i \<in> set items. sem E (es_expr i)))"

definition sort_false :: "expr_sort_item list \<Rightarrow> bool" where
  "sort_false items \<longleftrightarrow> (\<forall>E. ports_inj E \<longrightarrow> \<not> (\<forall>i \<in> set items. sem E (es_expr i)))"

lemma sort_result_plain:
  assumes "sort_result rest ys" "term_ok (es_expr item)" "expr_get_unique_symbol (es_expr item) = None"
  shows "sort_result (item # rest) (es_expr item # ys)"
  using assms by (auto simp: sort_result_def sorted_term_def items_syms_def)

lemma sort_result_group:
  assumes "sort_result rest ys" and e: "crushed s e" "e \<noteq> Boolean False"
    and "\<And>E. ports_inj E \<Longrightarrow> sem E e = (\<forall>i \<in> set (item # grp). sem E (es_expr i))"
    and "term_weight e \<le> weight (map es_expr (item # grp))"
    and "es_symbol item = Some s" "s \<in> expr_syms (es_expr item)" "\<forall>i \<in> set rest. es_symbol i \<noteq> Some s"
  shows "sort_result (item # grp @ rest) (e # ys)"
  using assms crushed_unique [OF e] by (auto simp: sort_result_def sorted_term_def items_syms_def)

definition sorts_to :: "expr list \<Rightarrow> expr list \<Rightarrow> bool" where
  "sorts_to es ys \<longleftrightarrow> (\<forall>y \<in> set ys. sorted_term y) \<and> ys \<noteq> [] \<and>
     (\<forall>y. ys = [y] \<and> expr_get_unique_symbol y = None \<longrightarrow> length es \<le> 1) \<and>
     distinct (unique_symbols ys) \<and> (\<Union>y \<in> set ys. expr_syms y) \<subseteq> (\<Union>e \<in> set es. expr_syms e) \<and>
     weight ys \<le> weight es \<and> (\<forall>E. ports_inj E \<longrightarrow> (\<forall>y \<in> set ys. sem E y) = sem E (Andor J_AND es))"

context ovs_bits_api
begin

lemma expr_sort_loop_ok:
  assumes "items_ok items" "sorted_wrt (\<lambda>a b. compare_expr_sort a b \<le> 0) items" "well_named (items_syms items)"
    and "\<forall>x \<in> set xs. \<not> is_junct J_AND x"
  shows "(expr_sort_loop L items (and_list xs) = Some (Some (Boolean False)) \<and> sort_false items) \<or>
    (\<exists>ys. expr_sort_loop L items (and_list xs) = Some (and_list (xs @ ys)) \<and> sort_result items ys)"
    (is "?P items xs")
  using assms
proof (induction "length items" arbitrary: items xs rule: less_induct)
  case less
  show ?case
  proof (cases items)
    case Nil
    then show ?thesis by (intro disjI2 exI [of _ "[]"]) (simp add: items_syms_def sort_result_def)
  next
    case (Cons item rest)
    have ok: "term_ok (es_expr item)" "es_symbol item = expr_get_unique_symbol (es_expr item)"
      using items_okD [OF less.prems(1)] Cons by auto
    show ?thesis
    proof (cases "es_symbol item")
      case None
      have "?P rest (xs @ [es_expr item])"
        using less.prems ok(1) Cons by (intro less.hyps) (auto simp: items_ok_def items_syms_def term_ok_def well_named_def)
      moreover have "expr_sort_loop L items (and_list xs) = expr_sort_loop L rest (and_list (xs @ [es_expr item]))"
        using Cons None less.prems(4) ok(1) by (simp add: combine_and_list term_ok_def)
      ultimately show ?thesis
        using sort_result_plain [of rest _ item] ok None Cons by (auto simp: sort_false_def)
    next
      case (Some s)
      let ?grp = "takeWhile (\<lambda>i. es_symbol i = Some s) rest"
      let ?rest = "dropWhile (\<lambda>i. es_symbol i = Some s) rest"
      have split: "rest = ?grp @ ?rest" by simp
      have sub: "set ?grp \<subseteq> set rest" "set ?rest \<subseteq> set rest" by (auto dest: set_takeWhileD set_dropWhileD)
      have "crushable s (es_expr item)" using ok Some unique_crushable by (simp add: term_ok_def)
      then have syms: "s \<in> expr_syms (es_expr item)" by (simp add: crushable_syms)
      have "\<forall>i \<in> set (item # ?grp). term_ok (es_expr i) \<and> es_symbol i = Some s \<and> expr_get_unique_symbol (es_expr i) = Some s"
        using items_okD [OF less.prems(1)] Cons Some sub(1) by (auto dest: set_takeWhileD)
      from crush_group [OF this] obtain e where group: "crush_sort_group L item ?grp s = Some e" and e: "crushed s e"
          "\<And>E. ports_inj E \<Longrightarrow> sem E e = (\<forall>i \<in> set (item # ?grp). sem E (es_expr i))"
          "e \<noteq> Boolean False \<Longrightarrow> term_weight e \<le> weight (map es_expr (item # ?grp))"
        by blast
      have run: "expr_sort_loop L items (and_list xs) =
          (case e of
             Boolean b \<Rightarrow> if \<not> b then Some (Some e) else expr_sort_loop L ?rest (and_list xs)
           | _ \<Rightarrow> expr_sort_loop L ?rest (expr_combine J_AND (and_list xs) (Some e)))"
        using group Some by (simp add: Cons Let_def)
      show ?thesis
      proof (cases "e = Boolean False")
        case True
        then have "sort_false items" using e(2) Cons sub(1) by (fastforce simp: sort_false_def)
        then show ?thesis using run True by simp
      next
        case False
        have "t = u" if "t \<in> items_syms items" "u \<in> items_syms items" "sym_name t = sym_name u" for t u
          using less.prems(3) that by (auto simp: well_named_def)
        moreover have "t \<in> items_syms items" if "i \<in> set items" "es_symbol i = Some t" for i t
          using items_okD [OF less.prems(1) that(1)] that unique_crushable [of "es_expr i" t] crushable_syms [of t "es_expr i"]
          by (auto simp: items_syms_def term_ok_def)
        ultimately have names: "t = s" if "i \<in> set rest" "es_symbol i = Some t" "sym_name t = sym_name s" for i t
          using that Some Cons by (metis list.set_intros)
        have no_s: "\<forall>i \<in> set ?rest. es_symbol i \<noteq> Some s"
        proof
          fix i assume "i \<in> set ?rest"
          moreover have "set (item # rest) \<subseteq> sort_items" using items_okD [OF less.prems(1)] Cons by blast
          moreover have "sorted_wrt (\<lambda>a b. compare_expr_sort a b \<le> 0) (item # rest)" using less.prems(2) Cons by simp
          ultimately show "es_symbol i \<noteq> Some s" using sorted_group Some names by blast
        qed
        have "?P ?rest (xs @ [e])"
        proof (intro less.hyps)
          show "length ?rest < length items" using length_dropWhile_le Cons by (simp add: less_Suc_eq_le)
          show "items_ok ?rest" using less.prems(1) Cons sub(2) by (auto simp: items_ok_def)
          show "sorted_wrt (\<lambda>a b. compare_expr_sort a b \<le> 0) ?rest"
            using less.prems(2) Cons by (simp add: sorted_wrt_dropWhile)
          show "well_named (items_syms ?rest)"
            using less.prems(3) Cons sub(2) by (elim well_named_mono) (auto simp: items_syms_def)
          show "\<forall>x \<in> set (xs @ [e]). \<not> is_junct J_AND x"
            using less.prems(4) crushed_unique(3) [OF e(1) False] by auto
        qed
        moreover have "expr_sort_loop L items (and_list xs) = expr_sort_loop L ?rest (and_list (xs @ [e]))"
          using run e(1) False crushed_unique(3) [OF e(1) False] less.prems(4)
          by (auto simp: combine_and_list elim!: crushed_cases)
        moreover have "sort_result items (e # ys)" if "sort_result ?rest ys" for ys
          using sort_result_group [OF that e(1) False e(2) e(3) [OF False] Some syms no_s] split Cons by simp
        moreover have "sort_false items" if "sort_false ?rest"
          using that Cons sub(2) by (auto simp: sort_false_def)
        ultimately show ?thesis by fastforce
      qed
    qed
  qed
qed

lemma expr_sort_ok:
  assumes terms: "\<forall>e \<in> set es. term_ok e" and "es \<noteq> []" and names: "well_named (\<Union>e \<in> set es. expr_syms e)"
  shows "(expr_sort L es = Some (Boolean False) \<and> (\<forall>E. ports_inj E \<longrightarrow> \<not> sem E (Andor J_AND es))) \<or>
    (\<exists>ys. expr_sort L es = and_list ys \<and> sorts_to es ys)"
proof -
  let ?items = "qsort compare_expr_sort (map sort_item es)"
  have set_items: "set ?items = sort_item ` set es" by simp
  have ok: "items_ok ?items" using terms by (auto simp: items_ok_def)
  have syms: "items_syms ?items = (\<Union>e \<in> set es. expr_syms e)" by (simp add: items_syms_def)
  have sorted: "sorted_wrt (\<lambda>a b. compare_expr_sort a b \<le> 0) ?items"
  proof (rule sorted_wrt_qsort [of sort_items])
    show "set (map sort_item es) \<subseteq> sort_items" using terms sort_item_sort_items by (auto simp: term_ok_def)
  qed (use compare_sort_total compare_sort_trans in blast)+
  have weight: "weight (map es_expr ?items) = weight es"
    using sum_list_qsort [of "\<lambda>i. term_weight (es_expr i)" compare_expr_sort "map sort_item es"]
    by (simp add: weight_def comp_def)
  have len: "length ?items = length es" by simp
  have sem_eq: "(\<forall>i \<in> set ?items. sem E (es_expr i)) = sem E (Andor J_AND es)" for E by simp
  have "?items \<noteq> []" using assms(2) set_items by (metis image_is_empty set_empty)
  from expr_sort_loop_ok [OF ok sorted, of "[]"] names syms
  consider "expr_sort_loop L ?items None = Some (Some (Boolean False))" "sort_false ?items"
    | ys where "expr_sort_loop L ?items None = Some (and_list ys)" "sort_result ?items ys"
    by (auto simp: and_list_def)
  then show ?thesis
  proof cases
    case 1
    then show ?thesis using sem_eq by (simp add: expr_sort_def sort_false_def)
  next
    case (2 ys)
    then have "ys \<noteq> []" using \<open>?items \<noteq> []\<close> by (auto simp: sort_result_def)
    then have "sorts_to es ys"
      using 2(2) unfolding sort_result_def sorts_to_def sem_eq syms weight len by simp
    moreover have "expr_sort L es = and_list ys"
      using 2(1) \<open>ys \<noteq> []\<close> by (cases ys rule: list_cases3) (auto simp: and_list_def expr_sort_def)
    ultimately show ?thesis by blast
  qed
qed

end

section \<open>Normal form\<close>

text \<open>A clause of a normalized conjunction, and a normalized conjunction.\<close>

definition normal_clause :: "expr \<Rightarrow> bool" where
  "normal_clause e \<longleftrightarrow> e \<noteq> Boolean False \<and>
     (\<exists>s. crushed s e \<and> (is_junct J_OR e \<longrightarrow> \<not> sym_must_crossproduct s))"

definition normal_and :: "expr list \<Rightarrow> bool" where
  "normal_and es \<longleftrightarrow> 2 \<le> length es \<and> (\<forall>e \<in> set es. normal_clause e) \<and> distinct (map expr_get_unique_symbol es)"

fun normal_disjunct :: "expr \<Rightarrow> bool" where
  "normal_disjunct (Cmp as c) \<longleftrightarrow> good_cmp (cmp_symbol c) c"
| "normal_disjunct (Andor J_AND es) \<longleftrightarrow> normal_and es"
| "normal_disjunct _ \<longleftrightarrow> False"

fun normal_form :: "expr \<Rightarrow> bool" where
  "normal_form (Andor J_OR es) \<longleftrightarrow> 2 \<le> length es \<and> (\<forall>e \<in> set es. normal_disjunct e)"
| "normal_form (Boolean b) \<longleftrightarrow> True"
| "normal_form e \<longleftrightarrow> normal_disjunct e"

lemma normal_clause_unique: "normal_clause e \<Longrightarrow> expr_get_unique_symbol e \<noteq> None"
  using crushed_unique(1) by (auto simp: normal_clause_def)

lemma normal_disjunct_normalized:
  "normal_disjunct e \<Longrightarrow> expr_get_unique_symbol e \<noteq> None \<or> expr_is_normalized_and e"
  using normal_clause_unique by (cases e rule: normal_disjunct.cases) (auto simp: expr_is_normalized_and_def normal_and_def)

lemma normal_form_is_normalized: "normal_form e \<Longrightarrow> expr_is_normalized e"
  using normal_disjunct_normalized normal_clause_unique
  by (cases e rule: expr_type_of.cases) (auto simp: expr_is_normalized_and_def normal_and_def)

lemma merge_cmps_id:
  "\<forall>y \<in> set ys. sorted_term y \<Longrightarrow> distinct (unique_symbols ys) \<Longrightarrow> merge_cmps L ys = Some ys"
  by (induction L ys rule: merge_cmps.induct) (auto split: option.splits)

definition cross_spec :: "expr list \<Rightarrow> bool" where
  "cross_spec ys \<longleftrightarrow> (find_cross ys = Some None \<and> (\<forall>y \<in> set ys. normal_clause y)) \<or>
    (\<exists>pre ks post. find_cross ys = Some (Some (pre, ks, post)) \<and> ys = pre @ Andor J_OR ks # post \<and>
       (expr_get_unique_symbol (Andor J_OR ks) = None \<or> (\<forall>k \<in> set ks. leaf_of k \<noteq> None)))"

lemma cross_spec_skip:
  assumes "cross_spec ys" "normal_clause y"
    and "find_cross (y # ys) = map_option (map_option (\<lambda>(pre, ks, post). (y # pre, ks, post))) (find_cross ys)"
  shows "cross_spec (y # ys)"
proof (cases "find_cross ys = Some None \<and> (\<forall>y \<in> set ys. normal_clause y)")
  case False
  then obtain pre ks post where
    "find_cross ys = Some (Some (pre, ks, post))" "ys = pre @ Andor J_OR ks # post"
    "expr_get_unique_symbol (Andor J_OR ks) = None \<or> (\<forall>k \<in> set ks. leaf_of k \<noteq> None)"
    using assms(1) unfolding cross_spec_def by blast
  then show ?thesis unfolding cross_spec_def using assms(3)
    by (intro disjI2 exI [of _ "y # pre"] exI [of _ ks] exI [of _ post]) auto
qed (use assms(2,3) in \<open>simp add: cross_spec_def\<close>)

lemma cross_spec_hit:
  assumes "find_cross (Andor J_OR ks # ys) = Some (Some ([], ks, ys))"
    and "expr_get_unique_symbol (Andor J_OR ks) = None \<or> (\<forall>k \<in> set ks. leaf_of k \<noteq> None)"
  shows "cross_spec (Andor J_OR ks # ys)"
  unfolding cross_spec_def
  using assms by (intro disjI2 exI [of _ "[]"] exI [of _ ks] exI [of _ ys]) auto

lemma cross_spec:
  assumes "\<forall>y \<in> set ys. sorted_term y"
  shows "cross_spec ys"
  using assms
proof (induction ys)
  case (Cons y ys)
  have y: "sorted_term y" and IH: "cross_spec ys" using Cons by auto
  show ?case
  proof (cases "expr_get_unique_symbol y")
    case None
    then obtain ks where "y = Andor J_OR ks" using term_or sorted_term_ok [OF y] by blast
    then show ?thesis using None cross_spec_hit [of ks ys] by simp
  next
    case (Some s)
    then have crushed: "crushed s y" "y \<noteq> Boolean False" using y by (auto simp: sorted_term_def)
    from crushed(1) show ?thesis
    proof (cases rule: crushed_cases)
      case (cmp as c)
      then have "normal_clause y" using crushed by (auto simp: normal_clause_def)
      then show ?thesis using cross_spec_skip [OF IH] cmp by (simp add: Let_def)
    next
      case (disj ks)
      then have leaves: "\<forall>k \<in> set ks. leaf_of k \<noteq> None" by (auto simp: flat_def elim!: good_leafE)
      show ?thesis
      proof (cases "sym_must_crossproduct s")
        case True
        then show ?thesis using disj Some cross_spec_hit [OF _ disjI2 [OF leaves], of ys] by simp
      next
        case False
        then have "normal_clause y" using crushed disj by (auto simp: normal_clause_def)
        then show ?thesis using cross_spec_skip [OF IH] disj Some False by (simp add: Let_def)
      qed
    qed (use crushed in simp)
  qed
qed (simp add: cross_spec_def)

text \<open>An expression that normalization is to turn into \<open>r\<close>.\<close>

definition normalizes :: "expr \<Rightarrow> expr option \<Rightarrow> bool" where
  "normalizes e r \<longleftrightarrow> (\<exists>e'. r = Some e' \<and> normal_form e' \<and> e' \<noteq> Boolean True \<and> expr_syms e' \<subseteq> expr_syms e \<and>
     (\<forall>E. ports_inj E \<longrightarrow> sem E e' = sem E e))"

lemma normalize_or_loop_ok:
  assumes "\<forall>sub \<in> set subs. normal_disjunct sub \<and> \<not> is_junct J_AND sub \<or>
    (\<exists>es. sub = Andor J_AND es \<and> normalizes sub (nand es))"
  shows "\<exists>es'. normalize_or_loop nand subs = Some (Inr es') \<and> (\<forall>e \<in> set es'. normal_disjunct e) \<and>
    (\<Union>e \<in> set es'. expr_syms e) \<subseteq> (\<Union>e \<in> set subs. expr_syms e) \<and>
    (\<forall>E. ports_inj E \<longrightarrow> (\<exists>e \<in> set es'. sem E e) = (\<exists>sub \<in> set subs. sem E sub))"
  using assms
proof (induction subs)
  case (Cons sub subs)
  obtain es' where es': "normalize_or_loop nand subs = Some (Inr es')" "\<forall>e \<in> set es'. normal_disjunct e"
      "(\<Union>e \<in> set es'. expr_syms e) \<subseteq> (\<Union>e \<in> set subs. expr_syms e)"
      "\<And>E. ports_inj E \<Longrightarrow> (\<exists>e \<in> set es'. sem E e) = (\<exists>sub \<in> set subs. sem E sub)"
    using Cons by auto
  consider as c where "sub = Cmp as c" "normal_disjunct sub"
    | es new where "sub = Andor J_AND es" "nand es = Some new" "normal_form new" "new \<noteq> Boolean True"
        "expr_syms new \<subseteq> expr_syms sub" "\<And>E. ports_inj E \<Longrightarrow> sem E new = sem E sub"
    using Cons.prems by (cases sub rule: normal_disjunct.cases) (auto simp: normalizes_def)
  then show ?case
  proof cases
    case 1
    then show ?thesis using es' by auto
  next
    case (2 es new)
    show ?thesis
    proof (cases "new = Boolean False")
      case True
      then have "(\<exists>e \<in> set es'. sem E e) = (\<exists>sub \<in> set (sub # subs). sem E sub)" if "ports_inj E" for E
        using 2(6) [OF that] es'(4) [OF that] by auto
      then show ?thesis using 2(1,2) es'(1-3) True by (intro exI [of _ es']) auto
    next
      case False
      let ?ins = "expr_insert_andor J_OR new"
      have ins: "\<forall>e \<in> set ?ins. normal_disjunct e" "(\<Union>e \<in> set ?ins. expr_syms e) = expr_syms new"
        using 2(3,4) False by (cases new rule: expr_type_of.cases; auto)+
      have sem_ins: "(\<exists>e \<in> set ?ins. sem E e) = sem E new" for E
        using sem_list_insert_andor [of E J_OR new] by (simp add: sem_list_def)
      have "normalize_or_loop nand (sub # subs) = Some (Inr (?ins @ es'))"
        using 2(1,2,3,4) False es'(1) by (cases new) auto
      moreover have "(\<exists>e \<in> set (?ins @ es'). sem E e) = (\<exists>sub \<in> set (sub # subs). sem E sub)" if "ports_inj E" for E
        using 2(6) [OF that] es'(4) [OF that] sem_ins [of E] by (simp add: bex_Un)
      moreover have "(\<Union>e \<in> set (?ins @ es'). expr_syms e) \<subseteq> (\<Union>e \<in> set (sub # subs). expr_syms e)"
        using ins(2) es'(3) 2(5) by auto
      ultimately show ?thesis using ins(1) es'(2) by (intro exI [of _ "?ins @ es'"]) auto
    qed
  qed
qed simp

lemma expr_normalize_or_ok:
  assumes "\<forall>sub \<in> set subs. normal_disjunct sub \<and> \<not> is_junct J_AND sub \<or>
    (\<exists>es. sub = Andor J_AND es \<and> normalizes sub (nand es))"
  shows "normalizes (Andor J_OR subs) (expr_normalize_or nand subs)"
proof -
  obtain es' where es': "normalize_or_loop nand subs = Some (Inr es')" "\<forall>e \<in> set es'. normal_disjunct e"
      "(\<Union>e \<in> set es'. expr_syms e) \<subseteq> (\<Union>e \<in> set subs. expr_syms e)"
      "\<And>E. ports_inj E \<Longrightarrow> (\<exists>e \<in> set es'. sem E e) = (\<exists>sub \<in> set subs. sem E sub)"
    using normalize_or_loop_ok [OF assms] by auto
  have nd: "normal_form e \<and> e \<noteq> Boolean True" if "normal_disjunct e" for e
    using that by (cases e rule: normal_disjunct.cases) auto
  show ?thesis
    using es' nd by (cases es' rule: list_cases3) (auto simp: normalizes_def expr_normalize_or_def)
qed

section \<open>Correctness of normalization\<close>

lemma crushed_normal_form: "crushed s e \<Longrightarrow> normal_form e \<and> e \<noteq> Boolean True"
  by (erule crushed_cases) (auto simp: flat_def good_cmp_def elim!: good_leafE)

lemma distinct_unique_symbols:
  assumes "\<forall>y \<in> set ys. expr_get_unique_symbol y \<noteq> None"
  shows "distinct (unique_symbols ys) = distinct (map expr_get_unique_symbol ys)"
proof -
  have "filter (\<lambda>s. s \<noteq> None) (map expr_get_unique_symbol ys) = map expr_get_unique_symbol ys"
    using assms by (auto simp: filter_id_conv)
  moreover have "inj_on the (set (map expr_get_unique_symbol ys))"
    using assms by (intro inj_onI) (metis (no_types, lifting) imageE option.expand set_map)
  ultimately show ?thesis unfolding unique_symbols_def distinct_map [of the] by simp
qed

text \<open>Multiplying out one disjunction of a conjunction.\<close>

definition product_term :: "expr list \<Rightarrow> expr \<Rightarrow> expr list \<Rightarrow> expr list" where
  "product_term pre k post = concat (map (expr_insert_andor J_AND) (pre @ k # post))"

lemma sorted_term_cases:
  "sorted_term y \<Longrightarrow> (\<exists>s. expr_get_unique_symbol y = Some s \<and> crushed s y) \<or>
     expr_get_unique_symbol y = None \<and> term_ok y"
  by (auto simp: sorted_term_def split: option.splits)

lemma insert_and_terms: "good_tree k \<Longrightarrow> e \<in> set (expr_insert_andor J_AND k) \<Longrightarrow> term_ok e"
  by (cases k) (auto simp: expr_insert_andor_def term_ok_def split: if_splits)

lemma weight_insert_and: "weight (expr_insert_andor J_AND k) \<le> expr_nodes k"
  using weight_le [of "expr_insert_andor J_AND k"]
  by (cases k) (auto simp: expr_insert_andor_def)

lemma product_term_eq:
  assumes "\<forall>y \<in> set (pre @ Andor J_OR ks # post). sorted_term y"
  shows "product_term pre k post = pre @ expr_insert_andor J_AND k @ post"
proof -
  have "concat (map (expr_insert_andor J_AND) ys) = ys" if "\<forall>y \<in> set ys. sorted_term y" for ys
    using that by (induction ys) (auto simp: expr_insert_andor_def term_ok_def dest!: sorted_term_ok)
  then show ?thesis using assms by (simp add: product_term_def)
qed

lemma product_weight:
  assumes "k \<in> set ks" "sorted_term (Andor J_OR ks)"
    and "expr_get_unique_symbol (Andor J_OR ks) = None \<or> (\<forall>k \<in> set ks. leaf_of k \<noteq> None)"
  shows "weight (expr_insert_andor J_AND k) < term_weight (Andor J_OR ks)"
proof (cases "expr_get_unique_symbol (Andor J_OR ks)")
  case None
  then have "term_weight (Andor J_OR ks) = expr_nodes (Andor J_OR ks)" by (simp add: term_weight_def)
  moreover have "expr_nodes k \<le> sum_list (map expr_nodes ks)"
    using assms(1) by (simp add: member_le_sum_list)
  ultimately show ?thesis using weight_insert_and [of k] by simp
next
  case (Some s)
  then have "leaf_of k \<noteq> None" using assms(1,3) by auto
  then obtain as c where "k = Cmp as c" by (cases k) auto
  then show ?thesis using Some by (simp add: term_weight_def)
qed

lemma product_ok:
  assumes terms: "\<forall>y \<in> set (pre @ Andor J_OR ks # post). sorted_term y" and "pre @ post \<noteq> []" and k: "k \<in> set ks"
    and small: "expr_get_unique_symbol (Andor J_OR ks) = None \<or> (\<forall>k \<in> set ks. leaf_of k \<noteq> None)"
  shows "\<forall>e \<in> set (product_term pre k post). term_ok e"
    and "2 \<le> length (product_term pre k post)"
    and "(\<Union>e \<in> set (product_term pre k post). expr_syms e) \<subseteq> (\<Union>y \<in> set (pre @ Andor J_OR ks # post). expr_syms y)"
    and "weight (product_term pre k post) < weight (pre @ Andor J_OR ks # post)"
proof -
  have "term_ok (Andor J_OR ks)" using terms sorted_term_ok by simp
  then have good: "good_tree k" using k by (auto simp: term_ok_def)
  have "expr_insert_andor J_AND k \<noteq> []" using good by (cases k) (auto simp: expr_insert_andor_def)
  then show "2 \<le> length (product_term pre k post)"
    unfolding product_term_eq [OF terms] using assms(2)
    by (cases "expr_insert_andor J_AND k"; cases pre; cases post) auto
  show "\<forall>e \<in> set (product_term pre k post). term_ok e"
    unfolding product_term_eq [OF terms] using terms sorted_term_ok insert_and_terms [OF good] by auto
  have "(\<Union>e \<in> set (expr_insert_andor J_AND k). expr_syms e) = expr_syms k"
    by (cases k) (auto simp: expr_insert_andor_def)
  then show "(\<Union>e \<in> set (product_term pre k post). expr_syms e) \<subseteq> (\<Union>y \<in> set (pre @ Andor J_OR ks # post). expr_syms y)"
    unfolding product_term_eq [OF terms] using k by auto
  show "weight (product_term pre k post) < weight (pre @ Andor J_OR ks # post)"
    unfolding product_term_eq [OF terms] using product_weight [OF k _ small] terms by simp
qed

lemma sem_product_term: "sem E (Andor J_AND (product_term pre k post)) = (sem E k \<and> (\<forall>e \<in> set (pre @ post). sem E e))"
proof -
  have "(\<forall>e \<in> set (concat (map (expr_insert_andor J_AND) ys)). sem E e) = (\<forall>e \<in> set ys. sem E e)" for ys
  proof (induction ys)
    case (Cons y ys)
    moreover have "(\<forall>e \<in> set (expr_insert_andor J_AND y). sem E e) = sem E y"
      using sem_list_insert_andor [of E J_AND y] by (simp add: sem_list_def)
    ultimately show ?case by (auto simp: ball_Un)
  qed simp
  from this [of "pre @ k # post"] show ?thesis unfolding product_term_def sem.simps by auto
qed

context ovs_bits_api
begin

lemma normalize_cross_ok:
  assumes IH: "\<And>es. \<forall>e \<in> set es. term_ok e \<Longrightarrow> 2 \<le> length es \<Longrightarrow> well_named (\<Union>e \<in> set es. expr_syms e) \<Longrightarrow>
      weight es < fuel \<Longrightarrow> normalizes (Andor J_AND es) (expr_normalize_and fuel L es)"
    and ys: "ys = pre @ Andor J_OR ks # post" "2 \<le> length ys" "\<forall>y \<in> set ys. sorted_term y"
      "well_named (\<Union>y \<in> set ys. expr_syms y)" "weight ys \<le> fuel"
    and small: "expr_get_unique_symbol (Andor J_OR ks) = None \<or> (\<forall>k \<in> set ks. leaf_of k \<noteq> None)"
  shows "normalizes (Andor J_AND ys) (expr_normalize_or (expr_normalize_and fuel L)
           (map (\<lambda>k. Andor J_AND (product_term pre k post)) ks))" (is "normalizes _ (expr_normalize_or ?nand ?subs)")
proof -
  have terms: "\<forall>y \<in> set (pre @ Andor J_OR ks # post). sorted_term y" using ys(1,3) by simp
  have ne: "pre @ post \<noteq> []" using ys(1,2) by (cases pre) auto
  note prod = product_ok [OF terms ne _ small, folded ys(1)]
  have "normalizes (Andor J_AND (product_term pre k post)) (expr_normalize_and fuel L (product_term pre k post))"
    if "k \<in> set ks" for k
  proof (rule IH)
    show "well_named (\<Union>e \<in> set (product_term pre k post). expr_syms e)"
      by (rule well_named_mono [OF ys(4) prod(3) [OF that]])
    show "weight (product_term pre k post) < fuel"
      using prod(4) [OF that] ys(5) by linarith
  qed (use prod(1,2) that in auto)
  then have "normalizes (Andor J_OR ?subs) (expr_normalize_or ?nand ?subs)"
    by (intro expr_normalize_or_ok) auto
  moreover have "sem E (Andor J_OR ?subs) = sem E (Andor J_AND ys)" for E
    using sem_product_term [of E pre _ post] unfolding ys(1) by auto
  moreover have "expr_syms (Andor J_OR ?subs) \<subseteq> expr_syms (Andor J_AND ys)"
    using prod(3) by simp blast
  ultimately show ?thesis unfolding normalizes_def by (metis order_trans)
qed

lemma normalizes_trans:
  "normalizes e' r \<Longrightarrow> expr_syms e' \<subseteq> expr_syms e \<Longrightarrow>
     (\<And>E. ports_inj E \<Longrightarrow> sem E e' = sem E e) \<Longrightarrow> normalizes e r"
  unfolding normalizes_def by (metis order_trans)

lemma normalizes_self:
  "normal_form e \<Longrightarrow> e \<noteq> Boolean True \<Longrightarrow> normalizes e (Some e)"
  by (simp add: normalizes_def)

lemma normalize_sorted_ok:
  assumes IH: "\<And>es. \<forall>e \<in> set es. term_ok e \<Longrightarrow> 2 \<le> length es \<Longrightarrow> well_named (\<Union>e \<in> set es. expr_syms e) \<Longrightarrow>
      weight es < fuel \<Longrightarrow> normalizes (Andor J_AND es) (expr_normalize_and fuel L es)"
    and sort: "expr_sort L es = Some (Andor J_AND ys)" and "2 \<le> length ys"
    and ys: "\<forall>y \<in> set ys. sorted_term y" "distinct (unique_symbols ys)"
      "well_named (\<Union>y \<in> set ys. expr_syms y)" "weight ys \<le> fuel"
  shows "normalizes (Andor J_AND ys) (expr_normalize_and (Suc fuel) L es)"
proof -
  obtain a b zs where zs: "ys = a # b # zs" using \<open>2 \<le> length ys\<close> by (cases ys rule: list_cases3) auto
  have merge: "merge_cmps L ys = Some ys" by (rule merge_cmps_id [OF ys(1,2)])
  have "cross_spec ys" by (rule cross_spec [OF ys(1)])
  then consider "find_cross ys = Some None" "\<forall>y \<in> set ys. normal_clause y"
    | pre ks post where "find_cross ys = Some (Some (pre, ks, post))" "ys = pre @ Andor J_OR ks # post"
      "expr_get_unique_symbol (Andor J_OR ks) = None \<or> (\<forall>k \<in> set ks. leaf_of k \<noteq> None)"
    unfolding cross_spec_def by blast
  then show ?thesis
  proof cases
    case 1
    then have "distinct (map expr_get_unique_symbol ys)"
      using distinct_unique_symbols [of ys] ys(2) normal_clause_unique by simp
    then have "normal_form (Andor J_AND ys)" using 1 zs by (auto simp: normal_and_def)
    moreover have "expr_normalize_and (Suc fuel) L es = Some (Andor J_AND ys)"
      using sort merge 1(1) zs by simp
    ultimately show ?thesis using normalizes_self by simp
  next
    case (2 pre ks post)
    have "expr_normalize_and (Suc fuel) L es =
        expr_normalize_or (expr_normalize_and fuel L) (map (\<lambda>k. Andor J_AND (product_term pre k post)) ks)"
      using sort merge 2(1) zs by (simp add: product_term_def)
    then show ?thesis using normalize_cross_ok [OF IH 2(2) assms(3) ys(1,3,4) 2(3)] by simp
  qed
qed

lemma expr_normalize_and_ok:
  assumes "\<forall>e \<in> set es. term_ok e" "2 \<le> length es" "well_named (\<Union>e \<in> set es. expr_syms e)" "weight es < fuel"
  shows "normalizes (Andor J_AND es) (expr_normalize_and fuel L es)"
  using assms
proof (induction fuel arbitrary: es)
  case (Suc fuel)
  have "es \<noteq> []" using Suc.prems(2) by auto
  from expr_sort_ok [OF Suc.prems(1) this Suc.prems(3)]
  consider "expr_sort L es = Some (Boolean False)" "\<forall>E. ports_inj E \<longrightarrow> \<not> sem E (Andor J_AND es)"
    | ys where "expr_sort L es = and_list ys" "sorts_to es ys"
    by blast
  then show ?case
  proof cases
    case 1
    then show ?thesis by (simp add: normalizes_def)
  next
    case (2 ys)
    have syms: "expr_syms (Andor J_AND ys) \<subseteq> expr_syms (Andor J_AND es)"
      and sem: "\<And>E. ports_inj E \<Longrightarrow> sem E (Andor J_AND ys) = sem E (Andor J_AND es)"
      and sorted: "\<forall>y \<in> set ys. sorted_term y" and "ys \<noteq> []"
      using 2(2) by (simp_all add: sorts_to_def)
    show ?thesis
    proof (cases ys rule: list_cases3)
      case y: (2 y)
      then have "expr_get_unique_symbol y \<noteq> None" using 2(2) Suc.prems(2) by (auto simp: sorts_to_def)
      then obtain s where s: "expr_get_unique_symbol y = Some s" "crushed s y"
        using sorted sorted_term_cases [of y] y by auto
      then have nf: "normal_form y" "y \<noteq> Boolean True" using crushed_normal_form by blast+
      have "\<not> is_junct J_AND y" using crushed_unique(3) [OF s(2)] by (cases "y = Boolean False") auto
      then have "expr_normalize_and (Suc fuel) L es = Some y"
        using 2(1) y by (cases y rule: expr_type_of.cases) (auto simp: and_list_def)
      moreover have "normalizes (Andor J_AND es) (Some y)"
        using normalizes_trans [OF normalizes_self [OF nf]] syms sem y by simp
      ultimately show ?thesis by simp
    next
      case (3 a b zs)
      have "normalizes (Andor J_AND ys) (expr_normalize_and (Suc fuel) L es)"
      proof (rule normalize_sorted_ok [OF Suc.IH])
        show "expr_sort L es = Some (Andor J_AND ys)" using 2(1) 3 by (simp add: and_list_def)
        show "well_named (\<Union>y \<in> set ys. expr_syms y)"
          using well_named_mono [OF Suc.prems(3)] syms by simp
      qed (use 2(2) 3 Suc.prems(4) in \<open>simp_all add: sorts_to_def\<close>)
      then show ?thesis using normalizes_trans syms sem by blast
    qed (use \<open>ys \<noteq> []\<close> in simp)
  qed
qed simp

lemma expr_normalize_ok:
  assumes "good_tree e" "well_named (expr_syms e)"
  shows "normalizes e (expr_normalize L e)"
proof -
  let ?nand = "expr_normalize_and (Suc (expr_nodes e)) L"
  have conj: "normalizes (Andor J_AND es) (?nand es)"
    if "good_tree (Andor J_AND es)" "expr_syms (Andor J_AND es) \<subseteq> expr_syms e"
      "sum_list (map expr_nodes es) \<le> expr_nodes e" for es
  proof (rule expr_normalize_and_ok)
    show "well_named (\<Union>e \<in> set es. expr_syms e)" using well_named_mono [OF assms(2) that(2)] by simp
    show "weight es < Suc (expr_nodes e)" using weight_le [of es] that(3) by simp
  qed (use that(1) in \<open>auto simp: term_ok_def\<close>)
  show ?thesis
  proof (cases e rule: expr_type_of.cases)
    case (1 as c)
    then show ?thesis using normalizes_self assms(1) by (simp add: expr_normalize_def)
  next
    case (2 es)
    then show ?thesis using conj [of es] assms(1) by (simp add: expr_normalize_def)
  next
    case (3 es)
    have "normal_disjunct sub \<and> \<not> is_junct J_AND sub \<or> (\<exists>es'. sub = Andor J_AND es' \<and> normalizes sub (?nand es'))"
      if sub: "sub \<in> set es" for sub
    proof (cases sub rule: expr_type_of.cases)
      case and_sub: (2 es')
      have "expr_nodes sub \<le> sum_list (map expr_nodes es)" using sub by (simp add: member_le_sum_list)
      then have "normalizes sub (?nand es')"
        unfolding and_sub
      proof (intro conj)
        show "good_tree (Andor J_AND es')" using assms(1) 3 sub and_sub by auto
        show "expr_syms (Andor J_AND es') \<subseteq> expr_syms e" unfolding 3 and_sub [symmetric] using sub by auto
      qed (use 3 in simp)
      then show ?thesis using and_sub by blast
    qed (use assms(1) 3 sub in auto)
    then have "normalizes (Andor J_OR es) (expr_normalize_or ?nand es)" by (intro expr_normalize_or_ok) blast
    then show ?thesis using 3 by (simp add: expr_normalize_def)
  qed (use assms(1) in auto)
qed

end

section \<open>From simplified to normalized expressions\<close>

definition strings_eq :: "expr \<Rightarrow> bool" where
  "strings_eq e \<longleftrightarrow> (\<forall>c \<in> set (expr_cmps e). sym_width (cmp_symbol c) = 0 \<longrightarrow> cmp_relop c = EXPR_R_EQ)"

lemma simple_good_tree:
  "simple_expr e \<Longrightarrow> expr_honors_invariants e \<Longrightarrow> no_bool e \<Longrightarrow> no_cond e \<Longrightarrow> strings_eq e \<Longrightarrow> good_tree e"
proof (induction e)
  case (Cmp as c)
  then show ?case
    by (cases "sym_width (cmp_symbol c) = 0") (auto simp: good_cmp_def simple_cmp_def strings_eq_def)
qed (auto simp: strings_eq_def)

lemma stems_from_syms:
  "stems_from e e' \<Longrightarrow> expr_syms e' \<subseteq> expr_syms e"
  by (fastforce simp: stems_from_def expr_syms_def)

lemma stems_from_strings: "stems_from e e' \<Longrightarrow> strings_eq e \<Longrightarrow> strings_eq e'"
  unfolding stems_from_def strings_eq_def by metis

lemma normal_form_invariants: "normal_form e \<Longrightarrow> expr_honors_invariants e"
proof -
  have leaf: "expr_honors_invariants e" if "good_leaf s e" for s e
    using that by (auto elim!: good_leafE simp: good_cmp_def simple_cmp_def)
  have junct: "\<not> is_junct j e" if "good_leaf s e" for j s e using that by (auto elim: good_leafE)
  have "expr_honors_invariants e \<and> \<not> is_junct J_AND e" if c: "normal_clause e" for e
  proof -
    obtain s where s: "crushed s e" "e \<noteq> Boolean False" using c by (auto simp: normal_clause_def)
    from s(1) show ?thesis
      by (cases rule: crushed_cases)
        (use s(2) leaf [of s] junct [of s] in \<open>auto simp: flat_def good_cmp_def simple_cmp_def\<close>)
  qed
  then have disjunct: "expr_honors_invariants e \<and> \<not> is_junct J_OR e" if "normal_disjunct e" for e
    using that by (cases e rule: normal_disjunct.cases) (auto simp: normal_and_def good_cmp_def simple_cmp_def)
  assume "normal_form e"
  then show ?thesis
    using disjunct [of e] disjunct by (cases e rule: normal_form.cases) auto
qed

context ovs_bits_api
begin

lemma normalize_simple_ok:
  assumes "simple_tree e" "no_cond e" "strings_eq e" "well_named (expr_syms e)"
  shows "\<exists>e'. expr_normalize L e = Some e' \<and> normal_form e' \<and> expr_syms e' \<subseteq> expr_syms e \<and>
    (\<forall>E. ports_inj E \<longrightarrow> sem E e' = sem E e)"
proof (cases "\<exists>b. e = Boolean b")
  case True
  then show ?thesis by (auto simp: expr_normalize_def)
next
  case False
  then have "good_tree e" using simple_good_tree assms by (auto simp: simple_tree_def bool_top_def)
  then show ?thesis using expr_normalize_ok [OF _ assms(4)] by (auto simp: normalizes_def)
qed

lemma expr_pipeline_ok:
  assumes "wf_expr e" "strings_eq e" "well_named (expr_syms e)"
  shows "\<exists>e1 e2. expr_simplify L e = Some e1 \<and> expr_normalize L (expr_evaluate_condition resident e1) = Some e2 \<and>
    normal_form e2 \<and> expr_syms e2 \<subseteq> expr_syms e \<and>
    (\<forall>E. ports_inj E \<and> env_resident E = resident \<longrightarrow> sem E e2 = sem E e)"
proof -
  obtain e1 where e1: "expr_simplify L e = Some e1" "simple_tree e1" "stems_from e e1" "\<And>E. sem E e1 = sem E e"
    using simplify_correct [OF assms(1)] by blast
  let ?c = "expr_evaluate_condition resident e1"
  have from_e: "stems_from e ?c" using e1(3) stems_from_evaluate_condition stems_from_trans by blast
  have "\<exists>e'. expr_normalize L ?c = Some e' \<and> normal_form e' \<and> expr_syms e' \<subseteq> expr_syms ?c \<and>
      (\<forall>E. ports_inj E \<longrightarrow> sem E e' = sem E ?c)"
    by (intro normalize_simple_ok simple_tree_evaluate_condition no_cond_evaluate_condition e1(2)
        stems_from_strings [OF from_e assms(2)] well_named_mono [OF assms(3) stems_from_syms [OF from_e]])
  then show ?thesis using e1(1,4) sem_evaluate_condition stems_from_syms [OF from_e] by (metis order_trans)
qed

end

end
