(* ===== verification/Ovs_Match.thy ===== *)
theory Ovs_Match
  imports Ovs_Flow
begin

text \<open>
  Open vSwitch's \<open>struct match\<close> as OVN uses it.  A match is a value of a type variable; the routines
  that build, compare and refine matches are a record of parameters.  The locale \<open>match_api\<close>
  states what they do to the set of packets that a match admits (\<open>hits\<close>) and to the set of fields
  it constrains (\<open>used\<close>); the \<open>conj_id\<close> metadata field, which the code reads directly, is not
  part of a packet here but compared separately.
\<close>

record 'm match_ops =
  match_init_catchall :: 'm
  match_hash :: "'m \<Rightarrow> nat"
  match_equal :: "'m \<Rightarrow> 'm \<Rightarrow> bool"
  mf_mask_subfield :: "mf_field \<Rightarrow> mf_subvalue \<Rightarrow> mf_subvalue \<Rightarrow> 'm \<Rightarrow> 'm"
  mf_write_subfield :: "mf_field \<Rightarrow> nat \<Rightarrow> nat \<Rightarrow> mf_subvalue \<Rightarrow> 'm \<Rightarrow> 'm"
  match_set_conj_id :: "'m \<Rightarrow> nat \<Rightarrow> 'm"
  wc_masks_conj_id :: "'m \<Rightarrow> nat"  \<comment> \<open>\<open>wc.masks.conj_id\<close>\<close>
  flow_conj_id :: "'m \<Rightarrow> nat"  \<comment> \<open>\<open>flow.conj_id\<close>\<close>
  put_flow_conj_id :: "'m \<Rightarrow> nat \<Rightarrow> 'm"  \<comment> \<open>assignment to \<open>flow.conj_id\<close>\<close>
  mff_conj_id :: nat  \<comment> \<open>\<open>MFF_CONJ_ID\<close>\<close>
  x2nrealloc :: "nat \<Rightarrow> nat"  \<comment> \<open>the capacity \<open>x2nrealloc\<close> grows an array to\<close>

locale match_api = flow_api F for F :: "'fl flow_ops" +
  fixes M :: "'m match_ops"
    and hits :: "'m \<Rightarrow> 'fl \<Rightarrow> bool"
    and used :: "'m \<Rightarrow> mf_field set"
    and overlap :: "mf_field \<Rightarrow> mf_field \<Rightarrow> bool"
  assumes equal: "match_equal M a b \<longleftrightarrow> a = b"
    and catchall: "hits (match_init_catchall M) fl" "used (match_init_catchall M) = {}"
      "wc_masks_conj_id M (match_init_catchall M) = 0"
    and mask_hits: "mf_id f \<noteq> mff_conj_id M \<Longrightarrow> \<forall>g \<in> used m. \<not> overlap f g \<Longrightarrow> mk < 2 ^ mf_n_bits f \<Longrightarrow>
      hits (mf_mask_subfield M f v mk m) fl \<longleftrightarrow> hits m fl \<and> mf_get_value F f fl AND mk = v AND mk"
    and mask_used: "used (mf_mask_subfield M f v mk m) = insert f (used m)"
    and mask_conj: "mf_id f \<noteq> mff_conj_id M \<Longrightarrow>
      wc_masks_conj_id M (mf_mask_subfield M f v mk m) = wc_masks_conj_id M m"
    and write_hits: "mf_id f \<noteq> mff_conj_id M \<Longrightarrow> \<forall>g \<in> used m. \<not> overlap f g \<Longrightarrow>
      hits (mf_write_subfield M f 0 (mf_n_bits f) v m) fl \<longleftrightarrow>
        hits m fl \<and> mf_get_value F f fl = take_bit (mf_n_bits f) v"
    and write_used: "used (mf_write_subfield M f 0 (mf_n_bits f) v m) = insert f (used m)"
    and write_conj: "mf_id f \<noteq> mff_conj_id M \<Longrightarrow>
      wc_masks_conj_id M (mf_write_subfield M f 0 (mf_n_bits f) v m) = wc_masks_conj_id M m"
    and set_conj_id: "hits (match_set_conj_id M m i) fl = hits m fl"
      "wc_masks_conj_id M (match_set_conj_id M m i) \<noteq> 0" "flow_conj_id M (match_set_conj_id M m i) = i"
    and put_conj_id: "hits (put_flow_conj_id M m i) fl = hits m fl"
      "wc_masks_conj_id M (put_flow_conj_id M m i) = wc_masks_conj_id M m"
      "flow_conj_id M (put_flow_conj_id M m i) = i"
    and realloc_grows: "n < x2nrealloc M n"

section \<open>A reference instance\<close>

text \<open>Matches as lists of masked field values, one per field, with an optional \<open>conj_id\<close>.\<close>

record ref_match =
  rm_fields :: "(mf_field \<times> nat \<times> nat) list"
  rm_conj_id :: nat
  rm_conj_mask :: nat

definition rm_set :: "mf_field \<Rightarrow> nat \<Rightarrow> nat \<Rightarrow> ref_match \<Rightarrow> ref_match" where
  "rm_set f v mk m = m\<lparr>rm_fields := (f, v, mk) # filter (\<lambda>(g, _). g \<noteq> f) (rm_fields m)\<rparr>"

definition rm_hits :: "ref_match \<Rightarrow> (nat \<Rightarrow> nat) \<Rightarrow> bool" where
  "rm_hits m fl \<longleftrightarrow> list_all (\<lambda>(f, v, mk). mf_get_value ref_flow f fl AND mk = v AND mk) (rm_fields m)"

definition rm_used :: "ref_match \<Rightarrow> mf_field set" where
  "rm_used m = fst ` set (rm_fields m)"

definition ref_matches :: "ref_match match_ops" where
  "ref_matches = \<lparr>
     match_init_catchall = \<lparr>rm_fields = [], rm_conj_id = 0, rm_conj_mask = 0\<rparr>,
     match_hash = (\<lambda>m. length (rm_fields m)),
     match_equal = (=),
     mf_mask_subfield = rm_set,
     mf_write_subfield = (\<lambda>f ofs n v. rm_set f (push_bit ofs (take_bit n v)) (bit_range ofs (ofs + n))),
     match_set_conj_id = (\<lambda>m i. m\<lparr>rm_conj_id := i, rm_conj_mask := 2 ^ 32 - 1\<rparr>),
     wc_masks_conj_id = rm_conj_mask,
     flow_conj_id = rm_conj_id,
     put_flow_conj_id = (\<lambda>m i. m\<lparr>rm_conj_id := i\<rparr>),
     mff_conj_id = 0,
     x2nrealloc = (\<lambda>n. if n = 0 then 1 else 2 * n)\<rparr>"

definition same_field :: "mf_field \<Rightarrow> mf_field \<Rightarrow> bool" where
  "same_field f g \<longleftrightarrow> mf_id f = mf_id g"

lemma rm_set_hits:
  assumes "\<forall>g \<in> rm_used m. \<not> same_field f g"
  shows "rm_hits (rm_set f v mk m) fl \<longleftrightarrow> rm_hits m fl \<and> mf_get_value ref_flow f fl AND mk = v AND mk"
proof -
  have "filter (\<lambda>(g, _). g \<noteq> f) (rm_fields m) = rm_fields m"
    using assms by (force simp: filter_id_conv rm_used_def same_field_def)
  then show ?thesis by (auto simp: rm_hits_def rm_set_def)
qed

lemma rm_set_used: "rm_used (rm_set f v mk m) = insert f (rm_used m)"
  by (force simp: rm_used_def rm_set_def)

interpretation rmatch: match_api ref_flow ref_matches rm_hits rm_used same_field
proof
  fix f :: mf_field and m :: ref_match and v fl
  assume "\<forall>g \<in> rm_used m. \<not> same_field f g"
  moreover have "mf_get_value ref_flow f fl AND bit_range 0 (mf_n_bits f) = mf_get_value ref_flow f fl"
    "take_bit n v AND bit_range 0 n = take_bit n v" for n
    by (auto simp: ref_flow_def bit_eq_iff bit_simps)
  ultimately show "rm_hits (mf_write_subfield ref_matches f 0 (mf_n_bits f) v m) fl \<longleftrightarrow>
      rm_hits m fl \<and> mf_get_value ref_flow f fl = take_bit (mf_n_bits f) v"
    using rm_set_hits by (simp add: ref_matches_def)
qed (auto simp: ref_matches_def rm_set_hits rm_set_used, auto simp: rm_set_def rm_hits_def rm_used_def)

end
