(* ===== verification/Expr_Matches.thy ===== *)
theory Expr_Matches
  imports Expr_Normalize Ovs_Match
begin

text \<open>
  Translation of a normalized expression into OpenFlow matches (\<open>expr_to_matches\<close> of \<open>lib/expr.c\<close>).
  A disjunction of conjunctions becomes a table of flows: ordinary flows, conjunctive flows that
  carry \<open>conjunction(id, k/n)\<close> actions, and flows that match on the \<open>conj_id\<close> of a satisfied
  conjunctive match.
\<close>

section \<open>Flows\<close>

text \<open>\<open>struct cls_conjunction\<close>; the identifier is a \<open>uint32_t\<close>, the clause numbers are \<open>uint8_t\<close>.\<close>

record cls_conjunction =
  cj_id :: nat
  cj_clause :: nat
  cj_n_clauses :: nat

text \<open>\<open>struct expr_match\<close>; \<open>n\<close> is the length of the list of conjunctions.\<close>

record 'm expr_match =
  em_match :: 'm
  em_conjunctions :: "cls_conjunction list"
  em_allocated :: nat
  em_as_name :: "string option"
  em_as_ip :: nat
  em_as_mask :: nat

definition expr_match_new :: "'m match_ops \<Rightarrow> 'm option \<Rightarrow> nat \<Rightarrow> nat \<Rightarrow> nat \<Rightarrow> 'm expr_match" where
  "expr_match_new M m clause n_clauses conj_id =
     \<lparr>em_match = (case m of Some m' \<Rightarrow> m' | None \<Rightarrow> match_init_catchall M),
      em_conjunctions =
        (if conj_id \<noteq> 0 then [\<lparr>cj_id = conj_id, cj_clause = clause, cj_n_clauses = n_clauses\<rparr>] else []),
      em_allocated = (if conj_id \<noteq> 0 then 1 else 0),
      em_as_name = None, em_as_ip = 0, em_as_mask = 0\<rparr>"

text \<open>Adding a match to the table; \<open>None\<close> if the assertion on its conjunctions fails.\<close>

fun expr_match_add :: "'m match_ops \<Rightarrow> 'm expr_match list \<Rightarrow> 'm expr_match \<Rightarrow> 'm expr_match list option" where
  "expr_match_add M [] match = Some [match]"
| "expr_match_add M (m # matches) match =
     (if match_hash M (em_match m) = match_hash M (em_match match) \<and>
         match_equal M (em_match m) (em_match match)
      then
        (let merged =
           (if em_conjunctions m = [] \<or> em_conjunctions match = []
            then Some (m\<lparr>em_conjunctions := [], em_allocated := 0\<rparr>)
            else if length (em_conjunctions match) \<noteq> 1 then None
            else Some (m\<lparr>em_allocated := (if length (em_conjunctions m) \<ge> em_allocated m
                                         then x2nrealloc M (em_allocated m) else em_allocated m),
                         em_conjunctions := em_conjunctions m @ [hd (em_conjunctions match)]\<rparr>))
         in map_option (\<lambda>m'. m'\<lparr>em_as_name := None\<rparr> # matches) merged)
      else map_option ((#) m) (expr_match_add M matches match))"

section \<open>Translation\<close>

text \<open>
  \<open>constrain_match\<close>: the outer \<open>None\<close> is a failed assertion or a null field, the inner one is the
  result \<open>false\<close> for an unknown port.
\<close>

definition constrain_match ::
  "'m match_ops \<Rightarrow> (string \<Rightarrow> nat option) \<Rightarrow> expr \<Rightarrow> 'm \<Rightarrow> 'm option option" where
  "constrain_match M lookup_port e m =
     (case e of
        Cmp _ c \<Rightarrow>
          (case sym_field (cmp_symbol c) of
             None \<Rightarrow> None
           | Some field \<Rightarrow>
               if sym_width (cmp_symbol c) > 0
               then Some (Some (mf_mask_subfield M field (cmp_value c) (cmp_mask c) m))
               else Some (case lookup_port (cmp_string c) of
                            None \<Rightarrow> None
                          | Some port \<Rightarrow>
                              Some (mf_write_subfield M field 0 (mf_n_bits field) (take_bit 64 port) m)))
      | _ \<Rightarrow> None)"

text \<open>The part of \<open>add_disjunction\<close> that records the address set of a comparison.\<close>

definition track_as :: "expr \<Rightarrow> 'm expr_match \<Rightarrow> 'm expr_match option" where
  "track_as sub match =
     (case sub of
        Cmp (Some as) c \<Rightarrow>
          if sym_width (cmp_symbol c) = 0 then None
          else Some (match\<lparr>em_as_name := Some as, em_as_ip := take_bit 128 (cmp_value c),
                           em_as_mask := take_bit 128 (cmp_mask c)\<rparr>)
      | _ \<Rightarrow> Some match)"

fun add_disjunction_loop ::
  "'m match_ops \<Rightarrow> (string \<Rightarrow> nat option) \<Rightarrow> expr list \<Rightarrow> 'm \<Rightarrow> nat \<Rightarrow> nat \<Rightarrow> nat \<Rightarrow>
     'm expr_match list \<Rightarrow> nat \<Rightarrow> (nat \<times> 'm expr_match list) option" where
  "add_disjunction_loop M lk [] m clause n_clauses conj_id matches n = Some (n, matches)"
| "add_disjunction_loop M lk (sub # subs) m clause n_clauses conj_id matches n =
     do { match \<leftarrow> track_as sub (expr_match_new M (Some m) clause n_clauses conj_id);
          r \<leftarrow> constrain_match M lk sub (em_match match);
          case r of
            Some m' \<Rightarrow>
              do { matches' \<leftarrow> expr_match_add M matches (match\<lparr>em_match := m'\<rparr>);
                   add_disjunction_loop M lk subs m clause n_clauses conj_id matches' (Suc n) }
          | None \<Rightarrow> add_disjunction_loop M lk subs m clause n_clauses conj_id matches n }"

definition add_disjunction ::
  "'m match_ops \<Rightarrow> (string \<Rightarrow> nat option) \<Rightarrow> expr \<Rightarrow> 'm \<Rightarrow> nat \<Rightarrow> nat \<Rightarrow> nat \<Rightarrow>
     'm expr_match list \<Rightarrow> (bool \<times> 'm expr_match list) option" where
  "add_disjunction M lk e m clause n_clauses conj_id matches =
     (case e of
        Andor J_OR subs \<Rightarrow>
          map_option (\<lambda>(n, matches'). (n > 0, matches'))
            (add_disjunction_loop M lk subs m (clause mod 256) (n_clauses mod 256) conj_id matches 0)
      | _ \<Rightarrow> None)"

text \<open>
  The first loop of \<open>add_conjunction\<close>: constrains the match by the comparisons and counts the
  disjunctions; the inner \<open>None\<close> is the early return.
\<close>

fun conjunction_scan ::
  "'m match_ops \<Rightarrow> (string \<Rightarrow> nat option) \<Rightarrow> expr list \<Rightarrow> 'm \<Rightarrow> nat \<Rightarrow> ('m \<times> nat) option option" where
  "conjunction_scan M lk [] m n_clauses = Some (Some (m, n_clauses))"
| "conjunction_scan M lk (sub # subs) m n_clauses =
     (case sub of
        Cmp _ _ \<Rightarrow>
          do { r \<leftarrow> constrain_match M lk sub m;
               case r of None \<Rightarrow> Some None | Some m' \<Rightarrow> conjunction_scan M lk subs m' n_clauses }
      | Andor J_OR _ \<Rightarrow> conjunction_scan M lk subs m (Suc n_clauses)
      | _ \<Rightarrow> None)"

text \<open>The loop over the disjunctions when there is only one.\<close>

fun single_clause_loop ::
  "'m match_ops \<Rightarrow> (string \<Rightarrow> nat option) \<Rightarrow> expr list \<Rightarrow> 'm \<Rightarrow> 'm expr_match list \<Rightarrow> 'm expr_match list option" where
  "single_clause_loop M lk [] m matches = Some matches"
| "single_clause_loop M lk (sub # subs) m matches =
     (if is_junct J_OR sub then
        do { (_, matches') \<leftarrow> add_disjunction M lk sub m 0 0 0 matches;
             single_clause_loop M lk subs m matches' }
      else single_clause_loop M lk subs m matches)"

text \<open>The loop over several disjunctions; the flag is false after the early return.\<close>

fun clause_loop ::
  "'m match_ops \<Rightarrow> (string \<Rightarrow> nat option) \<Rightarrow> expr list \<Rightarrow> 'm \<Rightarrow> nat \<Rightarrow> nat \<Rightarrow> nat \<Rightarrow>
     'm expr_match list \<Rightarrow> (bool \<times> 'm expr_match list) option" where
  "clause_loop M lk [] m clause n_clauses conj_id matches = Some (True, matches)"
| "clause_loop M lk (sub # subs) m clause n_clauses conj_id matches =
     (if is_junct J_OR sub then
        do { (ok, matches') \<leftarrow> add_disjunction M lk sub m clause n_clauses conj_id matches;
             if ok then clause_loop M lk subs m (Suc clause) n_clauses conj_id matches'
             else Some (False, matches') }
      else clause_loop M lk subs m clause n_clauses conj_id matches)"

definition add_conjunction ::
  "'m match_ops \<Rightarrow> (string \<Rightarrow> nat option) \<Rightarrow> expr \<Rightarrow> nat \<Rightarrow> 'm expr_match list \<Rightarrow>
     (nat \<times> 'm expr_match list) option" where
  "add_conjunction M lk e n_conjs matches =
     (case e of
        Andor J_AND subs \<Rightarrow>
          do { r \<leftarrow> conjunction_scan M lk subs (match_init_catchall M) 0;
               case r of
                 None \<Rightarrow> Some (n_conjs, matches)
               | Some (m, n_clauses) \<Rightarrow>
                   if n_clauses = 0 then
                     map_option (Pair n_conjs) (expr_match_add M matches (expr_match_new M (Some m) 0 0 0))
                   else if n_clauses = 1 then
                     map_option (Pair n_conjs) (single_clause_loop M lk subs m matches)
                   else
                     (let n_conjs' = (n_conjs + 1) mod 2 ^ 32
                      in do { (ok, matches') \<leftarrow> clause_loop M lk subs m 0 n_clauses n_conjs' matches;
                              if \<not> ok then Some (n_conjs', matches')
                              else map_option (Pair n_conjs')
                                (expr_match_add M matches'
                                  (expr_match_new M (Some (match_set_conj_id M m n_conjs')) 0 0 0)) }) }
      | _ \<Rightarrow> None)"

definition add_cmp_flow ::
  "'m match_ops \<Rightarrow> (string \<Rightarrow> nat option) \<Rightarrow> expr \<Rightarrow> 'm expr_match list \<Rightarrow> 'm expr_match list option" where
  "add_cmp_flow M lk cmp matches =
     (let m = expr_match_new M None 0 0 0
      in do { r \<leftarrow> constrain_match M lk cmp (em_match m);
              case r of
                Some m' \<Rightarrow> expr_match_add M matches (m\<lparr>em_match := m'\<rparr>)
              | None \<Rightarrow> Some matches })"

text \<open>The loops of \<open>expr_to_matches\<close> over the terms of a disjunction.\<close>

fun add_cmp_flows ::
  "'m match_ops \<Rightarrow> (string \<Rightarrow> nat option) \<Rightarrow> expr list \<Rightarrow> 'm expr_match list \<Rightarrow> 'm expr_match list option" where
  "add_cmp_flows M lk [] matches = Some matches"
| "add_cmp_flows M lk (sub # subs) matches =
     do { matches' \<leftarrow> add_cmp_flow M lk sub matches; add_cmp_flows M lk subs matches' }"

fun add_terms ::
  "'m match_ops \<Rightarrow> (string \<Rightarrow> nat option) \<Rightarrow> expr list \<Rightarrow> nat \<Rightarrow> 'm expr_match list \<Rightarrow>
     (nat \<times> 'm expr_match list) option" where
  "add_terms M lk [] n_conjs matches = Some (n_conjs, matches)"
| "add_terms M lk (sub # subs) n_conjs matches =
     (if is_junct J_AND sub then
        do { (n_conjs', matches') \<leftarrow> add_conjunction M lk sub n_conjs matches;
             add_terms M lk subs n_conjs' matches' }
      else do { matches' \<leftarrow> add_cmp_flow M lk sub matches; add_terms M lk subs n_conjs matches' })"

definition expr_to_matches ::
  "'m match_ops \<Rightarrow> (string \<Rightarrow> nat option) \<Rightarrow> expr \<Rightarrow> (nat \<times> 'm expr_match list) option" where
  "expr_to_matches M lk e =
     (case e of
        Cmp _ _ \<Rightarrow> map_option (Pair 0) (add_cmp_flow M lk e [])
      | Andor J_AND _ \<Rightarrow> add_conjunction M lk e 0 []
      | Andor J_OR subs \<Rightarrow>
          if expr_get_unique_symbol e \<noteq> None then map_option (Pair 0) (add_cmp_flows M lk subs [])
          else add_terms M lk subs 0 []
      | Boolean b \<Rightarrow>
          if b then map_option (Pair 0) (expr_match_add M [] (expr_match_new M None 0 0 0))
          else Some (0, [])
      | Condition _ _ _ \<Rightarrow> None)"

text \<open>
  \<open>expr_matches_prepare\<close> shifts the conjunction identifiers by an offset (\<open>uint32_t\<close> addition) and
  adds up the memory in use; the sizes of the C structures are arguments.
\<close>

definition prepare_match :: "'m match_ops \<Rightarrow> nat \<Rightarrow> 'm expr_match \<Rightarrow> 'm expr_match" where
  "prepare_match M conj_id_ofs m =
     m\<lparr>em_match := (if wc_masks_conj_id M (em_match m) \<noteq> 0
                    then put_flow_conj_id M (em_match m)
                           ((flow_conj_id M (em_match m) + conj_id_ofs) mod 2 ^ 32)
                    else em_match m),
       em_conjunctions := map (\<lambda>c. c\<lparr>cj_id := (cj_id c + conj_id_ofs) mod 2 ^ 32\<rparr>) (em_conjunctions m)\<rparr>"

definition expr_matches_prepare ::
  "'m match_ops \<Rightarrow> nat \<Rightarrow> nat \<Rightarrow> nat \<Rightarrow> 'm expr_match list \<Rightarrow> nat \<Rightarrow> nat \<times> 'm expr_match list" where
  "expr_matches_prepare M sizeof_hmap sizeof_match sizeof_conj matches conj_id_ofs =
     (sizeof_hmap + sum_list (map (\<lambda>m. sizeof_match + em_allocated m * sizeof_conj) matches),
      map (prepare_match M conj_id_ofs) matches)"

section \<open>What a table of flows accepts\<close>

text \<open>
  A packet is first looked up with \<open>conj_id\<close> 0.  If for some conjunction \<open>i\<close> with \<open>n\<close> clauses every
  clause has a flow that the packet matches, it is also looked up with \<open>conj_id\<close> \<open>i\<close>.  The table
  accepts the packet if one of these lookups finds a flow without conjunctions.
\<close>

definition flow_hit :: "'m match_ops \<Rightarrow> ('m \<Rightarrow> 'fl \<Rightarrow> bool) \<Rightarrow> 'fl \<Rightarrow> nat \<Rightarrow> 'm expr_match \<Rightarrow> bool" where
  "flow_hit M hits fl i m \<longleftrightarrow> hits (em_match m) fl \<and>
     (wc_masks_conj_id M (em_match m) = 0 \<or> flow_conj_id M (em_match m) = i)"

definition plain_hit :: "'m match_ops \<Rightarrow> ('m \<Rightarrow> 'fl \<Rightarrow> bool) \<Rightarrow> 'm expr_match list \<Rightarrow> 'fl \<Rightarrow> nat \<Rightarrow> bool" where
  "plain_hit M hits ms fl i \<longleftrightarrow> (\<exists>m \<in> set ms. em_conjunctions m = [] \<and> flow_hit M hits fl i m)"

definition clause_hit ::
  "'m match_ops \<Rightarrow> ('m \<Rightarrow> 'fl \<Rightarrow> bool) \<Rightarrow> 'm expr_match list \<Rightarrow> 'fl \<Rightarrow> cls_conjunction \<Rightarrow> bool" where
  "clause_hit M hits ms fl c \<longleftrightarrow> (\<exists>m \<in> set ms. c \<in> set (em_conjunctions m) \<and> flow_hit M hits fl 0 m)"

definition conj_complete ::
  "'m match_ops \<Rightarrow> ('m \<Rightarrow> 'fl \<Rightarrow> bool) \<Rightarrow> 'm expr_match list \<Rightarrow> 'fl \<Rightarrow> nat \<Rightarrow> nat \<Rightarrow> bool" where
  "conj_complete M hits ms fl i n \<longleftrightarrow> 0 < n \<and>
     (\<forall>k < n. clause_hit M hits ms fl \<lparr>cj_id = i, cj_clause = k, cj_n_clauses = n\<rparr>)"

definition table_accepts :: "'m match_ops \<Rightarrow> ('m \<Rightarrow> 'fl \<Rightarrow> bool) \<Rightarrow> 'm expr_match list \<Rightarrow> 'fl \<Rightarrow> bool" where
  "table_accepts M hits ms fl \<longleftrightarrow> plain_hit M hits ms fl 0 \<or>
     (\<exists>i n. conj_complete M hits ms fl i n \<and> plain_hit M hits ms fl i)"

lemma flow_hit_update [simp]:
  "flow_hit M hits fl i (m\<lparr>em_conjunctions := c\<rparr>) = flow_hit M hits fl i m"
  "flow_hit M hits fl i (m\<lparr>em_allocated := a\<rparr>) = flow_hit M hits fl i m"
  "flow_hit M hits fl i (m\<lparr>em_as_name := n\<rparr>) = flow_hit M hits fl i m"
  by (simp_all add: flow_hit_def)

lemma plain_hit_append [simp]:
  "plain_hit M hits (xs @ ys) fl i \<longleftrightarrow> plain_hit M hits xs fl i \<or> plain_hit M hits ys fl i"
  by (auto simp: plain_hit_def)

lemma plain_hit_simps [simp]:
  "\<not> plain_hit M hits [] fl i"
  "plain_hit M hits (m # ms) fl i \<longleftrightarrow> em_conjunctions m = [] \<and> flow_hit M hits fl i m \<or> plain_hit M hits ms fl i"
  by (auto simp: plain_hit_def)

lemma clause_hit_append [simp]:
  "clause_hit M hits (xs @ ys) fl c \<longleftrightarrow> clause_hit M hits xs fl c \<or> clause_hit M hits ys fl c"
  by (auto simp: clause_hit_def)

lemma clause_hit_simps [simp]:
  "\<not> clause_hit M hits [] fl c"
  "clause_hit M hits (m # ms) fl c \<longleftrightarrow> c \<in> set (em_conjunctions m) \<and> flow_hit M hits fl 0 m \<or> clause_hit M hits ms fl c"
  by (auto simp: clause_hit_def)

text \<open>One table stands for another up to conjunctions that a plain flow makes superfluous.\<close>

definition stands_for :: "'m match_ops \<Rightarrow> ('m \<Rightarrow> 'fl \<Rightarrow> bool) \<Rightarrow> 'm expr_match list \<Rightarrow> 'm expr_match list \<Rightarrow> bool" where
  "stands_for M hits ms ms' \<longleftrightarrow> (\<forall>fl.
     (\<forall>i. plain_hit M hits ms fl i = plain_hit M hits ms' fl i) \<and>
     (\<forall>c. clause_hit M hits ms fl c \<longrightarrow> clause_hit M hits ms' fl c) \<and>
     (\<forall>c. clause_hit M hits ms' fl c \<longrightarrow> clause_hit M hits ms fl c \<or> plain_hit M hits ms' fl 0))"

lemma stands_for_refl [simp]: "stands_for M hits ms ms"
  by (simp add: stands_for_def)

lemma stands_for_trans: "stands_for M hits a b \<Longrightarrow> stands_for M hits b c \<Longrightarrow> stands_for M hits a c"
  by (simp add: stands_for_def) blast

lemma stands_for_append: "stands_for M hits a b \<Longrightarrow> stands_for M hits (a @ x) (b @ x)"
  by (simp add: stands_for_def) blast

lemma stands_for_Cons: "stands_for M hits a b \<Longrightarrow> stands_for M hits (x # a) (x # b)"
  by (simp add: stands_for_def) blast

lemma stands_for_accepts:
  assumes "stands_for M hits ms ms'"
  shows "table_accepts M hits ms fl = table_accepts M hits ms' fl"
proof -
  have plain: "plain_hit M hits ms fl i = plain_hit M hits ms' fl i" for i
    using assms by (simp add: stands_for_def)
  have "conj_complete M hits ms' fl i n" if "conj_complete M hits ms fl i n" for i n
    using that assms by (simp add: stands_for_def conj_complete_def)
  moreover have "conj_complete M hits ms fl i n" if "conj_complete M hits ms' fl i n" "\<not> plain_hit M hits ms' fl 0" for i n
    using that assms unfolding stands_for_def conj_complete_def by blast
  ultimately show ?thesis unfolding table_accepts_def plain by blast
qed

section \<open>Adding flows to the table\<close>

fun add_all :: "'m match_ops \<Rightarrow> 'm expr_match list \<Rightarrow> 'm expr_match list \<Rightarrow> 'm expr_match list option" where
  "add_all M ms [] = Some ms"
| "add_all M ms (x # xs) = do { ms' \<leftarrow> expr_match_add M ms x; add_all M ms' xs }"

lemma add_all_append: "add_all M ms (xs @ ys) = do { ms' \<leftarrow> add_all M ms xs; add_all M ms' ys }"
proof (induction xs arbitrary: ms)
  case (Cons x xs)
  then show ?case by (cases "expr_match_add M ms x") auto
qed simp

text \<open>
  The invariant of the table: no two entries have the same match, and the conjunctions of an entry
  fit into the array allocated for them.
\<close>

definition table_inv :: "'m expr_match list \<Rightarrow> bool" where
  "table_inv ms \<longleftrightarrow> distinct (map em_match ms) \<and> (\<forall>m \<in> set ms. length (em_conjunctions m) \<le> em_allocated m)"

context match_api
begin

lemma expr_match_add_ok:
  assumes "length (em_conjunctions x) \<le> 1"
  shows "\<exists>ms'. expr_match_add M ms x = Some ms' \<and> stands_for M hits ms' (ms @ [x])"
proof (induction ms)
  case (Cons m ms)
  show ?case
  proof (cases "em_match m = em_match x")
    case False
    then show ?thesis using Cons stands_for_Cons [of M hits _ "ms @ [x]" m] by (auto simp: equal)
  next
    case True
    then have hit: "flow_hit M hits fl i m = flow_hit M hits fl i x" for fl i
      by (simp add: flow_hit_def)
    show ?thesis
    proof (cases "em_conjunctions m = [] \<or> em_conjunctions x = []")
      case True
      then show ?thesis
        using \<open>em_match m = em_match x\<close> by (auto simp: equal Let_def stands_for_def hit)
    next
      case False
      then obtain c where "em_conjunctions x = [c]" using assms by (cases "em_conjunctions x") auto
      then show ?thesis
        using False \<open>em_match m = em_match x\<close> by (auto simp: equal Let_def stands_for_def hit)
    qed
  qed
qed simp

lemma expr_match_add_inv:
  assumes "table_inv ms" "length (em_conjunctions x) \<le> em_allocated x"
    and "expr_match_add M ms x = Some ms'"
  shows "table_inv ms' \<and> em_match ` set ms' = insert (em_match x) (em_match ` set ms)"
  using assms
proof (induction ms arbitrary: ms')
  case (Cons m ms)
  have grows: "Suc (length (em_conjunctions m)) \<le> x2nrealloc M (em_allocated m)"
    if "length (em_conjunctions m) = em_allocated m"
    using realloc_grows [of "em_allocated m"] that by simp
  show ?case
  proof (cases "em_match m = em_match x")
    case True
    then show ?thesis
      using Cons.prems grows by (auto simp: table_inv_def equal Let_def split: if_splits)
  next
    case False
    then obtain ms2 where "expr_match_add M ms x = Some ms2" "ms' = m # ms2"
      using Cons.prems(3) by (auto simp: equal)
    moreover have "table_inv ms" using Cons.prems(1) by (simp add: table_inv_def)
    ultimately show ?thesis
      using Cons.IH [of ms2] Cons.prems(1,2) False by (auto simp: table_inv_def)
  qed
qed (auto simp: table_inv_def)

lemma add_all_ok:
  assumes "\<forall>x \<in> set xs. length (em_conjunctions x) \<le> 1"
  shows "\<exists>ms'. add_all M ms xs = Some ms' \<and> stands_for M hits ms' (ms @ xs)"
  using assms
proof (induction xs arbitrary: ms)
  case (Cons x xs)
  obtain ms1 where ms1: "expr_match_add M ms x = Some ms1" "stands_for M hits ms1 (ms @ [x])"
    using expr_match_add_ok Cons.prems by force
  obtain ms2 where ms2: "add_all M ms1 xs = Some ms2" "stands_for M hits ms2 (ms1 @ xs)"
    using Cons.IH Cons.prems by force
  have "stands_for M hits ms2 ((ms @ [x]) @ xs)"
    using stands_for_trans [OF ms2(2) stands_for_append [OF ms1(2)]] .
  then show ?case using ms1(1) ms2(1) by simp
qed simp

lemma add_all_inv:
  assumes "table_inv ms" "\<forall>x \<in> set xs. length (em_conjunctions x) \<le> em_allocated x"
    and "add_all M ms xs = Some ms'"
  shows "table_inv ms'"
  using assms
proof (induction xs arbitrary: ms)
  case (Cons x xs)
  then obtain ms1 where "expr_match_add M ms x = Some ms1" "add_all M ms1 xs = Some ms'"
    by (auto simp: bind_eq_Some_conv)
  moreover from this have "table_inv ms1" using expr_match_add_inv [of ms x ms1] Cons.prems by simp
  ultimately show ?case using Cons by simp
qed simp

end

section \<open>Translation of comparisons\<close>

text \<open>
  The symbols of an expression that can become a match: each stands for a whole field other than
  \<open>conj_id\<close>, and different symbols stand for fields that do not overlap.
\<close>

definition sym_ok :: "'m match_ops \<Rightarrow> (string \<Rightarrow> nat option) \<Rightarrow> expr_symbol \<Rightarrow> bool" where
  "sym_ok M lk s \<longleftrightarrow> (case sym_field s of
     None \<Rightarrow> False
   | Some f \<Rightarrow> mf_id f \<noteq> mff_conj_id M \<and> sym_width s \<le> mf_n_bits f \<and>
       (sym_width s = 0 \<longrightarrow> (\<forall>x p. lk x = Some p \<longrightarrow> p < 2 ^ 32 \<and> p < 2 ^ mf_n_bits f)))"

definition apart :: "(mf_field \<Rightarrow> mf_field \<Rightarrow> bool) \<Rightarrow> expr_symbol \<Rightarrow> expr_symbol \<Rightarrow> bool" where
  "apart overlap s t \<longleftrightarrow> (\<forall>f g. sym_field s = Some f \<longrightarrow> sym_field t = Some g \<longrightarrow> \<not> overlap f g)"

definition syms_ok ::
  "'m match_ops \<Rightarrow> (string \<Rightarrow> nat option) \<Rightarrow> (mf_field \<Rightarrow> mf_field \<Rightarrow> bool) \<Rightarrow> expr_symbol set \<Rightarrow> bool" where
  "syms_ok M lk overlap X \<longleftrightarrow> (\<forall>s \<in> X. sym_ok M lk s) \<and> (\<forall>s \<in> X. \<forall>t \<in> X. s \<noteq> t \<longrightarrow> apart overlap s t)"

lemma syms_ok_mono: "syms_ok M lk overlap Y \<Longrightarrow> X \<subseteq> Y \<Longrightarrow> syms_ok M lk overlap X"
  by (auto simp: syms_ok_def)

text \<open>An address set name occurs on numeric comparisons only.\<close>

fun names_numeric :: "expr \<Rightarrow> bool" where
  "names_numeric (Cmp as c) \<longleftrightarrow> (as \<noteq> None \<longrightarrow> sym_width (cmp_symbol c) > 0)"
| "names_numeric (Andor j es) \<longleftrightarrow> (\<forall>e \<in> set es. names_numeric e)"
| "names_numeric (Boolean b) \<longleftrightarrow> True"
| "names_numeric (Condition t n s) \<longleftrightarrow> True"

text \<open>The environment a packet gives: its field values, and the ports that are known.\<close>

definition env_of :: "'fl flow_ops \<Rightarrow> (string \<Rightarrow> nat option) \<Rightarrow> (string \<Rightarrow> bool) \<Rightarrow> 'fl \<Rightarrow> env" where
  "env_of F lk resident fl =
     \<lparr>env_sym = (\<lambda>s. case sym_field s of Some f \<Rightarrow> mf_get_value F f fl | None \<Rightarrow> 0),
      env_port = lk, env_resident = resident\<rparr>"

definition sym_fields :: "expr_symbol set \<Rightarrow> mf_field set" where
  "sym_fields X = {f. \<exists>s \<in> X. sym_field s = Some f}"

lemma apart_fields:
  assumes "syms_ok M lk overlap (insert s X)" "s \<notin> X" "sym_field s = Some f"
  shows "\<forall>g \<in> sym_fields X. \<not> overlap f g"
proof
  fix g assume "g \<in> sym_fields X"
  then obtain t where t: "t \<in> X" "sym_field t = Some g" by (auto simp: sym_fields_def)
  then have "s \<noteq> t" using assms(2) by auto
  then have "apart overlap s t" using assms(1) t by (auto simp: syms_ok_def)
  then show "\<not> overlap f g" using t assms(3) by (simp add: apart_def)
qed

definition conj_of :: "nat \<Rightarrow> nat \<Rightarrow> nat \<Rightarrow> cls_conjunction list" where
  "conj_of i k n = (if i \<noteq> 0 then [\<lparr>cj_id = i, cj_clause = k, cj_n_clauses = n\<rparr>] else [])"

text \<open>An event is a flow the translation adds to the table.\<close>

definition event_of :: "'m match_ops \<Rightarrow> cls_conjunction list \<Rightarrow> 'm expr_match \<Rightarrow> bool" where
  "event_of M cs x \<longleftrightarrow> em_conjunctions x = cs \<and> em_allocated x = length cs \<and> wc_masks_conj_id M (em_match x) = 0"

lemma event_of_new:
  "wc_masks_conj_id M m = 0 \<Longrightarrow> event_of M (conj_of i k n) (expr_match_new M (Some m) k n i)"
  by (simp add: event_of_def expr_match_new_def conj_of_def)

context match_api
begin

lemma constrain_match_ok:
  assumes good: "good_cmp s c" and syms: "syms_ok M lk overlap (insert s X)" "s \<notin> X"
    and m: "used m = sym_fields X" "wc_masks_conj_id M m = 0"
  shows "(constrain_match M lk (Cmp as c) m = Some None \<and> (\<forall>fl. \<not> sem_cmp (env_of F lk res fl) c)) \<or>
    (\<exists>m'. constrain_match M lk (Cmp as c) m = Some (Some m') \<and>
       used m' = sym_fields (insert s X) \<and> wc_masks_conj_id M m' = 0 \<and>
       (\<forall>fl. hits m' fl \<longleftrightarrow> hits m fl \<and> sem_cmp (env_of F lk res fl) c))"
proof -
  have sym: "cmp_symbol c = s" "cmp_relop c = EXPR_R_EQ" using good by (auto simp: good_cmp_def)
  have "sym_ok M lk s" using syms by (simp add: syms_ok_def)
  then obtain f where f: "sym_field s = Some f" "mf_id f \<noteq> mff_conj_id M" "sym_width s \<le> mf_n_bits f"
      "sym_width s = 0 \<Longrightarrow> lk x = Some p \<Longrightarrow> p < 2 ^ 32 \<and> p < 2 ^ mf_n_bits f" for x p
    by (auto simp: sym_ok_def split: option.splits)
  have free: "\<forall>g \<in> used m. \<not> overlap f g" unfolding m by (rule apart_fields [OF syms f(1)])
  have fields: "sym_fields (insert s X) = insert f (used m)" using m f(1) by (auto simp: sym_fields_def)
  show ?thesis
  proof (cases "sym_width s = 0")
    case True
    show ?thesis
    proof (cases "lk (cmp_string c)")
      case None
      then show ?thesis using sym f(1) True by (simp add: constrain_match_def sem_cmp_def env_of_def)
    next
      case (Some p)
      then have "p < 2 ^ 32" "p < 2 ^ mf_n_bits f" using f(4) True by auto
      then have "take_bit (mf_n_bits f) (take_bit 64 p) = p"
        by (simp add: take_bit_nat_eq_self)
      then show ?thesis
        using sym f(1) True Some write_hits [OF f(2) free] write_used write_conj [OF f(2)] fields m(2)
        by (simp add: constrain_match_def sem_cmp_def env_of_def)
    qed
  next
    case False
    then have c: "take_bit (sym_width s) (cmp_mask c) = cmp_mask c" "cmp_value c AND cmp_mask c = cmp_value c"
      using good sym by (auto simp: good_cmp_def simple_cmp_def)
    have "cmp_mask c < 2 ^ sym_width s" using c(1) by (metis take_bit_nat_less_exp)
    also have "\<dots> \<le> 2 ^ mf_n_bits f" using f(3) by simp
    finally show ?thesis
      using sym f(1) False c(2) mask_hits [OF f(2) free] mask_used mask_conj [OF f(2)] fields m(2)
      by (simp add: constrain_match_def sem_cmp_def env_of_def)
  qed
qed

text \<open>The flows of a disjunction of comparisons on one symbol.\<close>

lemma track_as_ok:
  "good_leaf s sub \<Longrightarrow> names_numeric sub \<Longrightarrow>
     \<exists>x'. track_as sub x = Some x' \<and> em_match x' = em_match x \<and> em_conjunctions x' = em_conjunctions x \<and>
       em_allocated x' = em_allocated x"
  by (auto simp: track_as_def elim!: good_leafE split: option.splits)

lemma add_disjunction_loop_ok:
  assumes "\<forall>sub \<in> set subs. good_leaf s sub \<and> names_numeric sub"
    and syms: "syms_ok M lk overlap (insert s X)" "s \<notin> X"
    and m: "used m = sym_fields X" "wc_masks_conj_id M m = 0"
  shows "\<exists>evs. (\<forall>ms n. add_disjunction_loop M lk subs m k nc i ms n =
        map_option (Pair (n + length evs)) (add_all M ms evs)) \<and>
      (\<forall>x \<in> set evs. event_of M (conj_of i k nc) x) \<and>
      (\<forall>fl. (\<exists>x \<in> set evs. hits (em_match x) fl) \<longleftrightarrow>
         hits m fl \<and> (\<exists>sub \<in> set subs. sem (env_of F lk res fl) sub))"
  using assms(1)
proof (induction subs)
  case Nil
  show ?case by (intro exI [of _ "[]"]) simp
next
  case (Cons sub subs)
  let ?sem = "\<lambda>fl e. sem (env_of F lk res fl) e"
  obtain evs where evs: "\<And>ms n. add_disjunction_loop M lk subs m k nc i ms n =
        map_option (Pair (n + length evs)) (add_all M ms evs)"
      "\<forall>x \<in> set evs. event_of M (conj_of i k nc) x"
      "\<And>fl. (\<exists>x \<in> set evs. hits (em_match x) fl) \<longleftrightarrow> hits m fl \<and> (\<exists>sub \<in> set subs. ?sem fl sub)"
    using Cons by auto
  obtain as c where c: "sub = Cmp as c" "good_cmp s c" using Cons.prems by (auto elim: good_leafE)
  let ?new = "expr_match_new M (Some m) k nc i"
  obtain x where x: "track_as sub ?new = Some x" "em_match x = m" "event_of M (conj_of i k nc) x"
    using track_as_ok [of s sub ?new] Cons.prems event_of_new [OF m(2)]
    by (auto simp: event_of_def expr_match_new_def)
  from constrain_match_ok [OF c(2) syms m, of as res]
  consider "constrain_match M lk sub m = Some None" "\<forall>fl. \<not> ?sem fl sub"
    | m' where "constrain_match M lk sub m = Some (Some m')" "wc_masks_conj_id M m' = 0"
        "\<And>fl. hits m' fl \<longleftrightarrow> hits m fl \<and> ?sem fl sub"
    unfolding c(1) by auto
  then show ?case
  proof cases
    case 1
    then show ?thesis using evs x by (intro exI [of _ evs]) auto
  next
    case (2 m')
    let ?x = "x\<lparr>em_match := m'\<rparr>"
    have "event_of M (conj_of i k nc) ?x" using x(3) 2(2) by (simp add: event_of_def)
    moreover have "add_disjunction_loop M lk (sub # subs) m k nc i ms n =
        map_option (Pair (n + length (?x # evs))) (add_all M ms (?x # evs))" for ms n
      using 2(1) x evs(1) by (cases "expr_match_add M ms ?x") auto
    moreover have "(\<exists>x \<in> set (?x # evs). hits (em_match x) fl) \<longleftrightarrow>
        hits m fl \<and> (\<exists>sub \<in> set (sub # subs). ?sem fl sub)" for fl
      using evs(3) [of fl] 2(3) [of fl] by auto
    ultimately show ?thesis using evs(2) by (intro exI [of _ "?x # evs"]) simp
  qed
qed

lemma add_disjunction_ok:
  assumes "\<forall>sub \<in> set subs. good_leaf s sub \<and> names_numeric sub"
    and "syms_ok M lk overlap (insert s X)" "s \<notin> X" "used m = sym_fields X" "wc_masks_conj_id M m = 0"
    and "k < 256" "nc < 256"
  obtains evs where "\<And>ms. add_disjunction M lk (Andor J_OR subs) m k nc i ms = map_option (Pair (evs \<noteq> [])) (add_all M ms evs)"
    and "\<forall>x \<in> set evs. event_of M (conj_of i k nc) x"
    and "\<And>fl. (\<exists>x \<in> set evs. hits (em_match x) fl) \<longleftrightarrow> hits m fl \<and> sem (env_of F lk res fl) (Andor J_OR subs)"
proof -
  obtain evs where evs: "\<And>ms n. add_disjunction_loop M lk subs m k nc i ms n =
        map_option (Pair (n + length evs)) (add_all M ms evs)"
      "\<forall>x \<in> set evs. event_of M (conj_of i k nc) x"
      "\<And>fl. (\<exists>x \<in> set evs. hits (em_match x) fl) \<longleftrightarrow> hits m fl \<and> sem (env_of F lk res fl) (Andor J_OR subs)"
    using add_disjunction_loop_ok [OF assms(1-5), of k nc i res] by auto
  show thesis
  proof
    show "add_disjunction M lk (Andor J_OR subs) m k nc i ms = map_option (Pair (evs \<noteq> [])) (add_all M ms evs)" for ms
      using evs(1) assms(6,7) by (cases "add_all M ms evs") (auto simp: add_disjunction_def)
  qed (use evs in auto)
qed

end

section \<open>Translation of conjunctions\<close>

lemma normal_clause_cases:
  assumes "normal_clause e"
  obtains (cmp) s as c where "e = Cmp as c" "good_cmp s c" "expr_get_unique_symbol e = Some s" "expr_syms e = {s}"
  | (disj) s subs where "e = Andor J_OR subs" "\<forall>sub \<in> set subs. good_leaf s sub"
      "expr_get_unique_symbol e = Some s" "expr_syms e = {s}"
proof -
  obtain s where s: "crushed s e" "e \<noteq> Boolean False" using assms by (auto simp: normal_clause_def)
  note unique = crushed_unique [OF s]
  from s(1) show thesis
  proof (cases rule: crushed_cases)
    case (cmp as c)
    then show thesis using that(1) unique by blast
  next
    case (disj ds)
    then show thesis using that(2) unique by (auto simp: flat_def)
  qed (use s(2) in simp)
qed

lemma normal_clause_sym: "normal_clause e \<Longrightarrow> s \<in> expr_syms e \<Longrightarrow> expr_get_unique_symbol e = Some s"
proof -
  assume "normal_clause e" and s: "s \<in> expr_syms e"
  then obtain t where "expr_get_unique_symbol e = Some t" "expr_syms e = {t}"
    by (cases rule: normal_clause_cases) auto
  then show ?thesis using s by simp
qed

definition ors_of :: "expr list \<Rightarrow> expr list" where
  "ors_of es = filter (is_junct J_OR) es"

definition cmps_of :: "expr list \<Rightarrow> expr list" where
  "cmps_of es = filter (\<lambda>e. \<not> is_junct J_OR e) es"

lemma ors_of_simps [simp]:
  "ors_of [] = []" "ors_of (Cmp as c # es) = ors_of es" "ors_of (Andor J_OR subs # es) = Andor J_OR subs # ors_of es"
  by (simp_all add: ors_of_def)

lemma cmps_of_simps [simp]:
  "cmps_of [] = []" "cmps_of (Cmp as c # es) = Cmp as c # cmps_of es" "cmps_of (Andor J_OR subs # es) = cmps_of es"
  by (simp_all add: cmps_of_def)

lemma ors_cmps: "set es = set (ors_of es) \<union> set (cmps_of es)"
  by (auto simp: ors_of_def cmps_of_def)

abbreviation syms_of :: "expr list \<Rightarrow> expr_symbol set" where
  "syms_of es \<equiv> \<Union>e \<in> set es. expr_syms e"

text \<open>The flows for the disjunctions of a conjunction, where \<open>S\<close> gives the meaning of expressions.\<close>

definition clause_flows ::
  "'m match_ops \<Rightarrow> ('m \<Rightarrow> 'fl \<Rightarrow> bool) \<Rightarrow> ('fl \<Rightarrow> expr \<Rightarrow> bool) \<Rightarrow> expr list \<Rightarrow> 'm \<Rightarrow> nat \<Rightarrow> nat \<Rightarrow> nat \<Rightarrow>
     'm expr_match list \<Rightarrow> bool" where
  "clause_flows M hits S es m k nc i evs \<longleftrightarrow>
     (\<forall>x \<in> set evs. \<exists>j \<ge> k. event_of M (conj_of i j nc) x) \<and>
     (\<forall>fl. \<forall>j < length (ors_of es).
       (\<exists>x \<in> set evs. em_conjunctions x = conj_of i (k + j) nc \<and> hits (em_match x) fl) \<longleftrightarrow>
         hits m fl \<and> S fl (ors_of es ! j))"

definition dead_clause ::
  "'m match_ops \<Rightarrow> ('m \<Rightarrow> 'fl \<Rightarrow> bool) \<Rightarrow> ('fl \<Rightarrow> expr \<Rightarrow> bool) \<Rightarrow> expr list \<Rightarrow> 'm \<Rightarrow> nat \<Rightarrow> nat \<Rightarrow> nat \<Rightarrow>
     'm expr_match list \<Rightarrow> bool" where
  "dead_clause M hits S es m k nc i evs \<longleftrightarrow>
     (\<forall>x \<in> set evs. \<exists>j \<ge> k. event_of M (conj_of i j nc) x) \<and>
     (\<forall>fl. hits m fl \<longrightarrow> (\<exists>e \<in> set (ors_of es). \<not> S fl e))"

lemma clause_flows_skip:
  "clause_flows M hits S es m k nc i evs \<Longrightarrow> ors_of es' = ors_of es \<Longrightarrow> clause_flows M hits S es' m k nc i evs"
  "dead_clause M hits S es m k nc i evs \<Longrightarrow> ors_of es' = ors_of es \<Longrightarrow> dead_clause M hits S es' m k nc i evs"
  by (simp_all add: clause_flows_def dead_clause_def)

lemma event_at_least:
  assumes "\<forall>x \<in> set ev1. event_of M (conj_of i k nc) x" "\<forall>x \<in> set ev2. \<exists>j \<ge> Suc k. event_of M (conj_of i j nc) x"
  shows "\<forall>x \<in> set (ev1 @ ev2). \<exists>j \<ge> k. event_of M (conj_of i j nc) x"
  using assms by (metis Suc_leD Un_iff le_refl set_append)

lemma clause_flows_Cons:
  assumes "i \<noteq> 0" "\<forall>x \<in> set ev1. event_of M (conj_of i k nc) x"
    and hit: "\<And>fl. (\<exists>x \<in> set ev1. hits (em_match x) fl) \<longleftrightarrow> hits m fl \<and> S fl e"
    and rest: "clause_flows M hits S es m (Suc k) nc i ev2" and "is_junct J_OR e"
  shows "clause_flows M hits S (e # es) m k nc i (ev1 @ ev2)"
  unfolding clause_flows_def
proof (intro conjI allI impI)
  show "\<forall>x \<in> set (ev1 @ ev2). \<exists>j \<ge> k. event_of M (conj_of i j nc) x"
    by (rule event_at_least [OF assms(2)]) (use rest in \<open>simp add: clause_flows_def\<close>)
  fix fl j assume j: "j < length (ors_of (e # es))"
  have inj: "conj_of i a nc = conj_of i b nc \<longleftrightarrow> a = b" for a b using assms(1) by (auto simp: conj_of_def)
  show "(\<exists>x \<in> set (ev1 @ ev2). em_conjunctions x = conj_of i (k + j) nc \<and> hits (em_match x) fl) \<longleftrightarrow>
    hits m fl \<and> S fl (ors_of (e # es) ! j)"
  proof (cases j)
    case 0
    have "\<forall>x \<in> set ev2. em_conjunctions x \<noteq> conj_of i k nc"
      using rest inj unfolding clause_flows_def event_of_def by fastforce
    moreover have "\<forall>x \<in> set ev1. em_conjunctions x = conj_of i k nc" using assms(2) by (simp add: event_of_def)
    ultimately show ?thesis using 0 hit [of fl] assms(5) by (auto simp: ors_of_def)
  next
    case (Suc j')
    then have "\<forall>x \<in> set ev1. em_conjunctions x \<noteq> conj_of i (k + j) nc"
      using assms(2) inj by (auto simp: event_of_def)
    moreover have "(\<exists>x \<in> set ev2. em_conjunctions x = conj_of i (Suc k + j') nc \<and> hits (em_match x) fl) \<longleftrightarrow>
        hits m fl \<and> S fl (ors_of es ! j')"
      using rest j Suc assms(5) by (simp add: clause_flows_def ors_of_def)
    ultimately show ?thesis using Suc assms(5) by (auto simp: ors_of_def)
  qed
qed

lemma dead_clause_Cons:
  assumes "\<forall>x \<in> set ev1. event_of M (conj_of i k nc) x" "dead_clause M hits S es m (Suc k) nc i ev2" "is_junct J_OR e"
  shows "dead_clause M hits S (e # es) m k nc i (ev1 @ ev2)"
  using event_at_least [OF assms(1), of ev2] assms(2,3) by (auto simp: dead_clause_def ors_of_def)

context match_api
begin

lemma conjunction_scan_ok:
  assumes "\<forall>e \<in> set es. normal_clause e" "distinct (map expr_get_unique_symbol es)"
    and "syms_ok M lk overlap (X \<union> syms_of es)" "X \<inter> syms_of es = {}"
    and "used m = sym_fields X" "wc_masks_conj_id M m = 0"
  shows "(conjunction_scan M lk es m n = Some None \<and> (\<forall>fl. \<exists>e \<in> set es. \<not> sem (env_of F lk res fl) e)) \<or>
    (\<exists>m'. conjunction_scan M lk es m n = Some (Some (m', n + length (ors_of es))) \<and>
       used m' = sym_fields (X \<union> syms_of (cmps_of es)) \<and> wc_masks_conj_id M m' = 0 \<and>
       (\<forall>fl. hits m' fl \<longleftrightarrow> hits m fl \<and> (\<forall>e \<in> set (cmps_of es). sem (env_of F lk res fl) e)))"
  using assms
proof (induction es arbitrary: m n X)
  case (Cons e es)
  have fresh: "s \<notin> syms_of es" if "expr_get_unique_symbol e = Some s" for s
  proof
    assume "s \<in> syms_of es"
    then obtain e' where "e' \<in> set es" "s \<in> expr_syms e'" by auto
    moreover from this have "expr_get_unique_symbol e' = Some s"
      using Cons.prems(1) normal_clause_sym by simp
    ultimately show False using Cons.prems(2) that by (metis distinct.simps(2) image_eqI list.map(2) list.set_map)
  qed
  have "normal_clause e" using Cons.prems(1) by simp
  then show ?case
  proof (cases rule: normal_clause_cases)
    case (cmp s as c)
    have "s \<notin> X" "syms_ok M lk overlap (insert s X)"
      using Cons.prems(3,4) cmp(4) by (auto elim: syms_ok_mono)
    from constrain_match_ok [OF cmp(2) this(2,1) Cons.prems(5,6), of as res]
    consider "constrain_match M lk e m = Some None" "\<And>fl. \<not> sem (env_of F lk res fl) e"
      | m' where "constrain_match M lk e m = Some (Some m')" "used m' = sym_fields (insert s X)" "wc_masks_conj_id M m' = 0"
        "\<And>fl. hits m' fl \<longleftrightarrow> hits m fl \<and> sem (env_of F lk res fl) e"
      unfolding cmp(1) by auto
    then show ?thesis
    proof cases
      case 1
      then show ?thesis using cmp(1) by auto
    next
      case (2 m')
      have "syms_ok M lk overlap (insert s X \<union> syms_of es)" "insert s X \<inter> syms_of es = {}"
        using Cons.prems(3,4) fresh [OF cmp(3)] cmp(4) by auto
      from Cons.IH [OF _ _ this 2(2,3), of n] show ?thesis
        using Cons.prems(1,2) 2 cmp by auto
    qed
  next
    case (disj s subs)
    have "syms_ok M lk overlap (X \<union> syms_of es)" using Cons.prems(3) by (rule syms_ok_mono) auto
    from Cons.IH [OF _ _ this _ Cons.prems(5,6), of "Suc n"] show ?thesis
      using Cons.prems(1,2,4) disj by auto
  qed
qed simp

lemma clause_loop_ok:
  assumes "\<forall>e \<in> set es. normal_clause e \<and> names_numeric e" "syms_of (ors_of es) \<inter> X = {}"
    and "syms_ok M lk overlap (X \<union> syms_of es)" "used m = sym_fields X" "wc_masks_conj_id M m = 0"
    and "k + length (ors_of es) \<le> nc" "nc < 256" "i \<noteq> 0"
  shows "\<exists>ok evs. (\<forall>ms. clause_loop M lk es m k nc i ms = map_option (Pair ok) (add_all M ms evs)) \<and>
    (if ok then clause_flows M hits (\<lambda>fl. sem (env_of F lk res fl)) es m k nc i evs
     else dead_clause M hits (\<lambda>fl. sem (env_of F lk res fl)) es m k nc i evs)"
    (is "\<exists>ok evs. ?run es k ok evs \<and> (if ok then ?flows es k evs else ?dead es k evs)")
  using assms
proof (induction es arbitrary: k)
  case Nil
  show ?case by (intro exI [of _ True] exI [of _ "[]"]) (simp add: clause_flows_def)
next
  case (Cons e es)
  have "normal_clause e" using Cons.prems(1) by simp
  then show ?case
  proof (cases rule: normal_clause_cases)
    case (cmp s as c)
    have "syms_ok M lk overlap (X \<union> syms_of es)" using Cons.prems(3) by (rule syms_ok_mono) auto
    then obtain ok evs where "?run es k ok evs" "if ok then ?flows es k evs else ?dead es k evs"
      using Cons.IH [of k] Cons.prems cmp(1) by auto
    then show ?thesis using cmp(1) clause_flows_skip [where es' = "e # es" and es = es] 
      by (intro exI [of _ ok] exI [of _ evs]) auto
  next
    case (disj s subs)
    have s: "s \<notin> X" "syms_ok M lk overlap (insert s X)" "syms_ok M lk overlap (X \<union> syms_of es)"
      using Cons.prems(2,3) disj(1,4) by (auto elim: syms_ok_mono)
    have leaves: "\<forall>sub \<in> set subs. good_leaf s sub \<and> names_numeric sub"
      using disj(1,2) Cons.prems(1) by auto
    have small: "k < 256" using Cons.prems(6,7) disj(1) by simp
    obtain ev1 where ev1:
        "\<And>ms. add_disjunction M lk e m k nc i ms = map_option (Pair (ev1 \<noteq> [])) (add_all M ms ev1)"
        "\<forall>x \<in> set ev1. event_of M (conj_of i k nc) x"
        "\<And>fl. (\<exists>x \<in> set ev1. hits (em_match x) fl) \<longleftrightarrow> hits m fl \<and> sem (env_of F lk res fl) e"
      by (rule add_disjunction_ok [OF leaves s(2,1) Cons.prems(4,5) small Cons.prems(7), of i res, folded disj(1)]) (rule that)
    show ?thesis
    proof (cases "ev1 = []")
      case True
      have "?dead (e # es) k []" using ev1(3) True disj(1) by (auto simp: dead_clause_def)
      moreover have "?run (e # es) k False []" using ev1(1) True disj(1) by simp
      ultimately show ?thesis by (intro exI [of _ False] exI [of _ "[]"]) simp
    next
      case False
      obtain ok ev2 where ev2: "?run es (Suc k) ok ev2" "if ok then ?flows es (Suc k) ev2 else ?dead es (Suc k) ev2"
        using Cons.IH [of "Suc k"] Cons.prems s(3) disj(1) by (auto simp: Int_Un_distrib2)
      have "?run (e # es) k ok (ev1 @ ev2)"
      proof
        fix ms show "clause_loop M lk (e # es) m k nc i ms = map_option (Pair ok) (add_all M ms (ev1 @ ev2))"
          using ev1(1) ev2(1) False disj(1) by (cases "add_all M ms ev1") (auto simp: add_all_append)
      qed
      moreover have "if ok then ?flows (e # es) k (ev1 @ ev2) else ?dead (e # es) k (ev1 @ ev2)"
        using clause_flows_Cons [where hits = hits and S = "\<lambda>fl. sem (env_of F lk res fl)" and e = e,
            OF Cons.prems(8) ev1(2,3)] dead_clause_Cons [OF ev1(2), where hits = hits and m = m and es = es
            and S = "\<lambda>fl. sem (env_of F lk res fl)" and e = e] ev2(2) disj(1)
        by (auto split: if_splits)
      ultimately show ?thesis by blast
    qed
  qed
qed

text \<open>With a single disjunction, its flows need no conjunction.\<close>

lemma single_clause_loop_ok:
  assumes "\<forall>e \<in> set es. normal_clause e \<and> names_numeric e" "syms_of (ors_of es) \<inter> X = {}"
    and "syms_ok M lk overlap (X \<union> syms_of es)" "used m = sym_fields X" "wc_masks_conj_id M m = 0"
  shows "\<exists>evs. (\<forall>ms. single_clause_loop M lk es m ms = add_all M ms evs) \<and>
    (\<forall>x \<in> set evs. event_of M [] x) \<and>
    (\<forall>fl. (\<exists>x \<in> set evs. hits (em_match x) fl) \<longleftrightarrow> hits m fl \<and> (\<exists>e \<in> set (ors_of es). sem (env_of F lk res fl) e))"
  using assms
proof (induction es)
  case Nil
  show ?case by (intro exI [of _ "[]"]) simp
next
  case (Cons e es)
  have "syms_ok M lk overlap (X \<union> syms_of es)" using Cons.prems(3) by (rule syms_ok_mono) auto
  moreover have "syms_of (ors_of es) \<inter> X = {}" using Cons.prems(2) by (auto simp: ors_of_def split: if_splits)
  ultimately obtain ev2 where ev2: "\<And>ms. single_clause_loop M lk es m ms = add_all M ms ev2"
      "\<forall>x \<in> set ev2. event_of M [] x"
      "\<And>fl. (\<exists>x \<in> set ev2. hits (em_match x) fl) \<longleftrightarrow> hits m fl \<and> (\<exists>e \<in> set (ors_of es). sem (env_of F lk res fl) e)"
    using Cons.IH Cons.prems(1,4,5) by auto
  have "normal_clause e" using Cons.prems(1) by simp
  then show ?case
  proof (cases rule: normal_clause_cases)
    case (cmp s as c)
    then show ?thesis using ev2 by (intro exI [of _ ev2]) auto
  next
    case (disj s subs)
    have s: "s \<notin> X" "syms_ok M lk overlap (insert s X)"
      using Cons.prems(2,3) disj(1,4) by (auto elim: syms_ok_mono)
    have leaves: "\<forall>sub \<in> set subs. good_leaf s sub \<and> names_numeric sub" using disj(1,2) Cons.prems(1) by auto
    obtain ev1 where ev1:
        "\<And>ms. add_disjunction M lk e m 0 0 0 ms = map_option (Pair (ev1 \<noteq> [])) (add_all M ms ev1)"
        "\<forall>x \<in> set ev1. event_of M (conj_of 0 0 0) x"
        "\<And>fl. (\<exists>x \<in> set ev1. hits (em_match x) fl) \<longleftrightarrow> hits m fl \<and> sem (env_of F lk res fl) e"
      by (rule add_disjunction_ok [OF leaves s(2,1) Cons.prems(4,5), of 0 0 0 res, folded disj(1)]) (simp_all add: that)
    have "single_clause_loop M lk (e # es) m ms = add_all M ms (ev1 @ ev2)" for ms
      using ev1(1) ev2(1) disj(1) by (cases "add_all M ms ev1") (auto simp: add_all_append)
    moreover have "(\<exists>x \<in> set (ev1 @ ev2). hits (em_match x) fl) \<longleftrightarrow>
        hits m fl \<and> (\<exists>e \<in> set (ors_of (e # es)). sem (env_of F lk res fl) e)" for fl
      using ev1(3) [of fl] ev2(3) [of fl] disj(1) by auto
    ultimately show ?thesis using ev1(2) ev2(2) by (intro exI [of _ "ev1 @ ev2"]) (auto simp: conj_of_def)
  qed
qed

end

text \<open>The conjunction identifiers that occur in a list of flows, all in the half-open range \<open>(a, b]\<close>.\<close>

definition ids_within :: "'m match_ops \<Rightarrow> nat \<Rightarrow> nat \<Rightarrow> 'm expr_match list \<Rightarrow> bool" where
  "ids_within M a b evs \<longleftrightarrow> (\<forall>x \<in> set evs.
     (\<forall>c \<in> set (em_conjunctions x). a < cj_id c \<and> cj_id c \<le> b) \<and>
     (wc_masks_conj_id M (em_match x) \<noteq> 0 \<longrightarrow> a < flow_conj_id M (em_match x) \<and> flow_conj_id M (em_match x) \<le> b))"

lemma ids_within_mono: "ids_within M a b evs \<Longrightarrow> a' \<le> a \<Longrightarrow> b \<le> b' \<Longrightarrow> ids_within M a' b' evs"
  by (force simp: ids_within_def)

lemma ids_within_append [simp]: "ids_within M a b (xs @ ys) \<longleftrightarrow> ids_within M a b xs \<and> ids_within M a b ys"
  by (auto simp: ids_within_def)

lemma ids_plain_hit:
  assumes "ids_within M a b evs" "i \<le> a \<or> b < i" "plain_hit M hits evs fl i"
  shows "plain_hit M hits evs fl 0"
  using assms by (fastforce simp: plain_hit_def flow_hit_def ids_within_def)

lemma conj_complete_part:
  assumes "ids_within M a b xs" "ids_within M b d ys" "conj_complete M hits (xs @ ys) fl i n"
  shows "(i \<le> b \<and> conj_complete M hits xs fl i n) \<or> (b < i \<and> conj_complete M hits ys fl i n)"
proof -
  have x: "i \<le> b" if "clause_hit M hits xs fl \<lparr>cj_id = i, cj_clause = k, cj_n_clauses = n\<rparr>" for k
    using that assms(1) by (fastforce simp: clause_hit_def ids_within_def)
  have y: "b < i" if "clause_hit M hits ys fl \<lparr>cj_id = i, cj_clause = k, cj_n_clauses = n\<rparr>" for k
    using that assms(2) by (fastforce simp: clause_hit_def ids_within_def)
  show ?thesis
    using assms(3) x y by (cases "i \<le> b") (auto simp: conj_complete_def)
qed

lemma table_accepts_append:
  assumes "ids_within M a b xs" "ids_within M b d ys"
  shows "table_accepts M hits (xs @ ys) fl \<longleftrightarrow> table_accepts M hits xs fl \<or> table_accepts M hits ys fl"
proof
  assume "table_accepts M hits (xs @ ys) fl"
  then consider "plain_hit M hits (xs @ ys) fl 0"
    | i n where "conj_complete M hits (xs @ ys) fl i n" "plain_hit M hits (xs @ ys) fl i"
    unfolding table_accepts_def by blast
  then show "table_accepts M hits xs fl \<or> table_accepts M hits ys fl"
  proof cases
    case (2 i n)
    from conj_complete_part [OF assms 2(1)] show ?thesis
    proof
      assume i: "i \<le> b \<and> conj_complete M hits xs fl i n"
      have "plain_hit M hits ys fl 0" if "plain_hit M hits ys fl i"
        by (rule ids_plain_hit [OF assms(2) _ that]) (use i in simp)
      then show ?thesis using i 2(2) unfolding table_accepts_def plain_hit_append by blast
    next
      assume i: "b < i \<and> conj_complete M hits ys fl i n"
      have "plain_hit M hits xs fl 0" if "plain_hit M hits xs fl i"
        by (rule ids_plain_hit [OF assms(1) _ that]) (use i in simp)
      then show ?thesis using i 2(2) unfolding table_accepts_def plain_hit_append by blast
    qed
  qed (simp add: table_accepts_def, blast)
next
  have "conj_complete M hits (xs @ ys) fl i n" if "conj_complete M hits xs fl i n \<or> conj_complete M hits ys fl i n" for i n
    using that by (auto simp: conj_complete_def)
  then show "table_accepts M hits xs fl \<or> table_accepts M hits ys fl \<Longrightarrow> table_accepts M hits (xs @ ys) fl"
    unfolding table_accepts_def plain_hit_append by blast
qed

lemma table_accepts_plain:
  assumes "\<forall>x \<in> set evs. event_of M [] x"
  shows "table_accepts M hits evs fl \<longleftrightarrow> (\<exists>x \<in> set evs. hits (em_match x) fl)"
proof -
  have "plain_hit M hits evs fl i \<longleftrightarrow> (\<exists>x \<in> set evs. hits (em_match x) fl)" for i
    using assms by (fastforce simp: plain_hit_def flow_hit_def event_of_def)
  moreover have "\<not> conj_complete M hits evs fl i n" for i n
    using assms by (auto simp: conj_complete_def clause_hit_def event_of_def)
  ultimately show ?thesis by (auto simp: table_accepts_def)
qed

lemma ids_within_Nil [simp]: "ids_within M a b []"
  by (simp add: ids_within_def)

lemma ids_within_Cons: "ids_within M a b (x # xs) \<longleftrightarrow> ids_within M a b [x] \<and> ids_within M a b xs"
  using ids_within_append [of M a b "[x]" xs] by simp

lemma clause_flows_event:
  "\<forall>x \<in> set evs. \<exists>j \<ge> k. event_of M (conj_of i j nc) x \<Longrightarrow> i \<noteq> 0 \<Longrightarrow> x \<in> set evs \<Longrightarrow>
     \<exists>j. em_conjunctions x = [\<lparr>cj_id = i, cj_clause = j, cj_n_clauses = nc\<rparr>] \<and> em_allocated x = 1 \<and>
       wc_masks_conj_id M (em_match x) = 0"
  by (fastforce simp: event_of_def conj_of_def)

lemma table_accepts_clauses:
  assumes evs: "clause_flows M hits S es m 0 nc i evs" and nc: "nc = length (ors_of es)" "0 < nc" and "i \<noteq> 0"
    and y: "em_conjunctions y = []" "\<And>j. flow_hit M hits fl j y \<longleftrightarrow> hits m fl \<and> j = i"
  shows "table_accepts M hits (evs @ [y]) fl \<longleftrightarrow> hits m fl \<and> (\<forall>e \<in> set (ors_of es). S fl e)"
proof -
  have event: "\<exists>j. em_conjunctions x = [\<lparr>cj_id = i, cj_clause = j, cj_n_clauses = nc\<rparr>] \<and> em_allocated x = 1 \<and>
       wc_masks_conj_id M (em_match x) = 0" if "x \<in> set evs" for x
    by (rule clause_flows_event [OF _ \<open>i \<noteq> 0\<close> that]) (use evs in \<open>auto simp: clause_flows_def\<close>)
  have plain: "plain_hit M hits (evs @ [y]) fl j \<longleftrightarrow> hits m fl \<and> j = i" for j
  proof -
    have "\<not> plain_hit M hits evs fl j" using event by (fastforce simp: plain_hit_def)
    then show ?thesis using y by simp
  qed
  have hit: "clause_hit M hits (evs @ [y]) fl c \<longleftrightarrow> (\<exists>x \<in> set evs. em_conjunctions x = [c] \<and> hits (em_match x) fl)" for c
  proof -
    have "c \<in> set (em_conjunctions x) \<and> flow_hit M hits fl 0 x \<longleftrightarrow> em_conjunctions x = [c] \<and> hits (em_match x) fl"
      if "x \<in> set evs" for x
      using event [OF that] by (auto simp: flow_hit_def)
    then show ?thesis using y(1) by (simp add: clause_hit_def)
  qed
  have complete: "conj_complete M hits (evs @ [y]) fl j n \<longleftrightarrow>
      j = i \<and> n = nc \<and> hits m fl \<and> (\<forall>e \<in> set (ors_of es). S fl e)" for j n
  proof
    assume c: "conj_complete M hits (evs @ [y]) fl j n"
    then obtain x where "x \<in> set evs" "em_conjunctions x = [\<lparr>cj_id = j, cj_clause = 0, cj_n_clauses = n\<rparr>]"
      unfolding conj_complete_def hit by blast
    then have "j = i \<and> n = nc" using event [of x] by auto
    moreover from this have "hits m fl \<and> S fl (ors_of es ! k)" if "k < nc" for k
      using c that evs nc(1) \<open>i \<noteq> 0\<close> unfolding conj_complete_def hit clause_flows_def by (simp add: conj_of_def)
    ultimately show "j = i \<and> n = nc \<and> hits m fl \<and> (\<forall>e \<in> set (ors_of es). S fl e)"
      using nc by (metis in_set_conv_nth)
  next
    assume "j = i \<and> n = nc \<and> hits m fl \<and> (\<forall>e \<in> set (ors_of es). S fl e)"
    then show "conj_complete M hits (evs @ [y]) fl j n"
      using evs nc \<open>i \<noteq> 0\<close> unfolding conj_complete_def hit clause_flows_def by (simp add: conj_of_def)
  qed
  show ?thesis unfolding table_accepts_def plain complete using \<open>i \<noteq> 0\<close> by auto
qed

lemma table_accepts_dead:
  assumes "dead_clause M hits S es m k nc i evs" "i \<noteq> 0"
  shows "\<not> table_accepts M hits evs fl"
proof -
  have "\<not> plain_hit M hits evs fl j" for j
  proof
    assume "plain_hit M hits evs fl j"
    then obtain x where x: "x \<in> set evs" "em_conjunctions x = []" by (auto simp: plain_hit_def)
    have "\<forall>x \<in> set evs. \<exists>j \<ge> k. event_of M (conj_of i j nc) x" using assms(1) by (simp add: dead_clause_def)
    from clause_flows_event [OF this assms(2) x(1)] show False using x(2) by simp
  qed
  then show ?thesis by (simp add: table_accepts_def)
qed

text \<open>Flows that accept exactly the packets of which \<open>P\<close> holds, with identifiers in \<open>(a, b]\<close>.\<close>

definition flows_for ::
  "'m match_ops \<Rightarrow> ('m \<Rightarrow> 'fl \<Rightarrow> bool) \<Rightarrow> ('fl \<Rightarrow> bool) \<Rightarrow> nat \<Rightarrow> nat \<Rightarrow> 'm expr_match list \<Rightarrow> bool" where
  "flows_for M hits P a b evs \<longleftrightarrow> ids_within M a b evs \<and> (\<forall>fl. table_accepts M hits evs fl \<longleftrightarrow> P fl) \<and>
     (\<forall>x \<in> set evs. length (em_conjunctions x) \<le> 1 \<and> length (em_conjunctions x) \<le> em_allocated x)"

lemma flows_for_plain:
  assumes "\<forall>x \<in> set evs. event_of M [] x" "\<And>fl. (\<exists>x \<in> set evs. hits (em_match x) fl) \<longleftrightarrow> P fl"
  shows "flows_for M hits P a b evs"
  using assms table_accepts_plain [OF assms(1), of hits]
  by (auto simp: flows_for_def ids_within_def event_of_def)

lemma flows_for_append:
  assumes "flows_for M hits P a b xs" "flows_for M hits Q b d ys" "a \<le> b" "b \<le> d"
  shows "flows_for M hits (\<lambda>fl. P fl \<or> Q fl) a d (xs @ ys)"
  using assms table_accepts_append [of M a b xs d ys hits] ids_within_mono [of M a b xs a d] ids_within_mono [of M b d ys a d]
  by (auto simp: flows_for_def)

lemma flows_for_Nil: "(\<And>fl. \<not> P fl) \<Longrightarrow> flows_for M hits P a b []"
  by (rule flows_for_plain) auto

context match_api
begin

lemma conj_flows_for:
  assumes evs: "if ok then clause_flows M hits S es m 0 nc (Suc n) evs else dead_clause M hits S es m 0 nc (Suc n) evs"
    and nc: "nc = length (ors_of es)" "0 < nc"
  shows "flows_for M hits (\<lambda>fl. hits m fl \<and> (\<forall>e \<in> set (ors_of es). S fl e)) n (Suc n)
    (if ok then evs @ [expr_match_new M (Some (match_set_conj_id M m (Suc n))) 0 0 0] else evs)"
proof -
  let ?y = "expr_match_new M (Some (match_set_conj_id M m (Suc n))) 0 0 0"
  have "\<forall>x \<in> set evs. \<exists>j \<ge> 0. event_of M (conj_of (Suc n) j nc) x"
    using evs by (auto simp: clause_flows_def dead_clause_def split: if_splits)
  note event = clause_flows_event [OF this Suc_not_Zero]
  have ev: "ids_within M n (Suc n) evs" "\<forall>x \<in> set evs. length (em_conjunctions x) \<le> 1 \<and> length (em_conjunctions x) \<le> em_allocated x"
    using event by (fastforce simp: ids_within_def)+
  have y: "em_conjunctions ?y = []" "flow_hit M hits fl j ?y \<longleftrightarrow> hits m fl \<and> j = Suc n"
    "ids_within M n (Suc n) [?y]" for fl j
    by (auto simp: expr_match_new_def flow_hit_def set_conj_id ids_within_def)
  show ?thesis
  proof (cases ok)
    case True
    then have "clause_flows M hits S es m 0 nc (Suc n) evs" using evs by simp
    from table_accepts_clauses [OF this nc Suc_not_Zero y(1,2)] show ?thesis
      using True ev y(1,3) by (simp add: flows_for_def)
  next
    case False
    then have dead: "dead_clause M hits S es m 0 nc (Suc n) evs" using evs by simp
    then show ?thesis
      using False ev table_accepts_dead [OF dead] by (auto simp: flows_for_def dead_clause_def)
  qed
qed

lemma add_conjunction_ok:
  assumes es: "normal_and es" "\<forall>e \<in> set es. names_numeric e" "length es < 256"
    and syms: "syms_ok M lk overlap (syms_of es)" and "n + 1 < 2 ^ 32"
  shows "\<exists>n' evs. n \<le> n' \<and> n' \<le> Suc n \<and>
    (\<forall>ms. add_conjunction M lk (Andor J_AND es) n ms = map_option (Pair n') (add_all M ms evs)) \<and>
    flows_for M hits (\<lambda>fl. sem (env_of F lk res fl) (Andor J_AND es)) n n' evs"
proof -
  let ?S = "\<lambda>fl. sem (env_of F lk res fl)" and ?m0 = "match_init_catchall M"
  have clauses: "\<forall>e \<in> set es. normal_clause e" "distinct (map expr_get_unique_symbol es)"
    using es(1) by (auto simp: normal_and_def)
  have m0: "used ?m0 = sym_fields {}" by (simp add: catchall sym_fields_def)
  have split: "?S fl (Andor J_AND es) \<longleftrightarrow> (\<forall>e \<in> set (cmps_of es). ?S fl e) \<and> (\<forall>e \<in> set (ors_of es). ?S fl e)" for fl
    using ors_cmps [of es] by auto
  from conjunction_scan_ok [OF clauses, of lk "{}" ?m0 0 res] syms m0
  consider "conjunction_scan M lk es ?m0 0 = Some None" "\<And>fl. \<not> ?S fl (Andor J_AND es)"
    | m where "conjunction_scan M lk es ?m0 0 = Some (Some (m, length (ors_of es)))"
        "used m = sym_fields (syms_of (cmps_of es))" "wc_masks_conj_id M m = 0"
        "\<And>fl. hits m fl \<longleftrightarrow> (\<forall>e \<in> set (cmps_of es). ?S fl e)"
    by (auto simp: catchall)
  then show ?thesis
  proof cases
    case 1
    then show ?thesis
      using flows_for_Nil [of "\<lambda>fl. ?S fl (Andor J_AND es)" M hits n n]
      by (intro exI [of _ n] exI [of _ "[]"]) (simp add: add_conjunction_def)
  next
    case (2 m)
    let ?X = "syms_of (cmps_of es)"
    have sub: "syms_ok M lk overlap (?X \<union> syms_of es)"
      using syms by (rule syms_ok_mono) (auto simp: cmps_of_def)
    have disjoint: "syms_of (ors_of es) \<inter> ?X = {}"
    proof (rule ccontr)
      assume "syms_of (ors_of es) \<inter> ?X \<noteq> {}"
      then obtain a b s where ab: "a \<in> set es" "b \<in> set es" "is_junct J_OR a" "\<not> is_junct J_OR b"
          "s \<in> expr_syms a" "s \<in> expr_syms b"
        by (auto simp: ors_of_def cmps_of_def)
      then have "expr_get_unique_symbol a = expr_get_unique_symbol b" using normal_clause_sym clauses(1) by metis
      then have "a = b" using clauses(2) ab(1,2) by (metis distinct_map inj_onD)
      then show False using ab(3,4) by simp
    qed
    have names: "\<forall>e \<in> set es. normal_clause e \<and> names_numeric e" using clauses(1) es(2) by blast
    have len: "length (ors_of es) < 256" using es(3) length_filter_le [of "is_junct J_OR" es] unfolding ors_of_def by linarith
    consider "ors_of es = []" | "length (ors_of es) = 1" | "2 \<le> length (ors_of es)"
      by (cases "ors_of es" rule: list_cases3) auto
    then show ?thesis
    proof cases
      case 1
      let ?x = "expr_match_new M (Some m) 0 0 0"
      have x: "event_of M [] ?x" "em_match ?x = m" using 2(3) by (simp_all add: event_of_def expr_match_new_def)
      then have "flows_for M hits (\<lambda>fl. ?S fl (Andor J_AND es)) n n [?x]"
        using 1 2(4) split by (intro flows_for_plain) auto
      moreover have "add_conjunction M lk (Andor J_AND es) n ms = map_option (Pair n) (add_all M ms [?x])" for ms
        using 1 2(1) by (cases "expr_match_add M ms ?x") (auto simp: add_conjunction_def)
      ultimately show ?thesis by (intro exI [of _ n] exI [of _ "[?x]"]) auto
    next
      case one: 2
      then obtain d where d: "ors_of es = [d]" by (cases "ors_of es" rule: list_cases3) auto
      obtain evs where evs: "\<And>ms. single_clause_loop M lk es m ms = add_all M ms evs" "\<forall>x \<in> set evs. event_of M [] x"
          "\<And>fl. (\<exists>x \<in> set evs. hits (em_match x) fl) \<longleftrightarrow> hits m fl \<and> (\<exists>e \<in> set (ors_of es). ?S fl e)"
        using single_clause_loop_ok [OF names disjoint sub 2(2,3), of res] by auto
      have "flows_for M hits (\<lambda>fl. ?S fl (Andor J_AND es)) n n evs"
        by (rule flows_for_plain [OF evs(2)]) (use evs(3) 2(4) split d in simp)
      moreover have "add_conjunction M lk (Andor J_AND es) n ms = map_option (Pair n) (add_all M ms evs)" for ms
        using one 2(1) evs(1) by (simp add: add_conjunction_def)
      ultimately show ?thesis by (intro exI [of _ n] exI [of _ evs]) auto
    next
      case many: 3
      from clause_loop_ok [OF names disjoint sub 2(2,3) _ len Suc_not_Zero, of 0 n res]
      obtain ok evs where run: "\<And>ms. clause_loop M lk es m 0 (length (ors_of es)) (Suc n) ms = map_option (Pair ok) (add_all M ms evs)"
        and evs: "if ok then clause_flows M hits ?S es m 0 (length (ors_of es)) (Suc n) evs
          else dead_clause M hits ?S es m 0 (length (ors_of es)) (Suc n) evs"
        by auto
      let ?y = "expr_match_new M (Some (match_set_conj_id M m (Suc n))) 0 0 0"
      let ?all = "if ok then evs @ [?y] else evs"
      have "add_conjunction M lk (Andor J_AND es) n ms = map_option (Pair (Suc n)) (add_all M ms ?all)" for ms
        using many 2(1) run [of ms] \<open>n + 1 < 2 ^ 32\<close>
        by (cases "add_all M ms evs") (auto simp: add_conjunction_def Let_def add_all_append)
      moreover have "flows_for M hits (\<lambda>fl. ?S fl (Andor J_AND es)) n (Suc n) ?all"
        unfolding split 2(4) [symmetric] by (rule conj_flows_for [OF evs refl]) (use many in linarith)
      ultimately show ?thesis by (intro exI [of _ "Suc n"] exI [of _ ?all]) auto
    qed
  qed
qed

section \<open>Translation of normalized expressions\<close>

lemma add_cmp_flow_ok:
  assumes "good_leaf s sub" "syms_ok M lk overlap {s}"
  shows "\<exists>evs. (\<forall>ms. add_cmp_flow M lk sub ms = add_all M ms evs) \<and> (\<forall>x \<in> set evs. event_of M [] x) \<and>
    (\<forall>fl. (\<exists>x \<in> set evs. hits (em_match x) fl) \<longleftrightarrow> sem (env_of F lk res fl) sub)"
proof -
  obtain as c where c: "sub = Cmp as c" "good_cmp s c" using assms(1) by (auto elim: good_leafE)
  let ?m0 = "match_init_catchall M"
  have "used ?m0 = sym_fields {}" "wc_masks_conj_id M ?m0 = 0" by (simp_all add: catchall sym_fields_def)
  from constrain_match_ok [OF c(2) assms(2) _ this, of as res]
  consider "constrain_match M lk sub ?m0 = Some None" "\<forall>fl. \<not> sem (env_of F lk res fl) sub"
    | m' where "constrain_match M lk sub ?m0 = Some (Some m')" "wc_masks_conj_id M m' = 0"
        "\<And>fl. hits m' fl \<longleftrightarrow> sem (env_of F lk res fl) sub"
    unfolding c(1) by (auto simp: catchall)
  then show ?thesis
  proof cases
    case 1
    then show ?thesis by (intro exI [of _ "[]"]) (auto simp: add_cmp_flow_def expr_match_new_def)
  next
    case (2 m')
    let ?x = "(expr_match_new M None 0 0 0)\<lparr>em_match := m'\<rparr>"
    have "add_cmp_flow M lk sub ms = add_all M ms [?x]" for ms
      using 2(1) by (cases "expr_match_add M ms ?x") (auto simp: add_cmp_flow_def expr_match_new_def)
    then show ?thesis
      using 2(2,3) by (intro exI [of _ "[?x]"]) (auto simp: event_of_def expr_match_new_def)
  qed
qed

lemma normal_cmp_leaf: "normal_disjunct e \<Longrightarrow> \<not> is_junct J_AND e \<Longrightarrow> \<exists>s. good_leaf s e \<and> expr_syms e = {s}"
  by (cases e rule: normal_disjunct.cases) auto

lemma add_cmp_flows_ok:
  assumes "\<forall>sub \<in> set subs. normal_disjunct sub \<and> \<not> is_junct J_AND sub" "syms_ok M lk overlap (syms_of subs)"
  shows "\<exists>evs. (\<forall>ms. add_cmp_flows M lk subs ms = add_all M ms evs) \<and> (\<forall>x \<in> set evs. event_of M [] x) \<and>
    (\<forall>fl. (\<exists>x \<in> set evs. hits (em_match x) fl) \<longleftrightarrow> (\<exists>sub \<in> set subs. sem (env_of F lk res fl) sub))"
  using assms
proof (induction subs)
  case Nil
  show ?case by (intro exI [of _ "[]"]) simp
next
  case (Cons sub subs)
  obtain s where s: "good_leaf s sub" "expr_syms sub = {s}" using normal_cmp_leaf [of sub] Cons.prems(1) by auto
  have "syms_ok M lk overlap {s}" "syms_ok M lk overlap (syms_of subs)"
    using Cons.prems(2) s(2) by (auto elim: syms_ok_mono)
  then obtain ev1 ev2 where
    ev1: "\<And>ms. add_cmp_flow M lk sub ms = add_all M ms ev1" "\<forall>x \<in> set ev1. event_of M [] x"
      "\<And>fl. (\<exists>x \<in> set ev1. hits (em_match x) fl) \<longleftrightarrow> sem (env_of F lk res fl) sub" and
    ev2: "\<And>ms. add_cmp_flows M lk subs ms = add_all M ms ev2" "\<forall>x \<in> set ev2. event_of M [] x"
      "\<And>fl. (\<exists>x \<in> set ev2. hits (em_match x) fl) \<longleftrightarrow> (\<exists>sub \<in> set subs. sem (env_of F lk res fl) sub)"
    using add_cmp_flow_ok [OF s(1), of lk res] Cons.IH Cons.prems(1) by auto
  have "(\<exists>x \<in> set (ev1 @ ev2). hits (em_match x) fl) \<longleftrightarrow> (\<exists>sub \<in> set (sub # subs). sem (env_of F lk res fl) sub)" for fl
    using ev1(3) [of fl] ev2(3) [of fl] by auto
  moreover have "add_cmp_flows M lk (sub # subs) ms = add_all M ms (ev1 @ ev2)" for ms
    using ev1(1) ev2(1) by (cases "add_all M ms ev1") (auto simp: add_all_append)
  ultimately show ?case using ev1(2) ev2(2) by (intro exI [of _ "ev1 @ ev2"]) auto
qed

end

text \<open>
  The numbers of clauses and of conjunctions fit into the \<open>uint8_t\<close> and \<open>uint32_t\<close> members that
  hold them.
\<close>

fun fits :: "expr \<Rightarrow> bool" where
  "fits (Andor J_AND es) \<longleftrightarrow> length es < 256"
| "fits (Andor J_OR es) \<longleftrightarrow> length es < 2 ^ 32 - 1 \<and> (\<forall>e \<in> set es. fits e)"
| "fits _ \<longleftrightarrow> True"

lemma flows_for_cong: "flows_for M hits P a b evs \<Longrightarrow> (\<And>fl. P fl = Q fl) \<Longrightarrow> flows_for M hits Q a b evs"
  by (simp add: flows_for_def)

context match_api
begin

lemma add_term_ok:
  assumes "normal_disjunct sub" "names_numeric sub" "fits sub" "syms_ok M lk overlap (expr_syms sub)" "n + 1 < 2 ^ 32"
  shows "\<exists>n' evs. n \<le> n' \<and> n' \<le> Suc n \<and>
    (\<forall>subs ms. add_terms M lk (sub # subs) n ms = do { ms' \<leftarrow> add_all M ms evs; add_terms M lk subs n' ms' }) \<and>
    flows_for M hits (\<lambda>fl. sem (env_of F lk res fl) sub) n n' evs"
proof (cases "is_junct J_AND sub")
  case True
  then obtain es where es: "sub = Andor J_AND es" by (auto simp: is_junct_iff)
  have "normal_and es" "\<forall>e \<in> set es. names_numeric e" "length es < 256" "syms_ok M lk overlap (syms_of es)"
    using assms(1-4) es by auto
  from add_conjunction_ok [OF this assms(5), of res]
  obtain n' evs where evs: "n \<le> n'" "n' \<le> Suc n"
      "\<And>ms. add_conjunction M lk (Andor J_AND es) n ms = map_option (Pair n') (add_all M ms evs)"
      "flows_for M hits (\<lambda>fl. sem (env_of F lk res fl) (Andor J_AND es)) n n' evs" by blast
  have "add_terms M lk (sub # subs) n ms = do { ms' \<leftarrow> add_all M ms evs; add_terms M lk subs n' ms' }" for subs ms
    using evs(3) [of ms] es by (cases "add_all M ms evs") auto
  then show ?thesis using evs(1,2,4) es by blast
next
  case False
  obtain s where s: "good_leaf s sub" "expr_syms sub = {s}" using normal_cmp_leaf [OF assms(1) False] by blast
  then have "syms_ok M lk overlap {s}" using assms(4) by simp
  from add_cmp_flow_ok [OF s(1) this, of res]
  obtain evs where evs: "\<And>ms. add_cmp_flow M lk sub ms = add_all M ms evs" "\<forall>x \<in> set evs. event_of M [] x"
      "\<And>fl. (\<exists>x \<in> set evs. hits (em_match x) fl) \<longleftrightarrow> sem (env_of F lk res fl) sub" by blast
  have "flows_for M hits (\<lambda>fl. sem (env_of F lk res fl) sub) n n evs" by (rule flows_for_plain [OF evs(2,3)])
  then show ?thesis using evs(1) False by (intro exI [of _ n] exI [of _ evs]) auto
qed

lemma add_terms_ok:
  assumes "\<forall>sub \<in> set subs. normal_disjunct sub \<and> names_numeric sub \<and> fits sub"
    and "syms_ok M lk overlap (syms_of subs)" "n + length subs < 2 ^ 32"
  shows "\<exists>n' evs. n \<le> n' \<and> n' \<le> n + length subs \<and>
    (\<forall>ms. add_terms M lk subs n ms = map_option (Pair n') (add_all M ms evs)) \<and>
    flows_for M hits (\<lambda>fl. \<exists>sub \<in> set subs. sem (env_of F lk res fl) sub) n n' evs"
  using assms
proof (induction subs arbitrary: n)
  case Nil
  show ?case by (intro exI [of _ n] exI [of _ "[]"]) (simp add: flows_for_Nil)
next
  case (Cons sub subs)
  have "syms_ok M lk overlap (expr_syms sub)" and rest: "syms_ok M lk overlap (syms_of subs)"
    using Cons.prems(2) by (auto elim: syms_ok_mono)
  then obtain n1 ev1 where ev1: "n \<le> n1" "n1 \<le> Suc n"
      "\<And>ms. add_terms M lk (sub # subs) n ms = do { ms' \<leftarrow> add_all M ms ev1; add_terms M lk subs n1 ms' }"
      "flows_for M hits (\<lambda>fl. sem (env_of F lk res fl) sub) n n1 ev1"
    using add_term_ok [of sub lk n res] Cons.prems by auto
  obtain n2 ev2 where ev2: "n1 \<le> n2" "n2 \<le> n1 + length subs"
      "\<And>ms. add_terms M lk subs n1 ms = map_option (Pair n2) (add_all M ms ev2)"
      "flows_for M hits (\<lambda>fl. \<exists>sub \<in> set subs. sem (env_of F lk res fl) sub) n1 n2 ev2"
    using Cons.IH [of n1] Cons.prems(1,3) rest ev1(2) by auto
  have "flows_for M hits (\<lambda>fl. \<exists>sub \<in> set (sub # subs). sem (env_of F lk res fl) sub) n n2 (ev1 @ ev2)"
    using flows_for_append [OF ev1(4) ev2(4) ev1(1) ev2(1)] by (rule flows_for_cong) simp
  moreover have "add_terms M lk (sub # subs) n ms = map_option (Pair n2) (add_all M ms (ev1 @ ev2))" for ms
    using ev1(3) ev2(3) by (cases "add_all M ms ev1") (auto simp: add_all_append)
  ultimately show ?case
    using ev1(1,2) ev2(1,2) by (intro exI [of _ n2] exI [of _ "ev1 @ ev2"]) auto
qed

lemma expr_match_add_ids:
  "expr_match_add M ms x = Some ms' \<Longrightarrow> ids_within M a b ms \<Longrightarrow> ids_within M a b [x] \<Longrightarrow> ids_within M a b ms'"
proof (induction ms arbitrary: ms')
  case (Cons m ms)
  show ?case
  proof (cases "em_match m = em_match x")
    case True
    then obtain m' where "ms' = m' # ms" "em_match m' = em_match m"
        "set (em_conjunctions m') \<subseteq> set (em_conjunctions m) \<union> set (em_conjunctions x)"
      using Cons.prems(1) by (auto simp: equal Let_def split: if_splits)
    then show ?thesis
      using Cons.prems(2,3) unfolding ids_within_def list.set by (simp add: subset_iff) blast
  next
    case False
    then obtain ms2 where "expr_match_add M ms x = Some ms2" "ms' = m # ms2" using Cons.prems(1) by (auto simp: equal)
    then show ?thesis using Cons.IH [of ms2] Cons.prems(2,3) 
      ids_within_Cons [of M a b m ms] ids_within_Cons [of M a b m ms2] by blast
  qed
qed simp

lemma add_all_ids:
  "add_all M ms xs = Some ms' \<Longrightarrow> ids_within M a b ms \<Longrightarrow> ids_within M a b xs \<Longrightarrow> ids_within M a b ms'"
proof (induction xs arbitrary: ms)
  case (Cons x xs)
  then obtain ms1 where "expr_match_add M ms x = Some ms1" "add_all M ms1 xs = Some ms'"
    by (auto simp: bind_eq_Some_conv)
  moreover have "ids_within M a b [x]" "ids_within M a b xs"
    using Cons.prems(3) ids_within_Cons [of M a b x xs] by blast+
  ultimately show ?case using Cons.IH [of ms1] expr_match_add_ids [of ms x ms1 a b] Cons.prems(2) by simp
qed simp

lemma flows_for_table:
  assumes "flows_for M hits P 0 n evs"
  shows "\<exists>ms. add_all M [] evs = Some ms \<and> table_inv ms \<and> ids_within M 0 n ms \<and>
    (\<forall>fl. table_accepts M hits ms fl \<longleftrightarrow> P fl)"
proof -
  obtain ms where ms: "add_all M [] evs = Some ms" "stands_for M hits ms evs"
    using add_all_ok [of evs "[]"] assms by (auto simp: flows_for_def)
  have "table_inv ms" using add_all_inv [OF _ _ ms(1)] assms by (simp add: table_inv_def flows_for_def)
  moreover have "ids_within M 0 n ms" 
    by (rule add_all_ids [OF ms(1)]) (use assms in \<open>simp_all add: flows_for_def\<close>)
  ultimately show ?thesis using ms(1) stands_for_accepts [OF ms(2)] assms by (simp add: flows_for_def)
qed

end

lemma normal_and_unique: "normal_and es \<Longrightarrow> expr_get_unique_symbol (Andor J_AND es) = None"
proof (rule ccontr)
  assume "normal_and es" "expr_get_unique_symbol (Andor J_AND es) \<noteq> None"
  moreover from this obtain s where "\<forall>e \<in> set es. expr_get_unique_symbol e = Some s"
    using unique_symbol_Andor by blast
  ultimately show False
    by (cases es rule: list_cases3) (auto simp: normal_and_def)
qed

context match_api
begin

lemma expr_to_matches_ok:
  assumes "normal_form e" "names_numeric e" "fits e" "syms_ok M lk overlap (expr_syms e)"
  shows "\<exists>n ms. expr_to_matches M lk e = Some (n, ms) \<and> n < 2 ^ 32 \<and> table_inv ms \<and> ids_within M 0 n ms \<and>
    (\<forall>fl. table_accepts M hits ms fl \<longleftrightarrow> sem (env_of F lk res fl) e)"
proof -
  have "\<exists>n evs. expr_to_matches M lk e = map_option (Pair n) (add_all M [] evs) \<and> n < 2 ^ 32 \<and>
    flows_for M hits (\<lambda>fl. sem (env_of F lk res fl) e) 0 n evs"
  proof (cases e rule: expr_type_of.cases)
    case (1 as c)
    then have leaf: "good_leaf (cmp_symbol c) e" "syms_ok M lk overlap {cmp_symbol c}" using assms(1,4) by auto
    obtain evs where evs: "\<And>ms. add_cmp_flow M lk e ms = add_all M ms evs" "\<forall>x \<in> set evs. event_of M [] x"
        "\<And>fl. (\<exists>x \<in> set evs. hits (em_match x) fl) \<longleftrightarrow> sem (env_of F lk res fl) e"
      using add_cmp_flow_ok [OF leaf, of res] by blast
    have "flows_for M hits (\<lambda>fl. sem (env_of F lk res fl) e) 0 0 evs" by (rule flows_for_plain [OF evs(2,3)])
    then show ?thesis using evs(1) 1 by (intro exI [of _ 0] exI [of _ evs]) (simp add: expr_to_matches_def)
  next
    case (2 es)
    have and_ok: "normal_and es" "\<forall>e \<in> set es. names_numeric e" "length es < 256" "syms_ok M lk overlap (syms_of es)"
      using assms 2 by auto
    obtain n' evs where evs: "n' \<le> Suc 0"
        "\<And>ms. add_conjunction M lk (Andor J_AND es) 0 ms = map_option (Pair n') (add_all M ms evs)"
        "flows_for M hits (\<lambda>fl. sem (env_of F lk res fl) (Andor J_AND es)) 0 n' evs"
      using add_conjunction_ok [OF and_ok, of 0 res] by auto
    then have "n' < 2 ^ 32" by simp
    then show ?thesis using evs 2 by (intro exI [of _ n'] exI [of _ evs]) (simp add: expr_to_matches_def)
  next
    case (3 es)
    have terms: "\<forall>sub \<in> set es. normal_disjunct sub \<and> names_numeric sub \<and> fits sub" "2 \<le> length es"
        "syms_ok M lk overlap (syms_of es)" "length es < 2 ^ 32 - 1"
      using assms 3 by auto
    show ?thesis
    proof (cases "expr_get_unique_symbol e")
      case None
      obtain n' evs where evs: "n' \<le> length es"
          "\<And>ms. add_terms M lk es 0 ms = map_option (Pair n') (add_all M ms evs)"
          "flows_for M hits (\<lambda>fl. \<exists>sub \<in> set es. sem (env_of F lk res fl) sub) 0 n' evs"
        using add_terms_ok [OF terms(1,3), of 0 res] terms(4) by auto
      then have "n' < 2 ^ 32" using terms(4) by simp
      then show ?thesis using evs 3 None by (intro exI [of _ n'] exI [of _ evs]) (simp add: expr_to_matches_def)
    next
      case (Some s)
      have "\<forall>sub \<in> set es. normal_disjunct sub \<and> \<not> is_junct J_AND sub"
      proof
        fix sub assume sub: "sub \<in> set es"
        then have "expr_get_unique_symbol sub = Some s" using Some 3 unique_symbol_Andor [of J_OR es s] by auto
        then show "normal_disjunct sub \<and> \<not> is_junct J_AND sub"
          using terms(1) sub normal_and_unique by (auto simp: is_junct_iff)
      qed
      then obtain evs where evs: "\<And>ms. add_cmp_flows M lk es ms = add_all M ms evs" "\<forall>x \<in> set evs. event_of M [] x"
          "\<And>fl. (\<exists>x \<in> set evs. hits (em_match x) fl) \<longleftrightarrow> (\<exists>sub \<in> set es. sem (env_of F lk res fl) sub)"
        using add_cmp_flows_ok [of es lk res] terms(3) by blast
      have "flows_for M hits (\<lambda>fl. \<exists>sub \<in> set es. sem (env_of F lk res fl) sub) 0 0 evs"
        by (rule flows_for_plain [OF evs(2,3)])
      then show ?thesis using evs(1) 3 Some by (intro exI [of _ 0] exI [of _ evs]) (simp add: expr_to_matches_def)
    qed
  next
    case (4 b)
    let ?x = "expr_match_new M None 0 0 0" and ?P = "\<lambda>fl. sem (env_of F lk res fl) (Boolean b)"
    have x: "event_of M [] ?x" "hits (em_match ?x) fl" for fl by (simp_all add: event_of_def expr_match_new_def catchall)
    have "flows_for M hits ?P 0 0 (if b then [?x] else [])" using x by (intro flows_for_plain) auto
    then show ?thesis
      using 4 by (intro exI [of _ 0] exI [of _ "if b then [?x] else []"]) (simp add: expr_to_matches_def)
  qed (use assms(1) in auto)
  then show ?thesis using flows_for_table by fastforce
qed

text \<open>Shifting the identifiers does not change what the table accepts.\<close>

lemma prepare_flow_hit:
  assumes "ids_within M 0 n [m]" "n + ofs < 2 ^ 32"
  shows "flow_hit M hits fl 0 (prepare_match M ofs m) \<longleftrightarrow> flow_hit M hits fl 0 m"
    "i \<le> n \<Longrightarrow> flow_hit M hits fl (i + ofs) (prepare_match M ofs m) \<longleftrightarrow> flow_hit M hits fl i m"
proof -
  have "wc_masks_conj_id M (em_match m) \<noteq> 0 \<Longrightarrow>
      (flow_conj_id M (em_match m) + ofs) mod 2 ^ 32 = flow_conj_id M (em_match m) + ofs \<and> 0 < flow_conj_id M (em_match m)"
    using assms by (simp add: ids_within_def)
  then show "flow_hit M hits fl 0 (prepare_match M ofs m) \<longleftrightarrow> flow_hit M hits fl 0 m"
    "i \<le> n \<Longrightarrow> flow_hit M hits fl (i + ofs) (prepare_match M ofs m) \<longleftrightarrow> flow_hit M hits fl i m"
    by (auto simp: flow_hit_def prepare_match_def put_conj_id)
qed

lemma prepare_plain_hit:
  assumes "ids_within M 0 n ms" "n + ofs < 2 ^ 32"
  shows "plain_hit M hits (map (prepare_match M ofs) ms) fl 0 \<longleftrightarrow> plain_hit M hits ms fl 0"
    "i \<le> n \<Longrightarrow> plain_hit M hits (map (prepare_match M ofs) ms) fl (i + ofs) \<longleftrightarrow> plain_hit M hits ms fl i"
proof -
  have m: "ids_within M 0 n [m]" if "m \<in> set ms" for m using assms(1) that by (simp add: ids_within_def)
  have conj: "em_conjunctions (prepare_match M ofs m) = [] \<longleftrightarrow> em_conjunctions m = []" for m
    by (simp add: prepare_match_def)
  show "plain_hit M hits (map (prepare_match M ofs) ms) fl 0 \<longleftrightarrow> plain_hit M hits ms fl 0"
    using prepare_flow_hit(1) [OF m assms(2)] by (auto simp: plain_hit_def conj)
  show "i \<le> n \<Longrightarrow> plain_hit M hits (map (prepare_match M ofs) ms) fl (i + ofs) \<longleftrightarrow> plain_hit M hits ms fl i"
    using prepare_flow_hit(2) [OF m assms(2)] by (auto simp: plain_hit_def conj)
qed

lemma prepare_conjunctions:
  assumes "ids_within M 0 n [m]" "n + ofs < 2 ^ 32"
  shows "\<lparr>cj_id = j, cj_clause = k, cj_n_clauses = nc\<rparr> \<in> set (em_conjunctions (prepare_match M ofs m)) \<longleftrightarrow>
    (\<exists>i. j = i + ofs \<and> i \<le> n \<and> \<lparr>cj_id = i, cj_clause = k, cj_n_clauses = nc\<rparr> \<in> set (em_conjunctions m))"
proof -
  have ids: "cj_id c \<le> n \<and> (cj_id c + ofs) mod 2 ^ 32 = cj_id c + ofs" if "c \<in> set (em_conjunctions m)" for c
    using assms that by (auto simp: ids_within_def)
  then have "set (em_conjunctions (prepare_match M ofs m)) = (\<lambda>c. c\<lparr>cj_id := cj_id c + ofs\<rparr>) ` set (em_conjunctions m)"
    by (simp add: prepare_match_def cong: image_cong)
  moreover have "\<lparr>cj_id = j, cj_clause = k, cj_n_clauses = nc\<rparr> = c\<lparr>cj_id := cj_id c + ofs\<rparr> \<longleftrightarrow>
      j = cj_id c + ofs \<and> c = \<lparr>cj_id = cj_id c, cj_clause = k, cj_n_clauses = nc\<rparr>" for c
    by (cases c) auto
  ultimately show ?thesis using ids by (auto simp: image_iff) (metis cls_conjunction.select_convs(1))
qed

lemma prepare_clause_hit:
  assumes "ids_within M 0 n ms" "n + ofs < 2 ^ 32"
  shows "clause_hit M hits (map (prepare_match M ofs) ms) fl \<lparr>cj_id = j, cj_clause = k, cj_n_clauses = nc\<rparr> \<longleftrightarrow>
    (\<exists>i. j = i + ofs \<and> i \<le> n \<and> clause_hit M hits ms fl \<lparr>cj_id = i, cj_clause = k, cj_n_clauses = nc\<rparr>)"
proof -
  have m: "ids_within M 0 n [m]" if "m \<in> set ms" for m using assms(1) that by (simp add: ids_within_def)
  show ?thesis
    unfolding clause_hit_def
    using prepare_flow_hit(1) [OF m assms(2)] prepare_conjunctions [OF m assms(2)] by auto
qed

lemma prepare_ids:
  assumes "ids_within M 0 n ms" "n + ofs < 2 ^ 32"
  shows "ids_within M ofs (n + ofs) (snd (expr_matches_prepare M sh sm sc ms ofs))"
  using assms by (fastforce simp: ids_within_def expr_matches_prepare_def prepare_match_def put_conj_id)

lemma prepare_accepts:
  assumes ids: "ids_within M 0 n ms" "n + ofs < 2 ^ 32"
  shows "table_accepts M hits (snd (expr_matches_prepare M sh sm sc ms ofs)) fl \<longleftrightarrow> table_accepts M hits ms fl"
proof -
  let ?ms = "map (prepare_match M ofs) ms"
  have complete: "conj_complete M hits ?ms fl j nc \<longleftrightarrow> (\<exists>i. j = i + ofs \<and> i \<le> n \<and> conj_complete M hits ms fl i nc)" for j nc
  proof
    assume c: "conj_complete M hits ?ms fl j nc"
    then have all: "\<forall>k < nc. \<exists>i. j = i + ofs \<and> i \<le> n \<and> clause_hit M hits ms fl \<lparr>cj_id = i, cj_clause = k, cj_n_clauses = nc\<rparr>"
      and "0 < nc" by (auto simp: conj_complete_def prepare_clause_hit [OF ids])
    then obtain i where "j = i + ofs" "i \<le> n" by blast
    then show "\<exists>i. j = i + ofs \<and> i \<le> n \<and> conj_complete M hits ms fl i nc"
      using all \<open>0 < nc\<close> by (intro exI [of _ i]) (auto simp: conj_complete_def)
  qed (auto simp: conj_complete_def prepare_clause_hit [OF ids])
  have "i \<le> n" if "conj_complete M hits ms fl i nc" for i nc
  proof -
    have "clause_hit M hits ms fl \<lparr>cj_id = i, cj_clause = 0, cj_n_clauses = nc\<rparr>" using that by (simp add: conj_complete_def)
    then show ?thesis using ids(1) unfolding clause_hit_def ids_within_def by (metis cls_conjunction.select_convs(1))
  qed
  then show ?thesis
    unfolding table_accepts_def expr_matches_prepare_def snd_conv complete prepare_plain_hit(1) [OF ids]
    using prepare_plain_hit(2) [OF ids] by blast
qed

end

end
