(* ===== verification/Expr_Compile.thy ===== *)
theory Expr_Compile
  imports Expr_Matches
begin

text \<open>
  The expression compiler as a whole: simplification, evaluation of conditions, normalization and
  translation to matches, in the order in which \<open>lib/expr.c\<close> is used by the controller.  The first
  part shows that the phases keep address set names off string comparisons, which
  \<open>add_disjunction\<close> asserts.
\<close>

section \<open>Address set names\<close>

text \<open>Crushing and normalization do not put an address set name on a string comparison.\<close>

fun nameless :: "expr \<Rightarrow> bool" where
  "nameless (Cmp as c) \<longleftrightarrow> as = None"
| "nameless (Andor j es) \<longleftrightarrow> (\<forall>e \<in> set es. nameless e)"
| "nameless (Boolean b) \<longleftrightarrow> True"
| "nameless (Condition t n s) \<longleftrightarrow> True"

lemma nameless_fix: "(\<And>e. e \<in> set es \<Longrightarrow> nameless e) \<Longrightarrow> nameless (expr_fix (Andor j es))"
  by (intro expr_fix_rule [where P = nameless]) auto

lemma nameless_insert_andor: "e' \<in> set (expr_insert_andor j e) \<Longrightarrow> nameless e \<Longrightarrow> nameless e'"
  by (cases e) (auto split: if_splits)

lemma crushed_names_numeric: "crushed s e \<Longrightarrow> 0 < sym_width s \<Longrightarrow> names_numeric e"
  by (erule crushed_cases) (auto simp: flat_def good_cmp_def elim!: good_leafE)

lemma numeric_names_numeric: "\<forall>c \<in> set (expr_cmps e). sym_width (cmp_symbol c) > 0 \<Longrightarrow> names_numeric e"
  by (induction e) auto

lemma names_numeric_fix: "(\<And>e. e \<in> set es \<Longrightarrow> names_numeric e) \<Longrightarrow> names_numeric (expr_fix (Andor j es))"
  by (intro expr_fix_rule [where P = names_numeric]) auto

lemma nameless_names_numeric: "nameless e \<Longrightarrow> names_numeric e"
  by (induction e) auto

lemma crushable_nameless: "crushable s e \<Longrightarrow> sym_width s = 0 \<Longrightarrow> names_numeric e \<Longrightarrow> nameless e"
  by (induction e) (auto simp: good_cmp_def)

lemma mapM_member: "mapM f xs = Some ys \<Longrightarrow> y \<in> set ys \<Longrightarrow> \<exists>x \<in> set xs. f x = Some y"
  by (induction xs arbitrary: ys) (auto simp: bind_eq_Some_conv)

definition unnamed :: "crush_sub option \<Rightarrow> bool" where
  "unnamed s \<longleftrightarrow> (case s of Some (_, as, _) \<Rightarrow> as = None | None \<Rightarrow> True)"

lemma unnamed_simps [simp]: "unnamed None" "unnamed (Some (n, None, c))"
  by (simp_all add: unnamed_def)

lemma unnamed_update: "\<forall>s \<in> set xs. unnamed s \<Longrightarrow> unnamed x \<Longrightarrow> \<forall>s \<in> set (xs[i := x]). unnamed s"
  using set_update_subset_insert [of xs i x] by blast

lemma dedup_step_unnamed:
  assumes "\<forall>s \<in> set (ca_subs (fst Ap)). unnamed s"
  shows "\<forall>s \<in> set (ca_subs (fst (dedup_step i Ap))). unnamed s"
proof -
  obtain A prev where Ap: "Ap = (A, prev)" by (cases Ap)
  have "\<forall>s \<in> set ((ca_subs A)[prev := Some (n, None, c), i := None]). unnamed s" for n c
    using assms Ap by (intro unnamed_update) simp_all
  then show ?thesis
    using assms unfolding Ap dedup_step_def by (auto split: option.split simp del: compare_cmps_3way.simps)
qed

lemma dedup_all_unnamed:
  assumes "\<forall>(n, as, c) \<in> set subs. as = None"
  shows "\<forall>s \<in> set (ca_subs (dedup_all subs)). unnamed s"
proof -
  have "\<forall>s \<in> set (ca_subs (fst (fold dedup_step js Ap))). unnamed s" if "\<forall>s \<in> set (ca_subs (fst Ap)). unnamed s" for js Ap
    using that
  proof (induction js arbitrary: Ap)
    case (Cons j js)
    from Cons.IH [OF dedup_step_unnamed [OF Cons.prems]] show ?case by simp
  qed simp
  then show ?thesis
    unfolding dedup_all_def by (rule meta_mp) (use assms in \<open>auto simp: unnamed_def\<close>)
qed

lemma crush_or_supersets_names:
  assumes "sym_width symbol = 0" "\<forall>e \<in> set es. nameless e"
    and run: "crush_or_supersets L es symbol = Some es'" and e: "e \<in> set es'"
  shows "nameless e"
proof -
  obtain ls where ls: "mapM leaf_of es = Some ls" using run by (auto simp: crush_or_supersets_def bind_eq_Some_conv)
  let ?A = "dedup_all (qsort compare_cmps_3way (map (crush_sub_of L symbol) ls))"
  have "as = None" if mem: "(as, c) \<in> set ls" for as c
  proof -
    obtain x where x: "x \<in> set es" "leaf_of x = Some (as, c)" using mapM_member [OF ls mem] by blast
    have "x = Cmp as c" using x(2) by (cases x) simp_all
    then show ?thesis using assms(2) x(1) by auto
  qed
  then have "\<forall>s \<in> set (ca_subs ?A). unnamed s" by (intro dedup_all_unnamed) (auto simp: crush_sub_of_def)
  moreover have "es' = map (\<lambda>(_, as, c). Cmp as c) (map the (filter (\<lambda>s. s \<noteq> None) (ca_subs ?A)))"
    using run ls assms(1) by (simp add: crush_or_supersets_def Let_def)
  ultimately show ?thesis using e by (auto simp: unnamed_def)
qed

lemma crush_string_loop_names:
  assumes "\<forall>e \<in> set es. \<forall>e'. crush e = Some e' \<longrightarrow> nameless e'"
    and "\<forall>as c. single = Some (as, c) \<longrightarrow> nameless (Cmp as c)"
    and "crush_string_loop crush es single ors = Some r"
  shows "case r of Inl e \<Rightarrow> nameless e | Inr (Some (as, c), _) \<Rightarrow> nameless (Cmp as c) | _ \<Rightarrow> True"
  using assms
proof (induction es arbitrary: single ors)
  case Nil
  then show ?case by (auto split: option.splits)
next
  case (Cons sub subs)
  obtain new where new: "crush sub = Some new" using Cons.prems(3) by (auto simp: bind_eq_Some_conv)
  then have names: "nameless new" using Cons.prems(1) by simp
  have IH: "?case" if "crush_string_loop crush subs single' ors' = Some r"
    "\<forall>as c. single' = Some (as, c) \<longrightarrow> nameless (Cmp as c)" for single' ors'
    using Cons.IH Cons.prems(1) that by auto
  show ?case
  proof (cases new rule: expr_type_of.cases)
    case (1 as c)
    show ?thesis
    proof (cases single)
      case None
      then show ?thesis using IH [of "Some (as, c)" ors] Cons.prems(3) new names 1 by simp
    next
      case (Some p)
      then show ?thesis using IH [of single ors] Cons.prems(2,3) new 1 by (cases p) (auto split: if_splits)
    qed
  next
    case (3 ds)
    then show ?thesis using IH [of single "ors @ [ds]"] Cons.prems(2,3) new by simp
  next
    case (4 b)
    then show ?thesis using IH [of single ors] Cons.prems(2,3) new by (auto split: if_splits)
  qed (use Cons.prems(3) new in auto)
qed

lemma crush_and_string_names:
  assumes "\<forall>e \<in> set es. \<forall>e'. crush e = Some e' \<longrightarrow> nameless e'"
    and run: "crush_and_string L crush es symbol = Some e'"
  shows "nameless e'"
proof -
  obtain r where r: "crush_string_loop crush es None [] = Some r"
    using run by (auto simp: crush_and_string_def bind_eq_Some_conv split: if_splits)
  note spec = crush_string_loop_names [OF assms(1) _ r, simplified]
  show ?thesis
  proof (cases r)
    case (Inl e)
    then show ?thesis using run r spec by (auto simp: crush_and_string_def split: if_splits)
  next
    case (Inr p)
    then obtain s ors where p: "p = (s, ors)" by (cases p)
    show ?thesis
    proof (cases s)
      case None
      have fixed: "nameless (expr_fix (Andor J_OR (map (string_cmp symbol) xs)))" for xs
        by (rule nameless_fix) (auto simp: string_cmp_def)
      show ?thesis
        using run r Inr p None fixed
        by (auto simp: crush_and_string_def bind_eq_Some_conv simp del: expr_fix.simps split: if_splits option.splits)
    next
      case (Some ac)
      then show ?thesis
        using run r spec Inr p
        by (cases ac) (auto simp: crush_and_string_def bind_eq_Some_conv split: if_splits)
    qed
  qed
qed

lemma crush_or_names:
  assumes "sym_width symbol = 0" "\<forall>e \<in> set es. \<forall>e'. crush e = Some e' \<longrightarrow> nameless e'"
    and run: "crush_or L crush es symbol = Some e'"
  shows "nameless e'"
proof -
  obtain subs where subs: "mapM crush es = Some subs" using run by (auto simp: crush_or_def bind_eq_Some_conv)
  let ?e = "expr_fix (Andor J_OR (concat (map (expr_insert_andor J_OR) subs)))"
  have "nameless e" if mem: "e \<in> set subs" for e
    using mapM_member [OF subs mem] assms(2) by blast
  then have e: "nameless ?e" by (intro nameless_fix) (auto dest: nameless_insert_andor)
  show ?thesis
  proof (cases "is_junct J_OR ?e")
    case True
    then obtain ds where ds: "?e = Andor J_OR ds" by (auto simp: is_junct_iff)
    then obtain ds' where ds': "crush_or_supersets L ds symbol = Some ds'" "e' = expr_fix (Andor J_OR ds')"
      using run subs by (auto simp: crush_or_def bind_eq_Some_conv simp del: expr_fix.simps)
    have "\<forall>d \<in> set ds. nameless d" using e ds by simp
    then show ?thesis
      unfolding ds'(2) using crush_or_supersets_names [OF assms(1) _ ds'(1)] by (intro nameless_fix) blast
  next
    case False
    then have "e' = ?e"
      using run subs by (cases ?e rule: expr_type_of.cases) (auto simp: crush_or_def simp del: expr_fix.simps)
    then show ?thesis using e by simp
  qed
qed

lemma names_numeric_insert_andor: "e' \<in> set (expr_insert_andor j e) \<Longrightarrow> names_numeric e \<Longrightarrow> names_numeric e'"
  by (cases e) (auto split: if_splits)

lemma crush_cmps_nameless:
  "sym_width symbol = 0 \<Longrightarrow> nameless e \<Longrightarrow> crush_cmps_fuel fuel L symbol e = Some e' \<Longrightarrow> nameless e'"
proof (induction fuel arbitrary: e e')
  case (Suc fuel)
  show ?case
  proof (cases e rule: expr_type_of.cases)
    case (2 es)
    have "\<forall>e \<in> set es. \<forall>e'. crush_cmps_fuel fuel L symbol e = Some e' \<longrightarrow> nameless e'"
      using Suc.IH [OF Suc.prems(1)] Suc.prems(2) 2 by auto
    from crush_and_string_names [OF this] show ?thesis using Suc.prems(1,3) 2 by simp
  next
    case (3 es)
    have "\<forall>e \<in> set es. \<forall>e'. crush_cmps_fuel fuel L symbol e = Some e' \<longrightarrow> nameless e'"
      using Suc.IH [OF Suc.prems(1)] Suc.prems(2) 3 by auto
    from crush_or_names [OF Suc.prems(1) this] show ?thesis using Suc.prems(3) 3 by simp
  qed (use Suc.prems in auto)
qed simp

context ovs_bits_api
begin

lemma crush_cmps_names:
  assumes "crushable s e" "names_numeric e" "crush_cmps L e s = Some e'"
  shows "names_numeric e'"
proof (cases "sym_width s = 0")
  case True
  have "nameless e" using crushable_nameless assms(1,2) True by blast
  from crush_cmps_nameless [OF True this assms(3) [unfolded crush_cmps_def]] show ?thesis
    by (rule nameless_names_numeric)
next
  case False
  then show ?thesis using crush_cmps_ok [OF assms(1)] assms(3) crushed_names_numeric by auto
qed

lemma crush_group_names:
  assumes items: "\<forall>i \<in> set (item # grp). names_numeric (es_expr i) \<and> term_ok (es_expr i) \<and> expr_get_unique_symbol (es_expr i) = Some s"
    and run: "crush_sort_group L item grp s = Some c"
  shows "names_numeric c"
proof (cases "grp = []")
  case True
  then show ?thesis
    using run items crush_cmps_names [of s "es_expr item" c] unique_crushable
    by (auto simp: crush_sort_group_def term_ok_def)
next
  case False
  let ?e = "Andor J_AND (es_expr item # map es_expr grp)"
  have "fold (\<lambda>i c. combine_and c (es_expr i)) grp (es_expr item) = ?e"
    using items False by (intro fold_combine_and) (auto simp: term_ok_def)
  then have "crush_cmps L ?e s = Some c" using run False by (simp add: crush_sort_group_def split: if_splits)
  moreover have "crushable s ?e"
    using items False unique_crushable by (cases grp) (auto simp: term_ok_def)
  ultimately show ?thesis using crush_cmps_names [of s ?e c] items by auto
qed

lemma expr_sort_loop_names:
  assumes "\<forall>i \<in> set items. names_numeric (es_expr i) \<and> term_ok (es_expr i) \<and> es_symbol i = expr_get_unique_symbol (es_expr i)"
    and "\<forall>e. acc = Some e \<longrightarrow> names_numeric e" and "expr_sort_loop L items acc = Some (Some e')"
  shows "names_numeric e'"
  using assms
proof (induction "length items" arbitrary: items acc rule: less_induct)
  case less
  have names_combine: "names_numeric e" if "expr_combine J_AND acc (Some x) = Some e" "names_numeric x" for x e
    using that less.prems(2) by (cases acc) (auto dest: names_numeric_insert_andor)
  show ?case
  proof (cases items)
    case Nil
    then show ?thesis using less.prems(2,3) by simp
  next
    case (Cons item rest)
    show ?thesis
    proof (cases "es_symbol item")
      case None
      let ?acc = "expr_combine J_AND acc (Some (es_expr item))"
      have "\<forall>e. ?acc = Some e \<longrightarrow> names_numeric e" using names_combine less.prems(1) Cons by auto
      then show ?thesis using less.hyps [of rest ?acc] less.prems(1,3) Cons None by simp
    next
      case (Some s)
      let ?P = "\<lambda>i. es_symbol i = es_symbol item"
      let ?grp = "takeWhile ?P rest" and ?rest = "dropWhile ?P rest"
      obtain c where c: "crush_sort_group L item ?grp s = Some c" using less.prems(3) Cons Some
        by (auto simp: Let_def bind_eq_Some_conv)
      have names: "names_numeric c"
        using less.prems(1) Cons Some by (intro crush_group_names [OF _ c]) (auto dest: set_takeWhileD)
      then have acc': "\<forall>e. expr_combine J_AND acc (Some c) = Some e \<longrightarrow> names_numeric e" using names_combine by blast
      have len: "length ?rest < length items" using length_dropWhile_le Cons by (simp add: less_Suc_eq_le)
      have rest: "\<forall>i \<in> set ?rest. names_numeric (es_expr i) \<and> term_ok (es_expr i) \<and>
          es_symbol i = expr_get_unique_symbol (es_expr i)"
        using less.prems(1) Cons by (auto dest: set_dropWhileD)
      have run: "expr_sort_loop L items acc = (case c of
            Boolean b \<Rightarrow> if \<not> b then Some (Some c) else expr_sort_loop L ?rest acc
          | _ \<Rightarrow> expr_sort_loop L ?rest (expr_combine J_AND acc (Some c)))"
        using Cons Some c by (cases c) (simp_all add: Let_def)
      show ?thesis
      proof (cases "\<exists>b. c = Boolean b")
        case True
        then show ?thesis
          using run less.prems(3) names less.hyps [OF len rest less.prems(2)] by (auto split: if_splits)
      next
        case False
        then have "expr_sort_loop L ?rest (expr_combine J_AND acc (Some c)) = Some (Some e')"
          using run less.prems(3) by (cases c) auto
        then show ?thesis by (rule less.hyps [OF len rest acc'])
      qed
    qed
  qed
qed

lemma expr_sort_names:
  assumes "\<forall>e \<in> set es. names_numeric e \<and> term_ok e" "expr_sort L es = Some e'"
  shows "names_numeric e'"
proof -
  let ?items = "qsort compare_expr_sort (map sort_item es)"
  obtain r where r: "expr_sort_loop L ?items None = Some r" "e' = (case r of Some e \<Rightarrow> e | None \<Rightarrow> Boolean True)"
    using assms(2) by (auto simp: expr_sort_def bind_eq_Some_conv)
  have "\<forall>i \<in> set ?items. names_numeric (es_expr i) \<and> term_ok (es_expr i) \<and> es_symbol i = expr_get_unique_symbol (es_expr i)"
    using assms(1) by auto
  from expr_sort_loop_names [OF this, of None] show ?thesis using r by (cases r) auto
qed

lemma normalize_or_names:
  assumes "\<forall>e \<in> set es. names_numeric e"
    and "\<And>ks e'. Andor J_AND ks \<in> set es \<Longrightarrow> nand ks = Some e' \<Longrightarrow> names_numeric e'"
    and "expr_normalize_or nand es = Some e'"
  shows "names_numeric e'"
proof -
  have "case r of Inl e \<Rightarrow> names_numeric e | Inr es' \<Rightarrow> \<forall>e \<in> set es'. names_numeric e"
    if "normalize_or_loop nand es = Some r" for r
    using that assms(1,2)
  proof (induction es arbitrary: r)
    case (Cons sub rest)
    have IH: "case r of Inl e \<Rightarrow> names_numeric e | Inr es' \<Rightarrow> \<forall>e \<in> set es'. names_numeric e"
      if "normalize_or_loop nand rest = Some r" for r
      using Cons that by auto
    have keep: ?case if r: "do { r \<leftarrow> normalize_or_loop nand rest;
        Some (case r of Inl e \<Rightarrow> Inl e | Inr es' \<Rightarrow> Inr (sub # es')) } = Some r"
    proof -
      obtain r' where "normalize_or_loop nand rest = Some r'" "r = (case r' of Inl e \<Rightarrow> Inl e | Inr es' \<Rightarrow> Inr (sub # es'))"
        using r by (auto simp: bind_eq_Some_conv)
      then show ?thesis using IH [of r'] Cons.prems(2) by (cases r') auto
    qed
    show ?case
    proof (cases sub rule: expr_type_of.cases)
      case (2 ks)
      obtain new where new: "nand ks = Some new" using Cons.prems(1) 2 by (auto simp: bind_eq_Some_conv)
      then have names: "names_numeric new" using Cons.prems(3) [of ks new] 2 by simp
      have ins: "\<forall>e \<in> set (expr_insert_andor J_OR new). names_numeric e"
        using names names_numeric_insert_andor by blast
      show ?thesis
      proof (cases "\<exists>b. new = Boolean b")
        case True
        then show ?thesis using Cons.prems(1) 2 new IH [of r] by (auto split: if_splits)
      next
        case False
        then obtain r' where "normalize_or_loop nand rest = Some r'"
            "r = (case r' of Inl e \<Rightarrow> Inl e | Inr es' \<Rightarrow> Inr (expr_insert_andor J_OR new @ es'))"
          using Cons.prems(1) 2 new by (cases new) (auto simp: bind_eq_Some_conv)
        then show ?thesis using IH [of r'] ins by (cases r') auto
      qed
    qed (use Cons.prems(1) keep in auto)
  qed simp
  moreover obtain r where r: "normalize_or_loop nand es = Some r"
    using assms(3) by (auto simp: expr_normalize_or_def bind_eq_Some_conv)
  ultimately have names: "case r of Inl e \<Rightarrow> names_numeric e | Inr es' \<Rightarrow> \<forall>e \<in> set es'. names_numeric e" by blast
  show ?thesis
  proof (cases r)
    case (Inr es')
    then show ?thesis using assms(3) r names
      by (cases es' rule: list_cases3) (auto simp: expr_normalize_or_def)
  qed (use assms(3) r names in \<open>auto simp: expr_normalize_or_def\<close>)
qed

lemma product_names:
  assumes "\<forall>y \<in> set (pre @ Andor J_OR ks # post). names_numeric y" "k \<in> set ks"
  shows "\<forall>e \<in> set (product_term pre k post). names_numeric e"
proof -
  have "\<forall>y \<in> set (pre @ k # post). names_numeric y" using assms by auto
  then show ?thesis unfolding product_term_def using names_numeric_insert_andor by auto
qed

lemma normalize_sorted_names:
  assumes sort: "expr_sort L es = Some (Andor J_AND ys)" and "2 \<le> length ys"
    and ys: "\<forall>y \<in> set ys. sorted_term y" "distinct (unique_symbols ys)" "\<forall>y \<in> set ys. names_numeric y"
    and IH: "\<And>zs e'. \<forall>e \<in> set zs. term_ok e \<Longrightarrow> \<forall>e \<in> set zs. names_numeric e \<Longrightarrow> 2 \<le> length zs \<Longrightarrow>
      syms_of zs \<subseteq> syms_of ys \<Longrightarrow> expr_normalize_and fuel L zs = Some e' \<Longrightarrow> names_numeric e'"
    and run: "expr_normalize_and (Suc fuel) L es = Some e'"
  shows "names_numeric e'"
proof -
  obtain a b zs where zs: "ys = a # b # zs" using \<open>2 \<le> length ys\<close> by (cases ys rule: list_cases3) auto
  have merge: "merge_cmps L ys = Some ys" by (rule merge_cmps_id [OF ys(1,2)])
  have "cross_spec ys" by (rule cross_spec [OF ys(1)])
  then consider "find_cross ys = Some None"
    | pre ks post where "find_cross ys = Some (Some (pre, ks, post))" "ys = pre @ Andor J_OR ks # post"
      "expr_get_unique_symbol (Andor J_OR ks) = None \<or> (\<forall>k \<in> set ks. leaf_of k \<noteq> None)"
    unfolding cross_spec_def by blast
  then show ?thesis
  proof cases
    case 1
    then have "e' = Andor J_AND ys" using run sort merge zs by simp
    then show ?thesis using ys(3) by simp
  next
    case (2 pre ks post)
    let ?subs = "map (\<lambda>k. Andor J_AND (product_term pre k post)) ks"
    have or_run: "expr_normalize_or (expr_normalize_and fuel L) ?subs = Some e'"
      using run sort merge 2(1) zs by (simp add: product_term_def)
    have ne: "pre @ post \<noteq> []" using 2(2) zs by (cases pre) auto
    note ok = product_ok [OF ys(1) [unfolded 2(2)] ne _ 2(3), folded 2(2)]
    have names: "\<forall>e \<in> set (product_term pre k post). names_numeric e" if "k \<in> set ks" for k
      by (rule product_names [OF ys(3) [unfolded 2(2)] that])
    show ?thesis
    proof (rule normalize_or_names [OF _ _ or_run])
      show "\<forall>e \<in> set ?subs. names_numeric e" using names by auto
      fix zs e'' assume "Andor J_AND zs \<in> set ?subs" "expr_normalize_and fuel L zs = Some e''"
      then show "names_numeric e''" using IH [of zs e''] ok names by auto
    qed
  qed
qed

lemma expr_normalize_and_names:
  assumes "\<forall>e \<in> set es. term_ok e" "\<forall>e \<in> set es. names_numeric e" "2 \<le> length es" "well_named (syms_of es)"
    and "expr_normalize_and fuel L es = Some e'"
  shows "names_numeric e'"
  using assms
proof (induction fuel arbitrary: es e')
  case (Suc fuel)
  have "es \<noteq> []" using Suc.prems(3) by auto
  from expr_sort_ok [OF Suc.prems(1) this Suc.prems(4)]
  consider "expr_sort L es = Some (Boolean False)" | ys where "expr_sort L es = and_list ys" "sorts_to es ys"
    by blast
  then show ?case
  proof cases
    case 1
    then show ?thesis using Suc.prems(5) by auto
  next
    case (2 ys)
    have sorted: "\<forall>y \<in> set ys. sorted_term y" "ys \<noteq> []" "distinct (unique_symbols ys)" "syms_of ys \<subseteq> syms_of es"
      using 2(2) by (simp_all add: sorts_to_def)
    obtain e where e: "and_list ys = Some e" using sorted(2) by (cases ys rule: list_cases3) (auto simp: and_list_def)
    have "names_numeric e" using expr_sort_names [of es e] Suc.prems(1,2) 2(1) e by simp
    then have names: "\<forall>y \<in> set ys. names_numeric y" using e by (cases ys rule: list_cases3) (auto simp: and_list_def)
    show ?thesis
    proof (cases ys rule: list_cases3)
      case y: (2 y)
      have "\<not> is_junct J_AND y" using sorted_term_ok sorted(1) y by (auto simp: term_ok_def)
      then have "e' = y" using Suc.prems(5) 2(1) y by (cases y rule: expr_type_of.cases) (auto simp: and_list_def)
      then show ?thesis using names y by simp
    next
      case (3 a b zs)
      show ?thesis
      proof (rule normalize_sorted_names [OF _ _ sorted(1,3) names _ Suc.prems(5)])
        show "expr_sort L es = Some (Andor J_AND ys)" using 2(1) 3 by (simp add: and_list_def)
        fix zs e' assume zs: "\<forall>e \<in> set zs. term_ok e" "\<forall>e \<in> set zs. names_numeric e" "2 \<le> length zs"
          "syms_of zs \<subseteq> syms_of ys" "expr_normalize_and fuel L zs = Some e'"
        have "well_named (syms_of zs)" using well_named_mono [OF Suc.prems(4)] zs(4) sorted(4) by blast
        from Suc.IH [OF zs(1-3) this zs(5)] show "names_numeric e'" .
      qed (use 3 in simp)
    qed (use sorted(2) in simp)
  qed
qed simp

lemma expr_normalize_names:
  assumes "good_tree e" "names_numeric e" "well_named (expr_syms e)" "expr_normalize L e = Some e'"
  shows "names_numeric e'"
proof -
  have conj: "names_numeric e''"
    if "good_tree (Andor J_AND es)" "names_numeric (Andor J_AND es)" "expr_syms (Andor J_AND es) \<subseteq> expr_syms e"
      "expr_normalize_and fuel L es = Some e''" for es fuel e''
    using that expr_normalize_and_names [of es fuel e''] well_named_mono [OF assms(3) that(3)]
    by (auto simp: term_ok_def)
  show ?thesis
  proof (cases e rule: expr_type_of.cases)
    case (2 es)
    then show ?thesis using conj [of es "Suc (expr_nodes e)" e'] assms by (simp add: expr_normalize_def)
  next
    case (3 es)
    show ?thesis
    proof (rule normalize_or_names)
      show "expr_normalize_or (expr_normalize_and (Suc (expr_nodes e)) L) es = Some e'"
        using assms(4) 3 by (simp add: expr_normalize_def)
      fix ks e'' assume ks: "Andor J_AND ks \<in> set es" "expr_normalize_and (Suc (expr_nodes e)) L ks = Some e''"
      then have "expr_syms (Andor J_AND ks) \<subseteq> expr_syms e" unfolding 3 expr_syms_simps(2) [of J_OR] by blast
      moreover have "good_tree (Andor J_AND ks)" "names_numeric (Andor J_AND ks)" using ks(1) assms(1,2) 3 by auto
      ultimately show "names_numeric e''" using conj ks(2) by blast
    qed (use assms(2) 3 in auto)
  qed (use assms in \<open>auto simp: expr_normalize_def\<close>)
qed

lemma simplify_names:
  "wf_expr e \<Longrightarrow> names_numeric e \<Longrightarrow> expr_simplify L e = Some e' \<Longrightarrow> names_numeric e'"
proof (induction e arbitrary: e')
  case (Cmp as c)
  show ?case
  proof (cases "sym_width (cmp_symbol c) = 0")
    case False
    have "stems_from (Cmp as c) e'" using simplify_correct [OF Cmp.prems(1)] Cmp.prems(3) by auto
    then have "\<forall>c' \<in> set (expr_cmps e'). sym_width (cmp_symbol c') > 0" using False by (auto simp: stems_from_def)
    then show ?thesis by (rule numeric_names_numeric)
  qed (use Cmp.prems in auto)
next
  case (Andor j es)
  obtain es' where es': "mapM (expr_simplify L) es = Some es'"
      "e' = expr_fix (Andor j (concat (map (expr_insert_andor j) es')))"
    using Andor.prems(3) by (auto simp: bind_eq_Some_conv comp_def)
  have "names_numeric e" if mem: "e \<in> set es'" for e
    using mapM_member [OF es'(1) mem] Andor by auto
  then show ?case
    unfolding es'(2) by (intro names_numeric_fix) (auto dest: names_numeric_insert_andor)
qed auto

end

lemma evaluate_condition_names:
  "names_numeric e \<Longrightarrow> names_numeric (expr_evaluate_condition resident e)"
proof (induction resident e rule: expr_evaluate_condition.induct)
  case (1 resident j es)
  have "names_numeric (expr_fix e)" if "names_numeric e" for e
    using that names_numeric_fix by (cases e) auto
  with 1 show ?case
    unfolding expr_evaluate_condition.simps by (intro names_numeric_fix) (auto dest!: names_numeric_insert_andor)
qed (auto simp: expr_evaluate_condition1_def)

context ovs_bits_api
begin

lemma pipeline_names:
  assumes "wf_expr e" "strings_eq e" "names_numeric e" "well_named (expr_syms e)"
    and "expr_simplify L e = Some e1" "expr_normalize L (expr_evaluate_condition resident e1) = Some e2"
  shows "names_numeric e2"
proof -
  let ?c = "expr_evaluate_condition resident e1"
  have e1: "simple_tree e1" "stems_from e e1" using simplify_correct [OF assms(1)] assms(5) by auto
  have c: "simple_tree ?c" "no_cond ?c" "stems_from e ?c" "names_numeric ?c"
    using simple_tree_evaluate_condition [OF e1(1)] no_cond_evaluate_condition
      stems_from_trans [OF e1(2) stems_from_evaluate_condition]
      evaluate_condition_names [OF simplify_names [OF assms(1,3,5)]] by auto
  show ?thesis
  proof (cases "\<exists>b. ?c = Boolean b")
    case True
    then show ?thesis using assms(6) by (auto simp: expr_normalize_def)
  next
    case False
    then have "good_tree ?c"
      using simple_good_tree c(1,2) stems_from_strings [OF c(3) assms(2)] by (auto simp: simple_tree_def bool_top_def)
    then show ?thesis
      using expr_normalize_names c(4) well_named_mono [OF assms(4) stems_from_syms [OF c(3)]] assms(6) by blast
  qed
qed

end

section \<open>The whole compiler\<close>

lemma ports_inj_env_of: "ports_inj (env_of F lk res fl) \<longleftrightarrow> (\<forall>a b p. lk a = Some p \<longrightarrow> lk b = Some p \<longrightarrow> a = b)"
  by (simp add: ports_inj_def env_of_def)

text \<open>
  The evaluator \<open>expr_evaluate\<close> agrees with the meaning of expressions on symbols that stand for whole fields.
\<close>

definition whole_field :: "expr_symbol \<Rightarrow> bool" where
  "whole_field s \<longleftrightarrow> (case sym_field s of None \<Rightarrow> False
     | Some f \<Rightarrow> sym_width s \<le> mf_n_bits f \<and> mf_n_bits f \<le> 8 * mf_n_bytes f)"

lemma take_bit_wider: "take_bit n v = v \<Longrightarrow> n \<le> m \<Longrightarrow> take_bit m v = v" for v :: nat
  by (metis min.absorb2 take_bit_take_bit)

lemma sub_mask_width: "take_bit w m = m \<Longrightarrow> v AND m = v \<Longrightarrow> take_bit w v = v" for v m :: nat
  by (auto simp: sub_mask_iff within_width_iff)

context flow_api
begin

lemma evaluate_cmp_sem:
  assumes "whole_field (cmp_symbol c)" "wf_cmp c"
  shows "expr_evaluate_cmp F fl lk c = Some (sem_cmp (env_of F lk res fl) c)"
proof -
  obtain f where f: "sym_field (cmp_symbol c) = Some f" "sym_width (cmp_symbol c) \<le> mf_n_bits f" "mf_n_bits f \<le> 8 * mf_n_bytes f"
    using assms(1) by (auto simp: whole_field_def split: option.splits)
  show ?thesis
  proof (cases "sym_width (cmp_symbol c) > 0")
    case True
    then have "take_bit (8 * mf_n_bytes f) (cmp_mask c) = cmp_mask c" "take_bit (8 * mf_n_bytes f) (cmp_value c) = cmp_value c"
      using assms(2) f(2,3) take_bit_wider sub_mask_width unfolding wf_cmp_def by (meson order_trans)+
    then show ?thesis using f(1) True by (simp add: expr_evaluate_cmp_def sem_cmp_def env_of_def)
  next
    case False
    then show ?thesis
      using f get_whole_field [OF f(3)] by (auto simp: expr_evaluate_cmp_def sem_cmp_def env_of_def split: option.splits)
  qed
qed

lemma evaluate_sem:
  assumes "no_cond e \<or> (\<forall>s. res s)" "\<forall>s \<in> expr_syms e. whole_field s" "wf_expr e"
  shows "expr_evaluate F fl lk e = Some (sem (env_of F lk res fl) e)"
  using assms
proof (induction e)
  case (Cmp as c)
  then show ?case using evaluate_cmp_sem by simp
next
  case (Andor j es)
  have "\<forall>e \<in> set es. expr_evaluate F fl lk e = Some (sem (env_of F lk res fl) e)"
  proof
    fix e assume e: "e \<in> set es"
    then show "expr_evaluate F fl lk e = Some (sem (env_of F lk res fl) e)" using Andor.prems by (intro Andor.IH [OF e]) auto
  qed
  then have "expr_evaluate_andor F fl sc lk es =
      Some (if sc then \<exists>e \<in> set es. sem (env_of F lk res fl) e else \<forall>e \<in> set es. sem (env_of F lk res fl) e)" for sc
    by (induction es) auto
  then show ?case by (cases j) simp_all
qed (simp_all add: env_of_def)

end

lemma set_cmps_evaluate_condition: "set (expr_cmps (expr_evaluate_condition resident e)) \<subseteq> set (expr_cmps e)"
proof (induction resident e rule: expr_evaluate_condition.induct)
  case (1 resident j es)
  let ?f = "\<lambda>e. expr_fix (expr_evaluate_condition resident e)"
  have "set (expr_cmps (Andor j (concat (map (\<lambda>e. expr_insert_andor j (?f e)) es)))) = (\<Union>e \<in> set es. set (expr_cmps (?f e)))"
    using set_cmps_insert_andor by simp
  also have "\<dots> \<subseteq> set (expr_cmps (Andor j es))" using 1 set_expr_cmps_fix by fastforce
  finally show ?case unfolding expr_evaluate_condition.simps by (rule subset_trans [OF set_expr_cmps_fix])
qed (simp_all add: expr_evaluate_condition1_def)

lemma compile_expr_ok:
  assumes L: "ovs_bits_api L" and M: "match_api F M hits used overlap"
    and e: "wf_expr e" "strings_eq e" "names_numeric e" "well_named (expr_syms e)" "syms_ok M lk overlap (expr_syms e)"
    and lk: "\<forall>a b p. lk a = Some p \<longrightarrow> lk b = Some p \<longrightarrow> a = b"
  shows "\<exists>e1 e2. expr_simplify L e = Some e1 \<and> expr_normalize L (expr_evaluate_condition resident e1) = Some e2 \<and>
    (fits e2 \<longrightarrow> (\<exists>n ms. expr_to_matches M lk e2 = Some (n, ms) \<and> n < 2 ^ 32 \<and> table_inv ms \<and> ids_within M 0 n ms \<and>
       (\<forall>fl. table_accepts M hits ms fl \<longleftrightarrow> sem (env_of F lk resident fl) e)))"
proof -
  obtain e1 e2 where e2: "expr_simplify L e = Some e1" "expr_normalize L (expr_evaluate_condition resident e1) = Some e2"
      "normal_form e2" "expr_syms e2 \<subseteq> expr_syms e"
      "\<And>E. ports_inj E \<Longrightarrow> env_resident E = resident \<Longrightarrow> sem E e2 = sem E e"
    using ovs_bits_api.expr_pipeline_ok [OF L e(1,2,4), of resident] by blast
  have names: "names_numeric e2" by (rule ovs_bits_api.pipeline_names [OF L e(1-4) e2(1,2)])
  have sem_eq: "sem (env_of F lk resident fl) e2 = sem (env_of F lk resident fl) e" for fl
  proof (rule e2(5))
    show "ports_inj (env_of F lk resident fl)" using lk by (simp add: ports_inj_env_of)
  qed (simp add: env_of_def)
  have syms: "syms_ok M lk overlap (expr_syms e2)" by (rule syms_ok_mono [OF e(5) e2(4)])
  show ?thesis
    using match_api.expr_to_matches_ok [OF M e2(3) names _ syms, of resident] e2(1,2) sem_eq by auto
qed

end
