(* ===== verification/Extend_Table.thy ===== *)
theory Extend_Table
  imports Ovn_Prelude
begin

text \<open>
  Tables of group and meter ids (\<open>lib/extend-table.c\<close>, \<open>lib/extend-table.h\<close>).  A table has the
  entries wanted by the logical flows (\<open>desired\<close>) and those installed in the switch (\<open>existing\<close>);
  entries of one name in both tables share one id and are linked by their \<open>peer\<close> pointers, and an
  id goes back to the pool only when the last of the two entries is removed.

  The id pool belongs to Open vSwitch (\<open>lib/id-pool.h\<close>): it is the parameter \<open>P\<close>, whose contract is
  the locale \<open>id_pool_api\<close>; so is \<open>hash_string\<close>, the parameter \<open>H\<close>, of which nothing is assumed.
  An entry is identified by its table and its name, and a pointer to an entry is its name; an operation
  that would follow a pointer to a freed entry returns \<open>None\<close>.  The lemmas show that this never
  happens, that ids are never shared by two names nor leaked, and that the flow index and the
  references of the entries stay inverse to each other.
\<close>

section \<open>The id pool\<close>

record 'p id_pool_ops =
  id_pool_create :: "nat \<Rightarrow> nat \<Rightarrow> 'p"
  id_pool_alloc_id :: "'p \<Rightarrow> (nat \<times> 'p) option"
  id_pool_free_id :: "'p \<Rightarrow> nat \<Rightarrow> 'p"

locale id_pool_api =
  fixes P :: "'p id_pool_ops" and used :: "'p \<Rightarrow> nat set" and ids :: "'p \<Rightarrow> nat set"
  assumes create_used: "used (id_pool_create P base n) = {}"
    and create_ids: "ids (id_pool_create P base n) = {base..<base + n}"
    and alloc_some: "id_pool_alloc_id P p = Some (i, p') \<Longrightarrow>
      i \<in> ids p \<and> i \<notin> used p \<and> used p' = insert i (used p) \<and> ids p' = ids p"
    and alloc_none: "id_pool_alloc_id P p = None \<Longrightarrow> ids p \<subseteq> used p"
    and free_used: "used (id_pool_free_id P p i) = used p - {i}"
    and free_ids: "ids (id_pool_free_id P p i) = ids p"

text \<open>A pool that gives out the lowest free id.\<close>

record ref_pool =
  rp_base :: nat
  rp_n :: nat
  rp_used :: "nat list"

definition ref_pools :: "ref_pool id_pool_ops" where
  "ref_pools =
     \<lparr>id_pool_create = (\<lambda>base n. \<lparr>rp_base = base, rp_n = n, rp_used = []\<rparr>),
      id_pool_alloc_id = (\<lambda>p. map_option (\<lambda>i. (i, p\<lparr>rp_used := i # rp_used p\<rparr>))
        (List.find (\<lambda>i. i \<notin> set (rp_used p)) [rp_base p..<rp_base p + rp_n p])),
      id_pool_free_id = (\<lambda>p i. p\<lparr>rp_used := removeAll i (rp_used p)\<rparr>)\<rparr>"

interpretation rpool: id_pool_api ref_pools "\<lambda>p. set (rp_used p)" "\<lambda>p. {rp_base p..<rp_base p + rp_n p}"
  by unfold_locales (auto simp: ref_pools_def find_Some_iff find_None_iff)

section \<open>Tables\<close>

record ovn_extend_table_info =
  info_name :: string
  info_table_id :: nat
  info_peer :: "string option"
  info_references :: "uuid list"

record 'p ovn_extend_table =
  et_name :: string
  et_n_ids :: nat
  et_table_ids :: 'p
  et_desired :: "ovn_extend_table_info list"
  et_lflow_to_desired :: "(uuid \<times> string list) list"
  et_existing :: "ovn_extend_table_info list"

definition find_info :: "string \<Rightarrow> ovn_extend_table_info list \<Rightarrow> ovn_extend_table_info option" where
  "find_info n es = List.find (\<lambda>e. info_name e = n) es"

definition upd_info :: "string \<Rightarrow> (ovn_extend_table_info \<Rightarrow> ovn_extend_table_info) \<Rightarrow>
    ovn_extend_table_info list \<Rightarrow> ovn_extend_table_info list" where
  "upd_info n f es = map (\<lambda>e. if info_name e = n then f e else e) es"

definition del_info :: "string \<Rightarrow> ovn_extend_table_info list \<Rightarrow> ovn_extend_table_info list" where
  "del_info n es = filter (\<lambda>e. info_name e \<noteq> n) es"

definition EXT_TABLE_ID_INVALID :: nat where
  "EXT_TABLE_ID_INVALID = 0"

definition ovn_extend_table_init :: "'p id_pool_ops \<Rightarrow> string \<Rightarrow> nat \<Rightarrow> 'p ovn_extend_table" where
  "ovn_extend_table_init P table_name n_ids =
     \<lparr>et_name = table_name, et_n_ids = n_ids, et_table_ids = id_pool_create P 1 n_ids,
      et_desired = [], et_lflow_to_desired = [], et_existing = []\<rparr>"

text \<open>\<open>ovn_extend_table_info_alloc\<close>: the new entry, and the table of its peer with the back link.\<close>

definition ovn_extend_table_info_alloc :: "string \<Rightarrow> nat \<Rightarrow> string option \<Rightarrow> ovn_extend_table_info list \<Rightarrow>
    ovn_extend_table_info \<times> ovn_extend_table_info list" where
  "ovn_extend_table_info_alloc name i peer others =
     (\<lparr>info_name = name, info_table_id = i, info_peer = peer, info_references = []\<rparr>,
      case peer of None \<Rightarrow> others | Some q \<Rightarrow> upd_info q (\<lambda>e. e\<lparr>info_peer := Some name\<rparr>) others)"

text \<open>\<open>ovn_extend_table_info_destroy\<close>: the references of the freed entry leave the lists of their flows.\<close>

definition ovn_extend_table_info_destroy :: "ovn_extend_table_info \<Rightarrow> (uuid \<times> string list) list \<Rightarrow>
    (uuid \<times> string list) list" where
  "ovn_extend_table_info_destroy e ls =
     map (\<lambda>(u, ns). (u, if u \<in> set (info_references e) then removeAll (info_name e) ns else ns)) ls"

definition ovn_extend_table_lookup :: "(string \<Rightarrow> nat) \<Rightarrow> ovn_extend_table_info list \<Rightarrow>
    ovn_extend_table_info \<Rightarrow> ovn_extend_table_info option" where
  "ovn_extend_table_lookup H existing target =
     List.find (\<lambda>e. H (info_name e) = H (info_name target) \<and> info_table_id e = info_table_id target) existing"

definition ovn_extend_table_find_desired_by_lflow :: "(uuid \<times> string list) list \<Rightarrow> uuid \<Rightarrow> string list option" where
  "ovn_extend_table_find_desired_by_lflow ls u = map_of ls u"

definition ovn_extend_table_add_desired_to_lflow :: "(uuid \<times> string list) list \<Rightarrow> uuid \<Rightarrow> string \<Rightarrow>
    (uuid \<times> string list) list" where
  "ovn_extend_table_add_desired_to_lflow ls u name =
     (let ls1 = (case ovn_extend_table_find_desired_by_lflow ls u of None \<Rightarrow> ls @ [(u, [])] | Some _ \<Rightarrow> ls) in
      map (\<lambda>(v, ns). (v, if v = u then ns @ [name] else ns)) ls1)"

definition ovn_extend_info_find_lflow_ref :: "ovn_extend_table_info \<Rightarrow> uuid \<Rightarrow> bool" where
  "ovn_extend_info_find_lflow_ref e u \<longleftrightarrow> list_ex (\<lambda>v. v = u) (info_references e)"

definition ovn_extend_info_add_lflow_ref :: "'p ovn_extend_table \<Rightarrow> ovn_extend_table_info \<Rightarrow> uuid \<Rightarrow>
    'p ovn_extend_table" where
  "ovn_extend_info_add_lflow_ref t e u =
     (if ovn_extend_info_find_lflow_ref e u then t
      else t\<lparr>et_desired := upd_info (info_name e) (\<lambda>d. d\<lparr>info_references := info_references d @ [u]\<rparr>) (et_desired t),
             et_lflow_to_desired := ovn_extend_table_add_desired_to_lflow (et_lflow_to_desired t) u (info_name e)\<rparr>)"

text \<open>The common tail of the removals: the peer forgets the entry, or the id is freed.\<close>

definition release_info :: "'p id_pool_ops \<Rightarrow> ovn_extend_table_info \<Rightarrow> ovn_extend_table_info list \<Rightarrow> 'p \<Rightarrow>
    (ovn_extend_table_info list \<times> 'p) option" where
  "release_info P g others pool =
     (case info_peer g of
        Some q \<Rightarrow> (case find_info q others of
            None \<Rightarrow> None
          | Some _ \<Rightarrow> Some (upd_info q (\<lambda>e. e\<lparr>info_peer := None\<rparr>) others, pool))
      | None \<Rightarrow> Some (others, id_pool_free_id P pool (info_table_id g)))"

text \<open>\<open>ovn_extend_info_del_lflow_ref\<close>: the reference leaves its entry; its flow's list is the one that
  the caller walks.\<close>

definition ovn_extend_info_del_lflow_ref :: "ovn_extend_table_info \<Rightarrow> uuid \<Rightarrow> ovn_extend_table_info" where
  "ovn_extend_info_del_lflow_ref e u = e\<lparr>info_references := removeAll u (info_references e)\<rparr>"

fun delete_desired_loop :: "'p id_pool_ops \<Rightarrow> uuid \<Rightarrow> string list \<Rightarrow> 'p ovn_extend_table \<Rightarrow>
    'p ovn_extend_table option" where
  "delete_desired_loop P u [] t = Some t"
| "delete_desired_loop P u (n # ns) t =
     (case find_info n (et_desired t) of
        None \<Rightarrow> None
      | Some e0 \<Rightarrow>
          let e = ovn_extend_info_del_lflow_ref e0 u in
          if info_references e = [] then do {
            (others, pool) \<leftarrow> release_info P e (et_existing t) (et_table_ids t);
            delete_desired_loop P u ns
              (t\<lparr>et_desired := del_info n (et_desired t), et_existing := others, et_table_ids := pool,
                 et_lflow_to_desired := ovn_extend_table_info_destroy e (et_lflow_to_desired t)\<rparr>) }
          else delete_desired_loop P u ns (t\<lparr>et_desired := upd_info n (\<lambda>_. e) (et_desired t)\<rparr>))"

definition ovn_extend_table_delete_desired :: "'p id_pool_ops \<Rightarrow> 'p ovn_extend_table \<Rightarrow> uuid \<times> string list \<Rightarrow>
    'p ovn_extend_table option" where
  "ovn_extend_table_delete_desired P t l =
     delete_desired_loop P (fst l) (snd l)
       (t\<lparr>et_lflow_to_desired := filter (\<lambda>k. fst k \<noteq> fst l) (et_lflow_to_desired t)\<rparr>)"

definition ovn_extend_table_remove_desired :: "'p id_pool_ops \<Rightarrow> 'p ovn_extend_table \<Rightarrow> uuid \<Rightarrow>
    'p ovn_extend_table option" where
  "ovn_extend_table_remove_desired P t u =
     (case ovn_extend_table_find_desired_by_lflow (et_lflow_to_desired t) u of
        None \<Rightarrow> Some t
      | Some ns \<Rightarrow> ovn_extend_table_delete_desired P t (u, ns))"

fun clear_flows :: "'p id_pool_ops \<Rightarrow> uuid list \<Rightarrow> 'p ovn_extend_table \<Rightarrow> 'p ovn_extend_table option" where
  "clear_flows P [] t = Some t"
| "clear_flows P (u # us) t = (case ovn_extend_table_find_desired_by_lflow (et_lflow_to_desired t) u of
      None \<Rightarrow> None
    | Some ns \<Rightarrow> do { t' \<leftarrow> ovn_extend_table_delete_desired P t (u, ns); clear_flows P us t' })"

fun clear_infos :: "'p id_pool_ops \<Rightarrow> ovn_extend_table_info list \<Rightarrow> ovn_extend_table_info list \<Rightarrow> 'p \<Rightarrow>
    (uuid \<times> string list) list \<Rightarrow> (ovn_extend_table_info list \<times> 'p \<times> (uuid \<times> string list) list) option" where
  "clear_infos P [] others pool ls = Some (others, pool, ls)"
| "clear_infos P (g # gs) others pool ls = do {
     (others', pool') \<leftarrow> release_info P g others pool;
     clear_infos P gs others' pool' (ovn_extend_table_info_destroy g ls) }"

definition ovn_extend_table_clear :: "'p id_pool_ops \<Rightarrow> 'p ovn_extend_table \<Rightarrow> bool \<Rightarrow> 'p ovn_extend_table option" where
  "ovn_extend_table_clear P t existing =
     (if existing then do {
        (others, pool, ls) \<leftarrow> clear_infos P (et_existing t) (et_desired t) (et_table_ids t) (et_lflow_to_desired t);
        Some (t\<lparr>et_existing := [], et_desired := others, et_table_ids := pool, et_lflow_to_desired := ls\<rparr>) }
      else do {
        t1 \<leftarrow> clear_flows P (map fst (et_lflow_to_desired t)) t;
        (others, pool, ls) \<leftarrow> clear_infos P (et_desired t1) (et_existing t1) (et_table_ids t1) (et_lflow_to_desired t1);
        Some (t1\<lparr>et_desired := [], et_existing := others, et_table_ids := pool, et_lflow_to_desired := ls\<rparr>) })"

definition ovn_extend_table_reinit :: "'p id_pool_ops \<Rightarrow> 'p ovn_extend_table \<Rightarrow> nat \<Rightarrow> 'p ovn_extend_table option" where
  "ovn_extend_table_reinit P t n_ids =
     (if n_ids \<noteq> et_n_ids t then do {
        t1 \<leftarrow> ovn_extend_table_clear P t True;
        Some (t1\<lparr>et_table_ids := id_pool_create P 1 n_ids, et_n_ids := n_ids\<rparr>) }
      else Some t)"

text \<open>\<open>ovn_extend_table_destroy\<close> frees the table; the value is what is left in it at the end.\<close>

definition ovn_extend_table_destroy :: "'p id_pool_ops \<Rightarrow> 'p ovn_extend_table \<Rightarrow> 'p ovn_extend_table option" where
  "ovn_extend_table_destroy P t = do {
     t1 \<leftarrow> ovn_extend_table_clear P t False;
     ovn_extend_table_clear P t1 True }"

definition ovn_extend_table_remove_existing :: "'p id_pool_ops \<Rightarrow> 'p ovn_extend_table \<Rightarrow> string \<Rightarrow>
    'p ovn_extend_table option" where
  "ovn_extend_table_remove_existing P t name =
     (case find_info name (et_existing t) of
        None \<Rightarrow> None
      | Some x \<Rightarrow> do {
          (others, pool) \<leftarrow> release_info P x (et_desired t) (et_table_ids t);
          Some (t\<lparr>et_existing := del_info name (et_existing t), et_desired := others, et_table_ids := pool,
                  et_lflow_to_desired := ovn_extend_table_info_destroy x (et_lflow_to_desired t)\<rparr>) })"

fun sync_loop :: "(string \<Rightarrow> nat) \<Rightarrow> ovn_extend_table_info list \<Rightarrow> 'p ovn_extend_table \<Rightarrow> 'p ovn_extend_table" where
  "sync_loop H [] t = t"
| "sync_loop H (d # ds) t =
     (case ovn_extend_table_lookup H (et_existing t) d of
        Some _ \<Rightarrow> sync_loop H ds t
      | None \<Rightarrow>
          let (e, desired) = ovn_extend_table_info_alloc (info_name d) (info_table_id d) (Some (info_name d)) (et_desired t) in
          sync_loop H ds (t\<lparr>et_desired := desired, et_existing := et_existing t @ [e]\<rparr>))"

definition ovn_extend_table_sync :: "(string \<Rightarrow> nat) \<Rightarrow> 'p ovn_extend_table \<Rightarrow> 'p ovn_extend_table" where
  "ovn_extend_table_sync H t = sync_loop H (et_desired t) t"

definition ovn_extend_table_assign_id :: "'p id_pool_ops \<Rightarrow> 'p ovn_extend_table \<Rightarrow> string \<Rightarrow> uuid \<Rightarrow>
    nat \<times> 'p ovn_extend_table" where
  "ovn_extend_table_assign_id P t name u =
     (case find_info name (et_desired t) of
        Some d \<Rightarrow> (info_table_id d, ovn_extend_info_add_lflow_ref t d u)
      | None \<Rightarrow>
          (case (case find_info name (et_existing t) of
                   Some x \<Rightarrow> Some (info_table_id x, et_table_ids t)
                 | None \<Rightarrow> id_pool_alloc_id P (et_table_ids t)) of
             None \<Rightarrow> (EXT_TABLE_ID_INVALID, t)
           | Some (i, pool) \<Rightarrow>
               let (e, existing) = ovn_extend_table_info_alloc name i
                     (map_option info_name (find_info name (et_existing t))) (et_existing t)
               in (i, ovn_extend_info_add_lflow_ref
                        (t\<lparr>et_table_ids := pool, et_existing := existing, et_desired := et_desired t @ [e]\<rparr>) e u)))"

definition ovn_extend_table_desired_lookup_by_name :: "'p ovn_extend_table \<Rightarrow> string \<Rightarrow> ovn_extend_table_info option" where
  "ovn_extend_table_desired_lookup_by_name t name = find_info name (et_desired t)"

section \<open>Invariant\<close>

abbreviation info_names :: "ovn_extend_table_info list \<Rightarrow> string set" where
  "info_names es \<equiv> info_name ` set es"

definition linked :: "ovn_extend_table_info list \<Rightarrow> ovn_extend_table_info list \<Rightarrow> bool" where
  "linked A B \<longleftrightarrow> (\<forall>a \<in> set A. info_peer a = (if info_name a \<in> info_names B then Some (info_name a) else None))"

text \<open>Names are unique in each table, an id stands for one name, the pool has exactly the ids in
  use, and two entries are linked exactly when they have the same name.\<close>

definition tables_inv :: "nat set \<Rightarrow> ovn_extend_table_info list \<Rightarrow> ovn_extend_table_info list \<Rightarrow> bool" where
  "tables_inv U A B \<longleftrightarrow> distinct (map info_name A) \<and> distinct (map info_name B) \<and>
     U = info_table_id ` (set A \<union> set B) \<and>
     (\<forall>a \<in> set A \<union> set B. \<forall>b \<in> set A \<union> set B. info_table_id a = info_table_id b \<longleftrightarrow> info_name a = info_name b) \<and>
     linked A B \<and> linked B A"

text \<open>The references of the desired entries and the index by flow say the same.\<close>

definition uses :: "ovn_extend_table_info list \<Rightarrow> uuid \<Rightarrow> string set" where
  "uses D u = {info_name d |d. d \<in> set D \<and> u \<in> set (info_references d)}"

definition refs_inv :: "ovn_extend_table_info list \<Rightarrow> (uuid \<times> string list) list \<Rightarrow> bool" where
  "refs_inv D L \<longleftrightarrow> distinct (map fst L) \<and>
     (\<forall>d \<in> set D. info_references d \<noteq> [] \<and> set (info_references d) \<subseteq> fst ` set L) \<and>
     (\<forall>(u, ns) \<in> set L. distinct ns \<and> set ns = uses D u)"

definition ext_inv :: "('p \<Rightarrow> nat set) \<Rightarrow> ('p \<Rightarrow> nat set) \<Rightarrow> 'p ovn_extend_table \<Rightarrow> bool" where
  "ext_inv used ids t \<longleftrightarrow> tables_inv (used (et_table_ids t)) (et_desired t) (et_existing t) \<and>
     refs_inv (et_desired t) (et_lflow_to_desired t) \<and>
     (\<forall>x \<in> set (et_existing t). info_references x = []) \<and>
     ids (et_table_ids t) = {1..<1 + et_n_ids t} \<and> used (et_table_ids t) \<subseteq> ids (et_table_ids t)"

lemma tables_inv_sym: "tables_inv U A B \<Longrightarrow> tables_inv U B A"
  by (auto simp: tables_inv_def)

lemma find_info_Some: "find_info n es = Some e \<Longrightarrow> e \<in> set es \<and> info_name e = n"
  by (auto simp: find_info_def find_Some_iff)

lemma find_info_None: "find_info n es = None \<longleftrightarrow> n \<notin> info_names es"
  by (auto simp: find_info_def find_None_iff)

lemma find_info_mem: "distinct (map info_name es) \<Longrightarrow> e \<in> set es \<Longrightarrow> find_info (info_name e) es = Some e"
proof (cases "find_info (info_name e) es")
  case (Some e')
  assume "distinct (map info_name es)" "e \<in> set es"
  then show ?thesis using Some find_info_Some [OF Some] by (metis distinct_map inj_onD)
qed (auto simp: find_info_None)

lemma names_upd [simp]:
  assumes "\<And>e. info_name (f e) = info_name e"
  shows "map info_name (upd_info n f es) = map info_name es"
  using assms by (simp add: upd_info_def)

lemma names_upd_set [simp]:
  assumes "\<And>e. info_name (f e) = info_name e"
  shows "info_names (upd_info n f es) = info_names es"
  using arg_cong [OF names_upd [OF assms, of n es], of set] by simp

lemma set_upd: "set (upd_info n f es) = (\<lambda>e. if info_name e = n then f e else e) ` set es"
  by (simp add: upd_info_def)

lemma set_del: "set (del_info n es) = {e \<in> set es. info_name e \<noteq> n}"
  by (simp add: del_info_def)

lemma distinct_del: "distinct (map info_name es) \<Longrightarrow> distinct (map info_name (del_info n es))"
  by (simp add: del_info_def distinct_map_filter)

lemma ids_upd:
  assumes "\<And>e. info_table_id (f e) = info_table_id e"
  shows "info_table_id ` set (upd_info n f es) = info_table_id ` set es"
proof -
  have "map info_table_id (upd_info n f es) = map info_table_id es" using assms by (simp add: upd_info_def)
  from arg_cong [OF this, of set] show ?thesis by simp
qed

lemma release_unlink:
  assumes inv: "tables_inv U A B" and g: "g \<in> set A" "info_name g \<in> info_names B"
  shows "tables_inv U (del_info (info_name g) A) (upd_info (info_name g) (\<lambda>e. e\<lparr>info_peer := None\<rparr>) B)"
proof -
  obtain b where b: "b \<in> set B" "info_name b = info_name g" using g(2) by auto
  have same: "info_table_id g = info_table_id b" using inv b g unfolding tables_inv_def by (metis UnI1 UnI2)
  have gone: "info_table_id ` (set A \<union> set B) = info_table_id ` ({e \<in> set A. info_name e \<noteq> info_name g} \<union> set B)"
  proof -
    have "info_table_id e = info_table_id b" if "e \<in> set A" "info_name e = info_name g" for e
      using inv b that same g unfolding tables_inv_def by (metis UnI1 UnI2)
    then show ?thesis using b(1) by (auto simp: image_iff)
  qed
  show ?thesis
    unfolding tables_inv_def
  proof (intro conjI)
    show "U = info_table_id ` (set (del_info (info_name g) A) \<union> set (upd_info (info_name g) (\<lambda>e. e\<lparr>info_peer := None\<rparr>) B))"
      using inv gone by (simp add: tables_inv_def image_Un ids_upd set_del)
    show "linked (del_info (info_name g) A) (upd_info (info_name g) (\<lambda>e. e\<lparr>info_peer := None\<rparr>) B)"
      using inv by (auto simp: tables_inv_def linked_def set_del)
    show "linked (upd_info (info_name g) (\<lambda>e. e\<lparr>info_peer := None\<rparr>) B) (del_info (info_name g) A)"
      using inv by (auto simp: tables_inv_def linked_def set_del set_upd)
    show "\<forall>a \<in> set (del_info (info_name g) A) \<union> set (upd_info (info_name g) (\<lambda>e. e\<lparr>info_peer := None\<rparr>) B).
        \<forall>b \<in> set (del_info (info_name g) A) \<union> set (upd_info (info_name g) (\<lambda>e. e\<lparr>info_peer := None\<rparr>) B).
          (info_table_id a = info_table_id b) = (info_name a = info_name b)"
      using inv by (auto simp: tables_inv_def set_del set_upd)
  qed (use inv in \<open>simp_all add: tables_inv_def distinct_del\<close>)
qed

lemma release_free:
  assumes inv: "tables_inv U A B" and g: "g \<in> set A" "info_name g \<notin> info_names B"
  shows "tables_inv (U - {info_table_id g}) (del_info (info_name g) A) B"
proof -
  let ?A = "del_info (info_name g) A"
  have key: "info_table_id e = info_table_id g \<longleftrightarrow> info_name e = info_name g" if "e \<in> set A \<union> set B" for e
    using inv g(1) that unfolding tables_inv_def by blast
  have notB: "info_name e \<noteq> info_name g" if "e \<in> set B" for e using that g(2) by (metis imageI)
  have rest: "set ?A \<union> set B = {e \<in> set A \<union> set B. info_name e \<noteq> info_name g}" using notB by (auto simp: set_del)
  have "U - {info_table_id g} = info_table_id ` (set ?A \<union> set B)"
  proof -
    have "U = info_table_id ` (set A \<union> set B)" using inv by (simp add: tables_inv_def)
    then show ?thesis unfolding rest using key by (auto simp del: Un_iff)
  qed
  moreover have "info_names ?A = info_names A - {info_name g}" by (auto simp: set_del)
  then have "linked B ?A" using inv notB by (simp add: tables_inv_def linked_def)
  moreover have "linked ?A B" using inv by (simp add: tables_inv_def linked_def set_del)
  moreover have "distinct (map info_name ?A)" "distinct (map info_name B)" using inv by (simp_all add: tables_inv_def distinct_del)
  moreover have "\<forall>a \<in> set ?A \<union> set B. \<forall>b \<in> set ?A \<union> set B. info_table_id a = info_table_id b \<longleftrightarrow> info_name a = info_name b"
    using inv unfolding tables_inv_def rest by blast
  ultimately show ?thesis unfolding tables_inv_def by blast
qed

definition same_refs :: "ovn_extend_table_info list \<Rightarrow> ovn_extend_table_info list \<Rightarrow> bool" where
  "same_refs A B \<longleftrightarrow> map (\<lambda>e. (info_name e, info_table_id e, info_references e)) A =
     map (\<lambda>e. (info_name e, info_table_id e, info_references e)) B"

lemma same_refs_upd: "same_refs (upd_info n (\<lambda>e. e\<lparr>info_peer := q\<rparr>) A) A"
  by (simp add: same_refs_def upd_info_def)

lemma same_refs_refl [simp]: "same_refs A A"
  by (simp add: same_refs_def)

lemma same_refs_trans [trans]: "same_refs A B \<Longrightarrow> same_refs B C \<Longrightarrow> same_refs A C"
  by (simp add: same_refs_def)

lemma same_refs_image:
  assumes "same_refs A B"
  shows "(\<lambda>e. (info_name e, info_table_id e, info_references e)) ` set A =
    (\<lambda>e. (info_name e, info_table_id e, info_references e)) ` set B"
  using arg_cong [OF assms [unfolded same_refs_def], of set] by simp

lemma same_refs_mem:
  assumes "same_refs A B" "e \<in> set A"
  obtains e' where "e' \<in> set B" "info_name e' = info_name e" "info_table_id e' = info_table_id e"
    "info_references e' = info_references e"
  using same_refs_image [OF assms(1)] assms(2) by (auto simp: set_eq_iff image_iff) metis

lemma same_refs_sym: "same_refs A B \<Longrightarrow> same_refs B A"
  by (simp add: same_refs_def)

lemma same_refs_inv:
  assumes "same_refs A B" "refs_inv B L"
  shows "refs_inv A L"
proof -
  have "uses A u = uses B u" for u
    unfolding uses_def using same_refs_mem [OF assms(1)] same_refs_mem [OF same_refs_sym [OF assms(1)]] by (auto, metis, metis)
  moreover have "info_references d \<noteq> [] \<and> set (info_references d) \<subseteq> fst ` set L" if d: "d \<in> set A" for d
    using same_refs_mem [OF assms(1) d] assms(2) by (metis (no_types, lifting) refs_inv_def)
  ultimately show ?thesis using assms(2) by (auto simp: refs_inv_def)
qed

definition del_refs :: "uuid \<Rightarrow> string set \<Rightarrow> ovn_extend_table_info list \<Rightarrow> ovn_extend_table_info list" where
  "del_refs u N D = filter (\<lambda>d. info_references d \<noteq> [])
     (map (\<lambda>d. if info_name d \<in> N then ovn_extend_info_del_lflow_ref d u else d) D)"

lemma del_lflow_ref_simps [simp]:
  "info_name (ovn_extend_info_del_lflow_ref e u) = info_name e"
  "info_table_id (ovn_extend_info_del_lflow_ref e u) = info_table_id e"
  "info_peer (ovn_extend_info_del_lflow_ref e u) = info_peer e"
  "info_references (ovn_extend_info_del_lflow_ref e u) = removeAll u (info_references e)"
  by (simp_all add: ovn_extend_info_del_lflow_ref_def)

lemma name_unique: "distinct (map info_name D) \<Longrightarrow> d \<in> set D \<Longrightarrow> e \<in> set D \<Longrightarrow> info_name d = info_name e \<Longrightarrow> d = e"
  by (auto simp: distinct_map inj_on_def)

lemma del_refs_del:
  assumes "distinct (map info_name D)" "e \<in> set D" "removeAll u (info_references e) = []" "info_name e \<notin> N"
  shows "del_refs u (insert (info_name e) N) D = del_refs u N (del_info (info_name e) D)"
proof -
  have eq: "d = e" if "d \<in> set D" "info_name d = info_name e" for d using name_unique [OF assms(1)] that assms(2) by blast
  have "filter (\<lambda>d. info_references (if info_name d \<in> insert (info_name e) N then ovn_extend_info_del_lflow_ref d u else d) \<noteq> []) D =
    filter (\<lambda>d. info_name d \<noteq> info_name e \<and> info_references (if info_name d \<in> N then ovn_extend_info_del_lflow_ref d u else d) \<noteq> []) D"
    using eq assms(3) by (intro filter_cong) auto
  then show ?thesis by (auto simp: del_refs_def del_info_def filter_map o_def conj_commute)
qed

lemma del_refs_upd:
  assumes "distinct (map info_name D)" "e \<in> set D" "info_name e \<notin> N"
  shows "del_refs u (insert (info_name e) N) D = del_refs u N (upd_info (info_name e) (\<lambda>_. ovn_extend_info_del_lflow_ref e u) D)"
proof -
  have eq: "d = e" if "d \<in> set D" "info_name d = info_name e" for d using name_unique [OF assms(1)] that assms(2) by blast
  have "map (\<lambda>d. if info_name d \<in> insert (info_name e) N then ovn_extend_info_del_lflow_ref d u else d) D =
    map (\<lambda>d. if info_name d \<in> N then ovn_extend_info_del_lflow_ref d u else d) (upd_info (info_name e) (\<lambda>_. ovn_extend_info_del_lflow_ref e u) D)"
    unfolding upd_info_def map_map o_def using eq assms(3) by (intro map_cong) auto
  then show ?thesis by (simp only: del_refs_def)
qed

lemma destroy_no_refs [simp]: "info_references e = [] \<Longrightarrow> ovn_extend_table_info_destroy e ls = ls"
  by (simp add: ovn_extend_table_info_destroy_def)

definition table_key :: "ovn_extend_table_info \<Rightarrow> string \<times> nat \<times> string option" where
  "table_key e = (info_name e, info_table_id e, info_peer e)"

lemma tables_inv_cong:
  assumes inv: "tables_inv U A B" and eq: "map table_key A' = map table_key A"
  shows "tables_inv U A' B"
proof -
  have names: "map info_name A' = map info_name A" and ids: "map info_table_id A' = map info_table_id A"
    using arg_cong [OF eq, of "map fst"] arg_cong [OF eq, of "map (\<lambda>z. fst (snd z))"] by (simp_all add: table_key_def o_def)
  have sets: "info_names A' = info_names A" "info_table_id ` set A' = info_table_id ` set A"
    using arg_cong [OF names, of set] arg_cong [OF ids, of set] by simp_all
  have mem: "\<exists>d \<in> set A. info_name d = info_name a \<and> info_table_id d = info_table_id a \<and> info_peer d = info_peer a"
    if "a \<in> set A'" for a
  proof -
    have "table_key a \<in> table_key ` set A" using arg_cong [OF eq, of set] that by auto
    then show ?thesis by (auto simp: table_key_def)
  qed
  then have mem2: "\<exists>d \<in> set A \<union> set B. info_name d = info_name a \<and> info_table_id d = info_table_id a"
    if "a \<in> set A' \<union> set B" for a using that by blast
  show ?thesis unfolding tables_inv_def
  proof (intro conjI ballI)
    fix a b assume "a \<in> set A' \<union> set B" "b \<in> set A' \<union> set B"
    from mem2 [OF this(1)] mem2 [OF this(2)] show "(info_table_id a = info_table_id b) = (info_name a = info_name b)"
      using inv unfolding tables_inv_def by metis
  next
    show "linked A' B" unfolding linked_def
    proof
      fix a assume "a \<in> set A'"
      from mem [OF this] show "info_peer a = (if info_name a \<in> info_names B then Some (info_name a) else None)"
        using inv unfolding tables_inv_def linked_def by metis
    qed
  qed (use inv names sets in \<open>auto simp: tables_inv_def linked_def image_Un\<close>)
qed

lemma upd_refs_inv:
  assumes "tables_inv U A B" "e \<in> set A" "table_key e' = table_key e"
  shows "tables_inv U (upd_info (info_name e) (\<lambda>_. e') A) B"
proof (rule tables_inv_cong [OF assms(1)])
  have "d = e" if "d \<in> set A" "info_name d = info_name e" for d
    using name_unique [of A d e] that assms by (auto simp: tables_inv_def)
  then show "map table_key (upd_info (info_name e) (\<lambda>_. e') A) = map table_key A"
    using assms(3) by (auto simp: upd_info_def)
qed

lemma add_ref_tables:
  "tables_inv U A B \<Longrightarrow> tables_inv U (upd_info n (\<lambda>d. d\<lparr>info_references := f d\<rparr>) A) B"
  by (erule tables_inv_cong) (simp add: upd_info_def table_key_def)

context id_pool_api
begin

lemma release_ok:
  assumes "tables_inv (used p) A B" "g0 \<in> set A" "info_name g = info_name g0" "info_table_id g = info_table_id g0"
    "info_peer g = info_peer g0"
  shows "\<exists>B' p'. release_info P g B p = Some (B', p') \<and> tables_inv (used p') (del_info (info_name g) A) B' \<and>
    same_refs B' B \<and> ids p' = ids p \<and> used p' \<subseteq> used p"
proof (cases "info_name g0 \<in> info_names B")
  case True
  then have "info_peer g = Some (info_name g0)" using assms by (auto simp: tables_inv_def linked_def)
  moreover from True obtain b where "find_info (info_name g0) B = Some b" by (meson find_info_None not_None_eq)
  ultimately show ?thesis using release_unlink [OF assms(1,2) True] assms(3)
    by (simp add: release_info_def same_refs_upd)
next
  case False
  then have "info_peer g = None" using assms by (auto simp: tables_inv_def linked_def)
  then show ?thesis using release_free [OF assms(1,2) False] assms(3,4)
    by (simp add: release_info_def free_used free_ids)
qed

lemma delete_loop_ok:
  assumes "tables_inv (used (et_table_ids t)) (et_desired t) (et_existing t)" "distinct ns"
    "set ns \<subseteq> info_names (et_desired t)" "\<forall>d \<in> set (et_desired t). info_references d \<noteq> []"
  shows "\<exists>t'. delete_desired_loop P u ns t = Some t' \<and>
    tables_inv (used (et_table_ids t')) (et_desired t') (et_existing t') \<and>
    et_desired t' = del_refs u (set ns) (et_desired t) \<and> same_refs (et_existing t') (et_existing t) \<and>
    et_lflow_to_desired t' = et_lflow_to_desired t \<and> et_n_ids t' = et_n_ids t \<and>
    ids (et_table_ids t') = ids (et_table_ids t) \<and> used (et_table_ids t') \<subseteq> used (et_table_ids t)"
  using assms
proof (induction ns arbitrary: t)
  case Nil
  then show ?case by (simp add: del_refs_def filter_id_conv)
next
  case (Cons n ns)
  then obtain e where e: "find_info n (et_desired t) = Some e" "e \<in> set (et_desired t)" "info_name e = n"
    by (metis find_info_None find_info_Some insert_subset list.simps(15) not_None_eq)
  let ?e = "ovn_extend_info_del_lflow_ref e u"
  have D: "distinct (map info_name (et_desired t))" using Cons.prems(1) by (simp add: tables_inv_def)
  have n: "n \<notin> set ns" "distinct ns" using Cons.prems(2) by auto
  show ?case
  proof (cases "removeAll u (info_references e) = []")
    case True
    obtain B' p' where r: "release_info P ?e (et_existing t) (et_table_ids t) = Some (B', p')"
      "tables_inv (used p') (del_info n (et_desired t)) B'" "same_refs B' (et_existing t)" "ids p' = ids (et_table_ids t)"
      "used p' \<subseteq> used (et_table_ids t)"
      using release_ok [OF Cons.prems(1) e(2), of ?e] e(3) by auto
    let ?t = "t\<lparr>et_desired := del_info n (et_desired t), et_existing := B', et_table_ids := p'\<rparr>"
    have "info_names (del_info n (et_desired t)) = info_names (et_desired t) - {n}" by (auto simp: set_del)
    then have "set ns \<subseteq> info_names (del_info n (et_desired t))" using Cons.prems(3) n by auto
    then obtain t' where t': "delete_desired_loop P u ns ?t = Some t'"
      "tables_inv (used (et_table_ids t')) (et_desired t') (et_existing t')"
      "et_desired t' = del_refs u (set ns) (del_info n (et_desired t))" "same_refs (et_existing t') B'"
      "et_lflow_to_desired t' = et_lflow_to_desired t" "et_n_ids t' = et_n_ids t"
      "ids (et_table_ids t') = ids p'" "used (et_table_ids t') \<subseteq> used p'"
      using Cons.IH [of ?t] r(2) n(2) Cons.prems(4) by (auto simp: set_del)
    have "same_refs (et_existing t') (et_existing t)" by (rule same_refs_trans [OF t'(4) r(3)])
    then show ?thesis using e r t' True del_refs_del [OF D e(2), of u "set ns"] n by simp
  next
    case False
    let ?t = "t\<lparr>et_desired := upd_info n (\<lambda>_. ?e) (et_desired t)\<rparr>"
    have inv: "tables_inv (used (et_table_ids ?t)) (et_desired ?t) (et_existing ?t)"
      using upd_refs_inv [OF Cons.prems(1) e(2), of ?e] e(3) by (simp add: table_key_def)
    have "info_names (et_desired t) - {n} \<subseteq> info_names (et_desired ?t)" by (auto simp: set_upd)
    then have "set ns \<subseteq> info_names (et_desired ?t)" using Cons.prems(3) n by auto
    moreover have "\<forall>d \<in> set (et_desired ?t). info_references d \<noteq> []" using Cons.prems(4) False by (auto simp: set_upd)
    ultimately obtain t' where "delete_desired_loop P u ns ?t = Some t'"
      "tables_inv (used (et_table_ids t')) (et_desired t') (et_existing t')"
      "et_desired t' = del_refs u (set ns) (upd_info n (\<lambda>_. ?e) (et_desired t))" "same_refs (et_existing t') (et_existing t)"
      "et_lflow_to_desired t' = et_lflow_to_desired t" "et_n_ids t' = et_n_ids t"
      "ids (et_table_ids t') = ids (et_table_ids t)" "used (et_table_ids t') \<subseteq> used (et_table_ids t)"
      using Cons.IH [OF inv n(2)] by auto
    then show ?thesis using e False del_refs_upd [OF D e(2), of "set ns" u] n by simp
  qed
qed

end

lemma refs_inv_find:
  assumes "refs_inv D L" "map_of L u = Some ns"
  shows "distinct ns" "set ns = uses D u" "set ns \<subseteq> info_names D"
proof -
  have "(u, ns) \<in> set L" using assms(2) by (rule map_of_SomeD)
  then show "distinct ns" and S: "set ns = uses D u"
    using assms(1) unfolding refs_inv_def by fastforce+
  show "set ns \<subseteq> info_names D" unfolding S uses_def by auto
qed

lemma refs_inv_find_None: "refs_inv D L \<Longrightarrow> map_of L u = None \<Longrightarrow> d \<in> set D \<Longrightarrow> u \<notin> set (info_references d)"
  by (force simp: refs_inv_def map_of_eq_None_iff)

definition drop_ref :: "uuid \<Rightarrow> ovn_extend_table_info list \<Rightarrow> ovn_extend_table_info list" where
  "drop_ref u D = filter (\<lambda>d. info_references d \<noteq> []) (map (\<lambda>d. ovn_extend_info_del_lflow_ref d u) D)"

lemma del_lflow_ref_id: "u \<notin> set (info_references d) \<Longrightarrow> ovn_extend_info_del_lflow_ref d u = d"
  by (simp add: ovn_extend_info_del_lflow_ref_def)

lemma del_refs_drop:
  assumes "refs_inv D L" "map_of L u = Some ns" "distinct (map info_name D)"
  shows "del_refs u (set ns) D = drop_ref u D"
proof -
  have "info_name d \<in> set ns \<longleftrightarrow> u \<in> set (info_references d)" if "d \<in> set D" for d
    using refs_inv_find(2) [OF assms(1,2)] name_unique [OF assms(3)] that by (auto simp: uses_def)
  then have "map (\<lambda>d. if info_name d \<in> set ns then ovn_extend_info_del_lflow_ref d u else d) D =
      map (\<lambda>d. ovn_extend_info_del_lflow_ref d u) D"
    by (intro map_cong) (simp_all add: del_lflow_ref_id)
  then show ?thesis by (simp only: del_refs_def drop_ref_def)
qed

lemma set_drop_ref: "set (drop_ref u D) =
  {ovn_extend_info_del_lflow_ref d u |d. d \<in> set D \<and> removeAll u (info_references d) \<noteq> []}"
  by (auto simp: drop_ref_def)

lemma removeAll_nonempty: "v \<in> set xs \<Longrightarrow> v \<noteq> u \<Longrightarrow> removeAll u xs \<noteq> []"
  by (auto simp: removeAll_filter_not_eq filter_empty_conv)

lemma uses_drop_ref:
  assumes "v \<noteq> u"
  shows "uses (drop_ref u D) v = uses D v"
proof
  show "uses (drop_ref u D) v \<subseteq> uses D v" by (auto simp: uses_def set_drop_ref)
  show "uses D v \<subseteq> uses (drop_ref u D) v"
  proof
    fix n assume "n \<in> uses D v"
    then obtain d where d: "d \<in> set D" "v \<in> set (info_references d)" "n = info_name d" by (auto simp: uses_def)
    then have "ovn_extend_info_del_lflow_ref d u \<in> set (drop_ref u D)"
      using removeAll_nonempty [OF d(2) assms] unfolding set_drop_ref by blast
    then show "n \<in> uses (drop_ref u D) v"
      using d assms by (auto simp: uses_def intro!: exI [of _ "ovn_extend_info_del_lflow_ref d u"])
  qed
qed

lemma drop_ref_inv:
  assumes "refs_inv D L"
  shows "refs_inv (drop_ref u D) (filter (\<lambda>k. fst k \<noteq> u) L)"
  unfolding refs_inv_def
proof (intro conjI ballI)
  fix d assume "d \<in> set (drop_ref u D)"
  then obtain e where e: "e \<in> set D" "removeAll u (info_references e) \<noteq> []" "d = ovn_extend_info_del_lflow_ref e u"
    by (auto simp: set_drop_ref)
  then show "info_references d \<noteq> []" by simp
  have "set (info_references e) \<subseteq> fst ` set L" using assms e(1) by (simp add: refs_inv_def)
  then show "set (info_references d) \<subseteq> fst ` set (filter (\<lambda>k. fst k \<noteq> u) L)" unfolding e(3) by auto
next
  fix k assume k: "k \<in> set (filter (\<lambda>k. fst k \<noteq> u) L)"
  show "case k of (v, ns) \<Rightarrow> distinct ns \<and> set ns = uses (drop_ref u D) v"
    using assms k uses_drop_ref [of "fst k" u D] unfolding refs_inv_def by fastforce
qed (use assms in \<open>simp add: refs_inv_def distinct_map_filter\<close>)

lemma same_refs_set:
  "same_refs A B \<Longrightarrow> \<forall>b \<in> set B. info_references b = [] \<Longrightarrow> \<forall>a \<in> set A. info_references a = []"
  by (metis same_refs_mem)

lemma info_names_same: "same_refs A B \<Longrightarrow> info_names A = info_names B"
  using arg_cong [of _ _ "image fst", OF same_refs_image, of A B] by (simp add: image_image)

context id_pool_api
begin

lemma delete_desired_ok:
  assumes "ext_inv used ids t" "map_of (et_lflow_to_desired t) u = Some ns"
  shows "\<exists>t'. ovn_extend_table_delete_desired P t (u, ns) = Some t' \<and> ext_inv used ids t' \<and>
    et_desired t' = drop_ref u (et_desired t) \<and> same_refs (et_existing t') (et_existing t) \<and>
    et_lflow_to_desired t' = filter (\<lambda>k. fst k \<noteq> u) (et_lflow_to_desired t) \<and> et_n_ids t' = et_n_ids t"
proof -
  let ?t = "t\<lparr>et_lflow_to_desired := filter (\<lambda>k. fst k \<noteq> u) (et_lflow_to_desired t)\<rparr>"
  have r: "refs_inv (et_desired t) (et_lflow_to_desired t)"
    and i: "tables_inv (used (et_table_ids ?t)) (et_desired ?t) (et_existing ?t)"
    using assms(1) by (simp_all add: ext_inv_def)
  have ns: "distinct ns" "set ns \<subseteq> info_names (et_desired ?t)" using refs_inv_find [OF r assms(2)] by simp_all
  have "\<forall>d \<in> set (et_desired ?t). info_references d \<noteq> []" using r by (simp add: refs_inv_def)
  from delete_loop_ok [OF i ns this, of u] obtain t' where t': "delete_desired_loop P u ns ?t = Some t'"
    "tables_inv (used (et_table_ids t')) (et_desired t') (et_existing t')"
    "et_desired t' = del_refs u (set ns) (et_desired t)" "same_refs (et_existing t') (et_existing t)"
    "et_lflow_to_desired t' = filter (\<lambda>k. fst k \<noteq> u) (et_lflow_to_desired t)" "et_n_ids t' = et_n_ids t"
    "ids (et_table_ids t') = ids (et_table_ids t)" "used (et_table_ids t') \<subseteq> used (et_table_ids t)"
    by auto
  have "et_desired t' = drop_ref u (et_desired t)"
    using t'(3) del_refs_drop [OF r assms(2)] i by (simp add: tables_inv_def)
  then show ?thesis using t' drop_ref_inv [OF r] same_refs_set [OF t'(4)] assms(1)
    by (auto simp: ovn_extend_table_delete_desired_def ext_inv_def)
qed

lemma remove_desired_ok:
  assumes "ext_inv used ids t"
  shows "\<exists>t'. ovn_extend_table_remove_desired P t u = Some t' \<and> ext_inv used ids t' \<and>
    et_desired t' = drop_ref u (et_desired t) \<and> same_refs (et_existing t') (et_existing t) \<and> et_n_ids t' = et_n_ids t"
proof (cases "map_of (et_lflow_to_desired t) u")
  case None
  have r: "refs_inv (et_desired t) (et_lflow_to_desired t)" using assms by (simp add: ext_inv_def)
  have "map (\<lambda>d. ovn_extend_info_del_lflow_ref d u) (et_desired t) = et_desired t"
    using refs_inv_find_None [OF r None] by (simp add: del_lflow_ref_id map_idI)
  then have "drop_ref u (et_desired t) = et_desired t"
    using r by (simp add: drop_ref_def refs_inv_def)
  then show ?thesis using None assms
    by (simp add: ovn_extend_table_remove_desired_def ovn_extend_table_find_desired_by_lflow_def)
next
  case (Some ns)
  from delete_desired_ok [OF assms Some] show ?thesis
    using Some by (auto simp: ovn_extend_table_remove_desired_def ovn_extend_table_find_desired_by_lflow_def)
qed

lemma clear_infos_ok:
  assumes "tables_inv (used p) A B" "\<forall>a \<in> set A. info_references a = []"
  shows "\<exists>B' p'. clear_infos P A B p ls = Some (B', p', ls) \<and> tables_inv (used p') [] B' \<and> same_refs B' B \<and>
    ids p' = ids p \<and> used p' \<subseteq> used p"
  using assms
proof (induction A arbitrary: B p)
  case Nil
  then show ?case by auto
next
  case (Cons g gs)
  have gs: "del_info (info_name g) (g # gs) = gs"
    using Cons.prems(1) by (auto simp: tables_inv_def del_info_def filter_id_conv image_iff)
  obtain B1 p1 where r: "release_info P g B p = Some (B1, p1)" "tables_inv (used p1) gs B1" "same_refs B1 B"
    "ids p1 = ids p" "used p1 \<subseteq> used p"
    using release_ok [OF Cons.prems(1), of g g] gs by auto
  obtain B2 p2 where "clear_infos P gs B1 p1 ls = Some (B2, p2, ls)" "tables_inv (used p2) [] B2" "same_refs B2 B1"
    "ids p2 = ids p1" "used p2 \<subseteq> used p1"
    using Cons.IH [OF r(2)] Cons.prems(2) by auto
  then show ?case using r Cons.prems(2) same_refs_trans [OF _ r(3)] by (auto simp: subset_iff)
qed

lemma clear_existing_ok:
  assumes "ext_inv used ids t"
  shows "\<exists>t'. ovn_extend_table_clear P t True = Some t' \<and> ext_inv used ids t' \<and> et_existing t' = [] \<and>
    same_refs (et_desired t') (et_desired t) \<and> et_n_ids t' = et_n_ids t \<and>
    et_lflow_to_desired t' = et_lflow_to_desired t"
proof -
  have i: "tables_inv (used (et_table_ids t)) (et_existing t) (et_desired t)" "\<forall>x \<in> set (et_existing t). info_references x = []"
    using assms tables_inv_sym by (simp_all add: ext_inv_def)
  from clear_infos_ok [OF this, of "et_lflow_to_desired t"] obtain B' p' where
    "clear_infos P (et_existing t) (et_desired t) (et_table_ids t) (et_lflow_to_desired t) = Some (B', p', et_lflow_to_desired t)"
    "tables_inv (used p') [] B'" "same_refs B' (et_desired t)" "ids p' = ids (et_table_ids t)" "used p' \<subseteq> used (et_table_ids t)"
    by auto
  then show ?thesis using assms same_refs_inv [of B' "et_desired t"] tables_inv_sym [of "used p'" "[]" B']
    by (auto simp: ovn_extend_table_clear_def ext_inv_def)
qed

lemma clear_flows_ok:
  assumes "ext_inv used ids t" "map fst (et_lflow_to_desired t) = us"
  shows "\<exists>t'. clear_flows P us t = Some t' \<and> ext_inv used ids t' \<and> et_lflow_to_desired t' = [] \<and>
    same_refs (et_existing t') (et_existing t) \<and> et_n_ids t' = et_n_ids t"
  using assms
proof (induction us arbitrary: t)
  case Nil
  then show ?case by auto
next
  case (Cons u us)
  then obtain ns L where L: "et_lflow_to_desired t = (u, ns) # L" "map fst L = us" by (auto simp: map_eq_Cons_conv)
  then have found: "map_of (et_lflow_to_desired t) u = Some ns" by simp
  obtain t1 where t1: "ovn_extend_table_delete_desired P t (u, ns) = Some t1" "ext_inv used ids t1"
    "same_refs (et_existing t1) (et_existing t)" "et_lflow_to_desired t1 = filter (\<lambda>k. fst k \<noteq> u) (et_lflow_to_desired t)"
    "et_n_ids t1 = et_n_ids t"
    using delete_desired_ok [OF Cons.prems(1) found] by auto
  have "u \<notin> set (map fst L)" using Cons.prems(1) L by (simp add: ext_inv_def refs_inv_def)
  then have "filter (\<lambda>k. fst k \<noteq> u) L = L" by (auto simp: filter_id_conv)
  then have "map fst (et_lflow_to_desired t1) = us" using t1(4) L by simp
  from Cons.IH [OF t1(2) this] obtain t' where "clear_flows P us t1 = Some t'" "ext_inv used ids t'" "et_lflow_to_desired t' = []"
    "same_refs (et_existing t') (et_existing t1)" "et_n_ids t' = et_n_ids t1" by auto
  then show ?case using t1 found same_refs_trans [OF _ t1(3)] by (auto simp: ovn_extend_table_find_desired_by_lflow_def)
qed

lemma clear_desired_ok:
  assumes "ext_inv used ids t"
  shows "\<exists>t'. ovn_extend_table_clear P t False = Some t' \<and> ext_inv used ids t' \<and> et_desired t' = [] \<and>
    same_refs (et_existing t') (et_existing t) \<and> et_n_ids t' = et_n_ids t \<and> et_lflow_to_desired t' = []"
proof -
  obtain t1 where t1: "clear_flows P (map fst (et_lflow_to_desired t)) t = Some t1" "ext_inv used ids t1"
    "et_lflow_to_desired t1 = []" "same_refs (et_existing t1) (et_existing t)" "et_n_ids t1 = et_n_ids t"
    using clear_flows_ok [OF assms refl] by auto
  have "et_desired t1 = []"
    using t1(2,3) by (cases "et_desired t1") (auto simp: ext_inv_def refs_inv_def)
  then show ?thesis using t1 by (auto simp: ovn_extend_table_clear_def ext_inv_def)
qed

lemma remove_existing_ok:
  assumes "ext_inv used ids t" "n \<in> info_names (et_existing t)"
  shows "\<exists>t'. ovn_extend_table_remove_existing P t n = Some t' \<and> ext_inv used ids t' \<and>
    et_existing t' = del_info n (et_existing t) \<and> same_refs (et_desired t') (et_desired t) \<and> et_n_ids t' = et_n_ids t"
proof -
  obtain x where x: "find_info n (et_existing t) = Some x" "x \<in> set (et_existing t)" "info_name x = n"
    using assms(2) by (metis find_info_None find_info_Some not_None_eq)
  have "tables_inv (used (et_table_ids t)) (et_existing t) (et_desired t)"
    using assms tables_inv_sym by (simp add: ext_inv_def)
  from release_ok [OF this x(2), of x] obtain B' p' where
    "release_info P x (et_desired t) (et_table_ids t) = Some (B', p')" "tables_inv (used p') (del_info n (et_existing t)) B'"
    "same_refs B' (et_desired t)" "ids p' = ids (et_table_ids t)" "used p' \<subseteq> used (et_table_ids t)"
    using x(3) by auto
  then show ?thesis using x assms same_refs_inv [of B' "et_desired t"] tables_inv_sym
    by (auto simp: ovn_extend_table_remove_existing_def ext_inv_def set_del)
qed

end

lemma link_new:
  assumes inv: "tables_inv U A B" and d: "d \<in> set A" "info_name d \<notin> info_names B"
    and e: "info_name e = info_name d" "info_table_id e = info_table_id d" "info_peer e = Some (info_name d)"
  shows "tables_inv U (upd_info (info_name d) (\<lambda>x. x\<lparr>info_peer := Some (info_name d)\<rparr>) A) (B @ [e])"
proof -
  let ?A = "upd_info (info_name d) (\<lambda>x. x\<lparr>info_peer := Some (info_name d)\<rparr>) A"
  have names: "info_names ?A = info_names A" by simp
  have ids: "info_table_id ` set ?A = info_table_id ` set A" by (simp add: ids_upd)
  have mem: "\<exists>x \<in> set A \<union> set B. info_name x = info_name a \<and> info_table_id x = info_table_id a"
    if "a \<in> set ?A \<union> set (B @ [e])" for a using that d(1) e by (auto simp: set_upd)
  show ?thesis unfolding tables_inv_def
  proof (intro conjI ballI)
    fix a b assume "a \<in> set ?A \<union> set (B @ [e])" "b \<in> set ?A \<union> set (B @ [e])"
    from mem [OF this(1)] mem [OF this(2)] show "(info_table_id a = info_table_id b) = (info_name a = info_name b)"
      using inv unfolding tables_inv_def by metis
  next
    show "linked ?A (B @ [e])" using inv e by (auto simp: linked_def tables_inv_def set_upd)
    show "linked (B @ [e]) ?A" using inv e d unfolding linked_def names by (auto simp: tables_inv_def linked_def)
    show "U = info_table_id ` (set ?A \<union> set (B @ [e]))"
      unfolding image_Un ids using inv d e by (auto simp: tables_inv_def)
  qed (use inv d e in \<open>auto simp: tables_inv_def\<close>)
qed

lemma add_new:
  assumes inv: "tables_inv U A B" and e: "info_name e \<notin> info_names A \<union> info_names B" "info_table_id e \<notin> U" "info_peer e = None"
  shows "tables_inv (insert (info_table_id e) U) (A @ [e]) B"
proof -
  have "info_table_id a \<noteq> info_table_id e" "info_name a \<noteq> info_name e" if "a \<in> set A \<union> set B" for a
    using inv e that unfolding tables_inv_def by (metis imageI image_Un)+
  then show ?thesis using inv e by (auto simp: tables_inv_def linked_def)
qed

lemma add_to_lflow:
  assumes "distinct (map fst L)"
  shows "distinct (map fst (ovn_extend_table_add_desired_to_lflow L u n))"
    and "fst ` set (ovn_extend_table_add_desired_to_lflow L u n) = insert u (fst ` set L)"
    and "(v, ns) \<in> set (ovn_extend_table_add_desired_to_lflow L u n) \<Longrightarrow>
      (v \<noteq> u \<and> (v, ns) \<in> set L) \<or> (v = u \<and> (\<exists>ms. (u, ms) \<in> set L \<and> ns = ms @ [n])) \<or>
      (v = u \<and> u \<notin> fst ` set L \<and> ns = [n])"
proof -
  let ?K = "ovn_extend_table_add_desired_to_lflow L u n"
  have K: "?K = map (\<lambda>(v, ns). (v, if v = u then ns @ [n] else ns)) (if u \<in> fst ` set L then L else L @ [(u, [])])"
  proof (cases "map_of L u")
    case None
    moreover then have "u \<notin> fst ` set L" by (simp add: map_of_eq_None_iff)
    ultimately show ?thesis
      by (simp add: ovn_extend_table_add_desired_to_lflow_def ovn_extend_table_find_desired_by_lflow_def)
  next
    case (Some ns)
    moreover then have "u \<in> fst ` set L" using map_of_SomeD by force
    ultimately show ?thesis
      by (simp add: ovn_extend_table_add_desired_to_lflow_def ovn_extend_table_find_desired_by_lflow_def)
  qed
  have "map fst ?K = (if u \<in> fst ` set L then map fst L else map fst L @ [u])"
    unfolding K by auto
  then show "distinct (map fst ?K)" "fst ` set ?K = insert u (fst ` set L)"
    using assms by (auto simp flip: set_map)
  show "(v \<noteq> u \<and> (v, ns) \<in> set L) \<or> (v = u \<and> (\<exists>ms. (u, ms) \<in> set L \<and> ns = ms @ [n])) \<or>
      (v = u \<and> u \<notin> fst ` set L \<and> ns = [n])" if "(v, ns) \<in> set ?K"
    using that unfolding K by (auto split: if_splits)
qed

text \<open>The references while an entry named \<open>n\<close> waits for its first one.\<close>

definition refs_but :: "string \<Rightarrow> ovn_extend_table_info list \<Rightarrow> (uuid \<times> string list) list \<Rightarrow> bool" where
  "refs_but n D L \<longleftrightarrow> distinct (map fst L) \<and>
     (\<forall>d \<in> set D. (info_name d \<noteq> n \<longrightarrow> info_references d \<noteq> []) \<and> set (info_references d) \<subseteq> fst ` set L) \<and>
     (\<forall>(u, ns) \<in> set L. distinct ns \<and> set ns = uses D u)"

lemma refs_but_inv: "refs_inv D L \<Longrightarrow> refs_but n D L"
  by (simp add: refs_inv_def refs_but_def)

lemma refs_but_new: "refs_inv D L \<Longrightarrow> info_references e = [] \<Longrightarrow> refs_but (info_name e) (D @ [e]) L"
proof -
  assume r: "refs_inv D L" "info_references e = []"
  then have "uses (D @ [e]) u = uses D u" for u by (auto simp: uses_def)
  then show ?thesis using r by (auto simp: refs_inv_def refs_but_def)
qed

lemma uses_iff: "m \<in> uses D v \<longleftrightarrow> (\<exists>d \<in> set D. info_name d = m \<and> v \<in> set (info_references d))"
  by (auto simp: uses_def)

lemma uses_add:
  assumes "n \<in> info_names D"
  shows "uses (upd_info n (\<lambda>d. d\<lparr>info_references := info_references d @ [u]\<rparr>) D) v =
    (if v = u then insert n (uses D u) else uses D v)" (is "uses ?D v = _")
proof (rule set_eqI)
  fix m
  have "m \<in> uses ?D v \<longleftrightarrow> (\<exists>d \<in> set D. info_name d = m \<and> (v \<in> set (info_references d) \<or> (v = u \<and> info_name d = n)))"
    unfolding uses_iff set_upd bex_simps by (intro bex_cong) auto
  then show "m \<in> uses ?D v \<longleftrightarrow> m \<in> (if v = u then insert n (uses D u) else uses D v)"
    using assms by (auto simp: uses_iff)
qed

lemma add_ref_inv:
  assumes r: "refs_but n D L" and D: "distinct (map info_name D)" and d: "d \<in> set D" "info_name d = n" "u \<notin> set (info_references d)"
  shows "refs_inv (upd_info n (\<lambda>d. d\<lparr>info_references := info_references d @ [u]\<rparr>) D) (ovn_extend_table_add_desired_to_lflow L u n)"
    (is "refs_inv ?D ?L")
proof -
  have L: "distinct (map fst L)" using r by (simp add: refs_but_def)
  have n: "n \<in> info_names D" "n \<notin> uses D u" using d name_unique [OF D] by (auto simp: uses_def)
  show ?thesis unfolding refs_inv_def
  proof (intro conjI ballI)
    fix e assume "e \<in> set ?D"
    then obtain x where x: "x \<in> set D" "e = (if info_name x = n then x\<lparr>info_references := info_references x @ [u]\<rparr> else x)"
      by (auto simp: set_upd)
    have "set (info_references x) \<subseteq> fst ` set L" "info_name x \<noteq> n \<Longrightarrow> info_references x \<noteq> []"
      using r x(1) by (auto simp: refs_but_def)
    then show "info_references e \<noteq> []" "set (info_references e) \<subseteq> fst ` set ?L"
      using x(2) by (auto simp: add_to_lflow(2) [OF L])
  next
    fix k assume "k \<in> set ?L"
    then obtain v ns where k: "k = (v, ns)" "(v, ns) \<in> set ?L" by (metis surj_pair)
    from add_to_lflow(3) [OF L k(2)] consider "v \<noteq> u" "(v, ns) \<in> set L"
      | ms where "v = u" "(u, ms) \<in> set L" "ns = ms @ [n]" | "v = u" "u \<notin> fst ` set L" "ns = [n]" by blast
    then have "distinct ns \<and> set ns = uses ?D v"
    proof cases
      case 1
      then show ?thesis using r by (auto simp: refs_but_def uses_add [OF n(1)])
    next
      case 2
      then have "distinct ms" "set ms = uses D u" using r by (auto simp: refs_but_def)
      then show ?thesis using 2 n by (simp add: uses_add [OF n(1)])
    next
      case 3
      then have "uses D u = {}" using r by (auto simp: refs_but_def uses_def)
      then show ?thesis using 3 by (simp add: uses_add [OF n(1)])
    qed
    then show "case k of (v, ns) \<Rightarrow> distinct ns \<and> set ns = uses ?D v" using k by simp
  qed (rule add_to_lflow(1) [OF L])
qed

lemma add_lflow_ref_ok:
  assumes "tables_inv (used (et_table_ids t)) (et_desired t) (et_existing t)" "refs_but (info_name e) (et_desired t) (et_lflow_to_desired t)"
    "e \<in> set (et_desired t)" "\<forall>x \<in> set (et_existing t). info_references x = []"
    "ids (et_table_ids t) = {1..<1 + et_n_ids t}" "used (et_table_ids t) \<subseteq> ids (et_table_ids t)"
  shows "ext_inv used ids (ovn_extend_info_add_lflow_ref t e u)"
proof (cases "u \<in> set (info_references e)")
  case True
  have D: "distinct (map info_name (et_desired t))" using assms(1) by (simp add: tables_inv_def)
  have "info_references d \<noteq> []" if "d \<in> set (et_desired t)" for d
  proof (cases "info_name d = info_name e")
    case True
    then have "d = e" using name_unique [OF D that assms(3)] by simp
    then show ?thesis using \<open>u \<in> set (info_references e)\<close> by auto
  qed (use assms(2) that in \<open>simp add: refs_but_def\<close>)
  then have "refs_inv (et_desired t) (et_lflow_to_desired t)" using assms(2) by (simp add: refs_but_def refs_inv_def)
  then show ?thesis using True assms
    by (simp add: ovn_extend_info_add_lflow_ref_def ovn_extend_info_find_lflow_ref_def ext_inv_def list_ex_iff)
next
  case False
  have D: "distinct (map info_name (et_desired t))" using assms(1) by (simp add: tables_inv_def)
  show ?thesis using False assms add_ref_inv [OF assms(2) D assms(3) refl False] add_ref_tables [OF assms(1)]
    by (simp add: ovn_extend_info_add_lflow_ref_def ovn_extend_info_find_lflow_ref_def ext_inv_def list_ex_iff)
qed

lemma lookup_iff:
  assumes "tables_inv U D X" "d' \<in> set D" "info_name d' = info_name d" "info_table_id d' = info_table_id d"
  shows "ovn_extend_table_lookup H X d = None \<longleftrightarrow> info_name d \<notin> info_names X"
proof -
  have "info_table_id x = info_table_id d \<longleftrightarrow> info_name x = info_name d" if "x \<in> set X" for x
    using assms that unfolding tables_inv_def by (metis UnI1 UnI2)
  then show ?thesis by (auto simp: ovn_extend_table_lookup_def find_None_iff) (metis imageI)
qed

lemma ext_inv_link:
  assumes inv: "ext_inv used ids t" and d: "d \<in> set (et_desired t)" "info_name d \<notin> info_names (et_existing t)"
  shows "ext_inv used ids (t\<lparr>et_desired := upd_info (info_name d) (\<lambda>x. x\<lparr>info_peer := Some (info_name d)\<rparr>) (et_desired t),
    et_existing := et_existing t @ [\<lparr>info_name = info_name d, info_table_id = info_table_id d,
      info_peer = Some (info_name d), info_references = []\<rparr>]\<rparr>)"
proof -
  have "tables_inv (used (et_table_ids t)) (et_desired t) (et_existing t)" using inv by (simp add: ext_inv_def)
  from link_new [OF this d, of "\<lparr>info_name = info_name d, info_table_id = info_table_id d,
      info_peer = Some (info_name d), info_references = []\<rparr>"] inv show ?thesis
    using same_refs_inv [OF same_refs_upd, of "et_desired t"] by (auto simp: ext_inv_def)
qed

lemma sync_loop_ok:
  assumes "ext_inv used ids t" "\<forall>d \<in> set ds. \<exists>d' \<in> set (et_desired t). info_name d' = info_name d \<and> info_table_id d' = info_table_id d"
  shows "ext_inv used ids (sync_loop H ds t) \<and> same_refs (et_desired (sync_loop H ds t)) (et_desired t) \<and>
    info_names (et_existing (sync_loop H ds t)) = info_names (et_existing t) \<union> info_names ds \<and>
    set (et_existing t) \<subseteq> set (et_existing (sync_loop H ds t)) \<and> et_n_ids (sync_loop H ds t) = et_n_ids t \<and>
    et_table_ids (sync_loop H ds t) = et_table_ids t"
  using assms
proof (induction ds arbitrary: t)
  case Nil
  then show ?case by simp
next
  case (Cons d ds)
  obtain d' where d': "d' \<in> set (et_desired t)" "info_name d' = info_name d" "info_table_id d' = info_table_id d"
    using Cons.prems(2) by auto
  have i: "tables_inv (used (et_table_ids t)) (et_desired t) (et_existing t)" using Cons.prems(1) by (simp add: ext_inv_def)
  note look = lookup_iff [OF i d', of H]
  show ?case
  proof (cases "info_name d \<in> info_names (et_existing t)")
    case True
    then obtain x where "ovn_extend_table_lookup H (et_existing t) d = Some x" using look by auto
    moreover have "ext_inv used ids (sync_loop H ds t) \<and> same_refs (et_desired (sync_loop H ds t)) (et_desired t) \<and>
      info_names (et_existing (sync_loop H ds t)) = info_names (et_existing t) \<union> info_names ds \<and>
      set (et_existing t) \<subseteq> set (et_existing (sync_loop H ds t)) \<and> et_n_ids (sync_loop H ds t) = et_n_ids t \<and>
      et_table_ids (sync_loop H ds t) = et_table_ids t"
      using Cons.prems by (intro Cons.IH) auto
    ultimately show ?thesis using True by auto
  next
    case False
    let ?D = "upd_info (info_name d) (\<lambda>x. x\<lparr>info_peer := Some (info_name d)\<rparr>) (et_desired t)"
    let ?t = "t\<lparr>et_desired := ?D, et_existing := et_existing t @ [\<lparr>info_name = info_name d, info_table_id = info_table_id d,
      info_peer = Some (info_name d), info_references = []\<rparr>]\<rparr>"
    have inv: "ext_inv used ids ?t" using ext_inv_link [OF Cons.prems(1) d'(1)] d' False by simp
    have same: "same_refs ?D (et_desired t)" by (rule same_refs_upd)
    have "\<forall>e \<in> set ds. \<exists>e' \<in> set (et_desired ?t). info_name e' = info_name e \<and> info_table_id e' = info_table_id e"
    proof
      fix e assume "e \<in> set ds"
      then obtain e' where e': "e' \<in> set (et_desired t)" "info_name e' = info_name e" "info_table_id e' = info_table_id e"
        using Cons.prems(2) by auto
      from same_refs_mem [OF same_refs_sym [OF same] e'(1)] show "\<exists>e' \<in> set (et_desired ?t). info_name e' = info_name e \<and> info_table_id e' = info_table_id e"
        using e' by auto
    qed
    note IH = Cons.IH [OF inv this]
    then have "same_refs (et_desired (sync_loop H ds ?t)) (et_desired t)" using same_refs_trans [OF _ same] by simp
    moreover have "sync_loop H (d # ds) t = sync_loop H ds ?t"
      using look False by (simp add: ovn_extend_table_info_alloc_def)
    ultimately show ?thesis using IH by auto
  qed
qed

lemma sync_ok:
  assumes "ext_inv used ids t"
  shows "ext_inv used ids (ovn_extend_table_sync H t)"
    and "same_refs (et_desired (ovn_extend_table_sync H t)) (et_desired t)"
    and "info_names (et_existing (ovn_extend_table_sync H t)) = info_names (et_existing t) \<union> info_names (et_desired t)"
    and "set (et_existing t) \<subseteq> set (et_existing (ovn_extend_table_sync H t))"
    and "et_n_ids (ovn_extend_table_sync H t) = et_n_ids t"
proof -
  have "\<forall>d \<in> set (et_desired t). \<exists>d' \<in> set (et_desired t). info_name d' = info_name d \<and> info_table_id d' = info_table_id d"
    by auto
  note * = sync_loop_ok [OF assms this, of H]
  show "ext_inv used ids (ovn_extend_table_sync H t)"
    and "same_refs (et_desired (ovn_extend_table_sync H t)) (et_desired t)"
    and "info_names (et_existing (ovn_extend_table_sync H t)) = info_names (et_existing t) \<union> info_names (et_desired t)"
    and "set (et_existing t) \<subseteq> set (et_existing (ovn_extend_table_sync H t))"
    and "et_n_ids (ovn_extend_table_sync H t) = et_n_ids t"
    using * by (simp_all add: ovn_extend_table_sync_def)
qed

lemma ids_of_desired:
  assumes "ext_inv used ids t" "x \<in> set (et_desired t) \<union> set (et_existing t)"
  shows "1 \<le> info_table_id x" "info_table_id x \<le> et_n_ids t" "info_table_id x \<in> used (et_table_ids t)"
proof -
  have "info_table_id x \<in> used (et_table_ids t)" using assms by (auto simp: ext_inv_def tables_inv_def)
  moreover then have "info_table_id x \<in> {1..<1 + et_n_ids t}" using assms(1) by (auto simp: ext_inv_def)
  ultimately show "1 \<le> info_table_id x" "info_table_id x \<le> et_n_ids t" "info_table_id x \<in> used (et_table_ids t)" by auto
qed

text \<open>What \<open>assign_id\<close> promises: the id of the name if it has one, and otherwise an id that is
  not in use, or the invalid id when all are.\<close>

definition assigned :: "string \<Rightarrow> uuid \<Rightarrow> nat \<Rightarrow> 'p ovn_extend_table \<Rightarrow> bool" where
  "assigned name u i t' \<longleftrightarrow> (\<exists>d \<in> set (et_desired t'). info_name d = name \<and> info_table_id d = i \<and> u \<in> set (info_references d))"

lemma assigned_add_ref:
  assumes "e \<in> set (et_desired t)"
  shows "assigned (info_name e) u (info_table_id e) (ovn_extend_info_add_lflow_ref t e u)"
proof (cases "u \<in> set (info_references e)")
  case True
  then show ?thesis using assms by (auto simp: assigned_def ovn_extend_info_add_lflow_ref_def ovn_extend_info_find_lflow_ref_def list_ex_iff)
next
  case False
  have "e\<lparr>info_references := info_references e @ [u]\<rparr> \<in> set (et_desired (ovn_extend_info_add_lflow_ref t e u))"
    using assms False by (force simp: ovn_extend_info_add_lflow_ref_def ovn_extend_info_find_lflow_ref_def list_ex_iff set_upd)
  then show ?thesis unfolding assigned_def by (rule bexI [rotated]) simp
qed

lemma add_ref_keeps:
  "et_existing (ovn_extend_info_add_lflow_ref t e u) = et_existing t"
  "et_n_ids (ovn_extend_info_add_lflow_ref t e u) = et_n_ids t"
  "et_table_ids (ovn_extend_info_add_lflow_ref t e u) = et_table_ids t"
  "map table_key (et_desired (ovn_extend_info_add_lflow_ref t e u)) = map table_key (et_desired t)"
  by (simp_all add: ovn_extend_info_add_lflow_ref_def upd_info_def table_key_def)

context id_pool_api
begin

lemma assign_desired:
  assumes "ext_inv used ids t" "find_info name (et_desired t) = Some d" "ovn_extend_table_assign_id P t name u = (i, t')"
  shows "ext_inv used ids t' \<and> i = info_table_id d \<and> assigned name u i t' \<and>
    et_existing t' = et_existing t \<and> et_n_ids t' = et_n_ids t"
proof -
  have t': "t' = ovn_extend_info_add_lflow_ref t d u" "i = info_table_id d"
    using assms(2,3) by (simp_all add: ovn_extend_table_assign_id_def)
  have d: "d \<in> set (et_desired t)" "info_name d = name" using find_info_Some [OF assms(2)] by simp_all
  have "ext_inv used ids t'"
    unfolding t' by (rule add_lflow_ref_ok) (use assms(1) d refs_but_inv in \<open>auto simp: ext_inv_def\<close>)
  then show ?thesis using assigned_add_ref [OF d(1), of u] d t' by (simp add: add_ref_keeps)
qed

lemma assign_existing:
  assumes "ext_inv used ids t" "find_info name (et_desired t) = None" "find_info name (et_existing t) = Some x"
    "ovn_extend_table_assign_id P t name u = (i, t')"
  shows "ext_inv used ids t' \<and> i = info_table_id x \<and> assigned name u i t' \<and>
    same_refs (et_existing t') (et_existing t) \<and> et_n_ids t' = et_n_ids t"
proof -
  have x: "x \<in> set (et_existing t)" "info_name x = name" using find_info_Some [OF assms(3)] by simp_all
  define e where "e = \<lparr>info_name = name, info_table_id = info_table_id x, info_peer = Some name, info_references = []\<rparr>"
  define t1 where "t1 = t\<lparr>et_existing := upd_info name (\<lambda>e. e\<lparr>info_peer := Some name\<rparr>) (et_existing t), et_desired := et_desired t @ [e]\<rparr>"
  have t': "t' = ovn_extend_info_add_lflow_ref t1 e u" "i = info_table_id x"
    using assms(2-4) x(2) by (auto simp: ovn_extend_table_assign_id_def ovn_extend_table_info_alloc_def e_def t1_def Let_def)
  have "tables_inv (used (et_table_ids t)) (et_existing t) (et_desired t)"
    using assms(1) tables_inv_sym by (simp add: ext_inv_def)
  moreover have "name \<notin> info_names (et_desired t)" using assms(2) by (simp add: find_info_None)
  ultimately have tab: "tables_inv (used (et_table_ids t)) (et_desired t @ [e]) (upd_info name (\<lambda>e. e\<lparr>info_peer := Some name\<rparr>) (et_existing t))"
    using link_new [of _ "et_existing t" "et_desired t" x e] x e_def tables_inv_sym by simp
  have refs: "refs_but (info_name e) (et_desired t @ [e]) (et_lflow_to_desired t)"
    using assms(1) by (intro refs_but_new) (simp_all add: ext_inv_def e_def)
  have "ext_inv used ids t'" unfolding t'
    by (rule add_lflow_ref_ok) (use tab refs assms(1) in \<open>auto simp: t1_def ext_inv_def set_upd\<close>)
  then show ?thesis using assigned_add_ref [of e t1 u] t' by (simp add: add_ref_keeps t1_def e_def same_refs_upd)
qed

lemma assign_new:
  assumes "ext_inv used ids t" "find_info name (et_desired t) = None" "find_info name (et_existing t) = None"
    "ovn_extend_table_assign_id P t name u = (i, t')"
  shows "ext_inv used ids t' \<and> et_n_ids t' = et_n_ids t \<and> et_existing t' = et_existing t \<and>
    (if i = EXT_TABLE_ID_INVALID then t' = t \<and> used (et_table_ids t) = {1..et_n_ids t}
     else i \<notin> used (et_table_ids t) \<and> i \<le> et_n_ids t \<and> assigned name u i t')"
proof (cases "id_pool_alloc_id P (et_table_ids t)")
  case None
  then have "t' = t" "i = 0" using assms(2-4) by (simp_all add: ovn_extend_table_assign_id_def EXT_TABLE_ID_INVALID_def)
  then show ?thesis using alloc_none [OF None] assms(1) by (auto simp: ext_inv_def EXT_TABLE_ID_INVALID_def)
next
  case (Some ip)
  then obtain j p where jp: "id_pool_alloc_id P (et_table_ids t) = Some (j, p)" by (cases ip) auto
  note j = alloc_some [OF jp]
  define e where "e = \<lparr>info_name = name, info_table_id = j, info_peer = None, info_references = []\<rparr>"
  define t1 where "t1 = t\<lparr>et_table_ids := p, et_existing := et_existing t, et_desired := et_desired t @ [e]\<rparr>"
  have t': "t' = ovn_extend_info_add_lflow_ref t1 e u" "i = j"
    using assms(2-4) jp by (auto simp: ovn_extend_table_assign_id_def ovn_extend_table_info_alloc_def e_def t1_def)
  have tab: "tables_inv (used p) (et_desired t @ [e]) (et_existing t)"
    using add_new [of "used (et_table_ids t)" "et_desired t" "et_existing t" e] assms(1-3) j
    by (simp add: ext_inv_def find_info_None e_def)
  have refs: "refs_but (info_name e) (et_desired t @ [e]) (et_lflow_to_desired t)"
    using assms(1) by (intro refs_but_new) (simp_all add: ext_inv_def e_def)
  have "ext_inv used ids t'" unfolding t'
    by (rule add_lflow_ref_ok) (use tab refs assms(1) j in \<open>auto simp: t1_def ext_inv_def\<close>)
  moreover have "1 \<le> j" "j \<le> et_n_ids t" using j assms(1) by (auto simp: ext_inv_def)
  ultimately show ?thesis using assigned_add_ref [of e t1 u] t' j
    by (simp add: add_ref_keeps t1_def e_def EXT_TABLE_ID_INVALID_def)
qed

lemma assign_inv:
  assumes "ext_inv used ids t"
  shows "ext_inv used ids (snd (ovn_extend_table_assign_id P t name u))"
proof -
  obtain i t' where a: "ovn_extend_table_assign_id P t name u = (i, t')" by (metis surj_pair)
  show ?thesis
    using assign_desired [OF assms _ a] assign_existing [OF assms _ _ a] assign_new [OF assms _ _ a] a
    by (cases "find_info name (et_desired t)"; cases "find_info name (et_existing t)") auto
qed

lemma init_inv: "ext_inv used ids (ovn_extend_table_init P name n)"
  by (simp add: ovn_extend_table_init_def ext_inv_def tables_inv_def refs_inv_def linked_def create_used create_ids)

lemma reinit_inv:
  assumes "ext_inv used ids t" "et_desired t = [] \<or> n = et_n_ids t"
  shows "\<exists>t'. ovn_extend_table_reinit P t n = Some t' \<and> ext_inv used ids t' \<and> et_n_ids t' = n"
proof (cases "n = et_n_ids t")
  case True
  then show ?thesis using assms(1) by (simp add: ovn_extend_table_reinit_def)
next
  case False
  then obtain t' where t': "ovn_extend_table_clear P t True = Some t'" "ext_inv used ids t'" "et_existing t' = []"
    "same_refs (et_desired t') (et_desired t)" using clear_existing_ok [OF assms(1)] by auto
  moreover have "et_desired t' = []" using t'(4) assms(2) False by (simp add: same_refs_def)
  ultimately show ?thesis using False
    by (auto simp: ovn_extend_table_reinit_def ext_inv_def tables_inv_def linked_def create_used create_ids)
qed

text \<open>What is removed from the table of desired entries does not depend on the pool; a pool only loses ids on the way.\<close>

definition with_pool :: "'p \<Rightarrow> nat \<Rightarrow> 'p ovn_extend_table \<Rightarrow> 'p ovn_extend_table" where
  "with_pool q n t = t\<lparr>et_table_ids := q, et_n_ids := n\<rparr>"

lemma with_pool_sel [simp]:
  "et_table_ids (with_pool q n t) = q" "et_n_ids (with_pool q n t) = n" "et_desired (with_pool q n t) = et_desired t"
  "et_existing (with_pool q n t) = et_existing t" "et_lflow_to_desired (with_pool q n t) = et_lflow_to_desired t"
  by (simp_all add: with_pool_def)

lemma with_pool_upd [simp]:
  "(with_pool q n t)\<lparr>et_desired := D\<rparr> = with_pool q n (t\<lparr>et_desired := D\<rparr>)"
  "(with_pool q n t)\<lparr>et_existing := X\<rparr> = with_pool q n (t\<lparr>et_existing := X\<rparr>)"
  "(with_pool q n t)\<lparr>et_lflow_to_desired := L\<rparr> = with_pool q n (t\<lparr>et_lflow_to_desired := L\<rparr>)"
  "(with_pool q n t)\<lparr>et_table_ids := r\<rparr> = with_pool r n t" "with_pool q n (t\<lparr>et_table_ids := r\<rparr>) = with_pool q n t"
  by (simp_all add: with_pool_def)

lemma delete_loop_other_pool:
  "delete_desired_loop P u ns t = Some t' \<Longrightarrow> \<exists>q'. delete_desired_loop P u ns (with_pool q n t) =
     Some (with_pool q' n t') \<and> used q' \<subseteq> used q \<and> ids q' = ids q"
proof (induction ns arbitrary: t q)
  case (Cons m ns)
  obtain e0 where e0: "find_info m (et_desired t) = Some e0" using Cons.prems by (auto split: option.splits)
  let ?e = "ovn_extend_info_del_lflow_ref e0 u"
  show ?case
  proof (cases "info_references ?e = []")
    case True
    then obtain others pool where r: "release_info P ?e (et_existing t) (et_table_ids t) = Some (others, pool)"
      "delete_desired_loop P u ns (t\<lparr>et_desired := del_info m (et_desired t), et_existing := others, et_table_ids := pool,
         et_lflow_to_desired := ovn_extend_table_info_destroy ?e (et_lflow_to_desired t)\<rparr>) = Some t'"
      using Cons.prems e0 by (auto simp: Let_def bind_eq_Some_conv)
    then obtain q1 where q1: "release_info P ?e (et_existing t) q = Some (others, q1)" "used q1 \<subseteq> used q" "ids q1 = ids q"
      by (auto simp: release_info_def free_used free_ids split: option.splits)
    show ?thesis using Cons.IH [OF r(2), of q1] e0 True q1 by (auto simp: Let_def)
  next
    case False
    then have "delete_desired_loop P u ns (t\<lparr>et_desired := upd_info m (\<lambda>_. ?e) (et_desired t)\<rparr>) = Some t'"
      using Cons.prems e0 by (simp add: Let_def)
    from Cons.IH [OF this, of q] show ?thesis using e0 False by (auto simp: Let_def)
  qed
qed auto

lemma clear_flows_other_pool:
  "clear_flows P us t = Some t' \<Longrightarrow> \<exists>q'. clear_flows P us (with_pool q n t) =
     Some (with_pool q' n t') \<and> used q' \<subseteq> used q \<and> ids q' = ids q"
proof (induction us arbitrary: t q)
  case (Cons u us)
  obtain ns t1 where t1: "ovn_extend_table_find_desired_by_lflow (et_lflow_to_desired t) u = Some ns"
    "ovn_extend_table_delete_desired P t (u, ns) = Some t1" "clear_flows P us t1 = Some t'"
    using Cons.prems by (auto simp: bind_eq_Some_conv split: option.splits)
  obtain q1 where q1: "ovn_extend_table_delete_desired P (with_pool q n t) (u, ns) = Some (with_pool q1 n t1)"
    "used q1 \<subseteq> used q" "ids q1 = ids q"
    using delete_loop_other_pool [OF t1(2) [unfolded ovn_extend_table_delete_desired_def], where q = q and n = n]
    by (auto simp: ovn_extend_table_delete_desired_def)
  show ?case using Cons.IH [OF t1(3), of q1] t1(1) q1 by auto
qed auto

text \<open>Changing the number of ids and clearing the desired entries before they are used, as a forced recompute does.\<close>

lemma resize_inv:
  assumes "ext_inv used ids t"
  shows "\<exists>t1 t'. ovn_extend_table_reinit P t n = Some t1 \<and> ovn_extend_table_clear P t1 False = Some t' \<and> ext_inv used ids t' \<and>
    et_n_ids t' = n"
proof (cases "n = et_n_ids t")
  case True
  then show ?thesis using clear_desired_ok [OF assms] by (auto simp: ovn_extend_table_reinit_def)
next
  case False
  obtain t0 where t0: "ovn_extend_table_clear P t True = Some t0" "ext_inv used ids t0" "et_existing t0 = []"
    using clear_existing_ok [OF assms] by auto
  obtain t1 where t1: "clear_flows P (map fst (et_lflow_to_desired t0)) t0 = Some t1" "ext_inv used ids t1"
    "et_lflow_to_desired t1 = []" "same_refs (et_existing t1) (et_existing t0)"
    using clear_flows_ok [OF t0(2) refl] by auto
  have D: "et_desired t1 = []" using t1(2,3) by (cases "et_desired t1") (auto simp: ext_inv_def refs_inv_def)
  have X: "et_existing t1 = []" using t1(4) t0(3) by (simp add: same_refs_def)
  let ?q = "id_pool_create P 1 n"
  obtain q' where q': "clear_flows P (map fst (et_lflow_to_desired t0)) (with_pool ?q n t0) =
      Some (with_pool q' n t1)" "used q' \<subseteq> used ?q" "ids q' = ids ?q"
    using clear_flows_other_pool [OF t1(1)] by blast
  have "ext_inv used ids (with_pool q' n t1)"
    using q'(2,3) D X t1(3) by (auto simp: ext_inv_def tables_inv_def linked_def refs_inv_def create_used create_ids)
  moreover have same: "t1\<lparr>et_desired := [], et_existing := [], et_lflow_to_desired := []\<rparr> = t1" using D X t1(3) by (cases t1) simp
  have "ovn_extend_table_clear P (with_pool ?q n t0) False = Some (with_pool q' n t1)"
    using q'(1) D X t1(3) by (simp add: ovn_extend_table_clear_def same)
  moreover have "ovn_extend_table_reinit P t n = Some (with_pool ?q n t0)"
    using False t0(1) by (simp add: ovn_extend_table_reinit_def with_pool_def)
  ultimately show ?thesis by simp
qed

lemma destroy_ok:
  assumes "ext_inv used ids t"
  shows "\<exists>t'. ovn_extend_table_destroy P t = Some t' \<and> et_desired t' = [] \<and> et_existing t' = [] \<and>
    et_lflow_to_desired t' = [] \<and> used (et_table_ids t') = {}"
proof -
  obtain t1 where t1: "ovn_extend_table_clear P t False = Some t1" "ext_inv used ids t1" "et_desired t1 = []"
    "et_lflow_to_desired t1 = []" using clear_desired_ok [OF assms] by auto
  obtain t2 where t2: "ovn_extend_table_clear P t1 True = Some t2" "ext_inv used ids t2" "et_existing t2 = []"
    "same_refs (et_desired t2) (et_desired t1)" "et_lflow_to_desired t2 = et_lflow_to_desired t1" using clear_existing_ok [OF t1(2)] by auto
  have D: "et_desired t2 = []" using t1 t2 by (simp add: same_refs_def)
  show ?thesis using t1 t2 D
    by (auto simp: ovn_extend_table_destroy_def ext_inv_def tables_inv_def)
qed

end

section \<open>Reachable tables\<close>

text \<open>
  The tables that the callers can build.  Changing the number of ids with \<open>ovn_extend_table_reinit\<close> empties the table of
  installed entries and makes a new pool, in which the ids of the desired entries are not reserved.  Two uses keep the
  table consistent: without desired entries (\<open>reinit\<close>), and with the desired entries cleared before any other call
  (\<open>resize\<close>).  The second is how \<open>controller/ovn-controller.c\<close> means it: it forces a full recompute with the call, and
  the recompute starts with \<open>ovn_extend_table_clear\<close> of the desired entries (\<open>en_lflow_output_run\<close>).  What happens when
  another call comes first is shown by \<open>reinit_gives_id_twice\<close> and \<open>reinit_sync_skips\<close>.
\<close>

inductive ext_reach :: "'p id_pool_ops \<Rightarrow> (string \<Rightarrow> nat) \<Rightarrow> 'p ovn_extend_table \<Rightarrow> bool" for P H where
  init: "ext_reach P H (ovn_extend_table_init P name n)"
| assign: "ext_reach P H t \<Longrightarrow> ovn_extend_table_assign_id P t name u = (i, t') \<Longrightarrow> ext_reach P H t'"
| remove_desired: "ext_reach P H t \<Longrightarrow> ovn_extend_table_remove_desired P t u = Some t' \<Longrightarrow> ext_reach P H t'"
| remove_existing: "ext_reach P H t \<Longrightarrow> name \<in> info_names (et_existing t) \<Longrightarrow>
    ovn_extend_table_remove_existing P t name = Some t' \<Longrightarrow> ext_reach P H t'"
| clear: "ext_reach P H t \<Longrightarrow> ovn_extend_table_clear P t existing = Some t' \<Longrightarrow> ext_reach P H t'"
| sync: "ext_reach P H t \<Longrightarrow> ext_reach P H (ovn_extend_table_sync H t)"
| reinit: "ext_reach P H t \<Longrightarrow> et_desired t = [] \<or> n = et_n_ids t \<Longrightarrow>
    ovn_extend_table_reinit P t n = Some t' \<Longrightarrow> ext_reach P H t'"
| resize: "ext_reach P H t \<Longrightarrow> ovn_extend_table_reinit P t n = Some t1 \<Longrightarrow>
    ovn_extend_table_clear P t1 False = Some t' \<Longrightarrow> ext_reach P H t'"

context id_pool_api
begin

lemma reach_inv: "ext_reach P H t \<Longrightarrow> ext_inv used ids t"
proof (induction rule: ext_reach.induct)
  case (assign t name u i t')
  then show ?case using assign_inv [of t name u] by simp
next
  case (remove_desired t u t')
  then show ?case using remove_desired_ok [of t u] by auto
next
  case (remove_existing t name t')
  then show ?case using remove_existing_ok [of t name] by auto
next
  case (clear t existing t')
  then show ?case using clear_desired_ok [of t] clear_existing_ok [of t] by (cases existing) auto
next
  case (reinit t n t')
  then show ?case using reinit_inv [of t n] by auto
next
  case (resize t n t1 t')
  then show ?case using resize_inv [of t n] by auto
qed (simp_all add: init_inv sync_ok)

end

section \<open>Properties\<close>

definition meters :: "ref_pool ovn_extend_table" where
  "meters = snd (ovn_extend_table_assign_id ref_pools
     (snd (ovn_extend_table_assign_id ref_pools (ovn_extend_table_init ref_pools ''meters'' 8) ''acl'' 7)) ''copp'' 9)"

lemma meters_reach: "ext_reach ref_pools length meters"
  unfolding meters_def by (rule ext_reach.assign [OF ext_reach.assign [OF ext_reach.init]]) (rule surjective_pairing)+

lemma meters_eq: "meters = \<lparr>et_name = ''meters'', et_n_ids = 8, et_table_ids = \<lparr>rp_base = 1, rp_n = 8, rp_used = [2, 1]\<rparr>,
   et_desired = [\<lparr>info_name = ''acl'', info_table_id = 1, info_peer = None, info_references = [7]\<rparr>,
                 \<lparr>info_name = ''copp'', info_table_id = 2, info_peer = None, info_references = [9]\<rparr>],
   et_lflow_to_desired = [(7, [''acl'']), (9, [''copp''])], et_existing = []\<rparr>"
  by code_simp

text \<open>
  C8. For every sequence of calls in which a change of the number of ids finds no desired entries, or is followed by
  clearing them before any other call, an id stands for one name in the two tables, every id is
  a valid one, the pool holds exactly the ids in use (none is leaked and none is given out twice),
  and entries of one name are linked as peers.
\<close>

theorem extend_table_ids:
  assumes "id_pool_api P used ids" "ext_reach P H t"
  shows "used (et_table_ids t) = info_table_id ` (set (et_desired t) \<union> set (et_existing t)) \<and>
    (\<forall>a \<in> set (et_desired t) \<union> set (et_existing t). 1 \<le> info_table_id a \<and> info_table_id a \<le> et_n_ids t \<and>
      (\<forall>b \<in> set (et_desired t) \<union> set (et_existing t). info_table_id a = info_table_id b \<longleftrightarrow> info_name a = info_name b)) \<and>
    linked (et_desired t) (et_existing t) \<and> linked (et_existing t) (et_desired t)"
proof -
  have inv: "ext_inv used ids t" by (rule id_pool_api.reach_inv [OF assms])
  then show ?thesis using ids_of_desired [OF inv] by (simp add: ext_inv_def tables_inv_def)
qed

theorem extend_table_ids_witness:
  "set (rp_used (et_table_ids meters)) = {1, 2} \<and> set (rp_used (et_table_ids meters)) =
     info_table_id ` (set (et_desired meters) \<union> set (et_existing meters))"
  using extend_table_ids [OF rpool.id_pool_api_axioms meters_reach] by (simp add: meters_eq insert_commute)

text \<open>
  C9. On a table built by such calls (\<open>ext_reach\<close>), \<open>ovn_extend_table_assign_id\<close> returns the id that the name has in either table; for a new name it
  returns an id that is not in use, or the invalid id exactly when all ids are taken, and then it
  changes nothing.  A valid id is recorded for the name with a reference from the logical flow.
\<close>

theorem assign_id_correct:
  assumes "id_pool_api P used ids" "ext_reach P H t" "ovn_extend_table_assign_id P t name u = (i, t')"
  shows "(case find_info name (et_desired t) of Some d \<Rightarrow> i = info_table_id d | None \<Rightarrow>
      (case find_info name (et_existing t) of Some x \<Rightarrow> i = info_table_id x | None \<Rightarrow>
        if i = EXT_TABLE_ID_INVALID then t' = t \<and> used (et_table_ids t) = {1..et_n_ids t}
        else i \<notin> used (et_table_ids t) \<and> i \<le> et_n_ids t)) \<and>
    (i = EXT_TABLE_ID_INVALID \<or> assigned name u i t')"
proof -
  have inv: "ext_inv used ids t" by (rule id_pool_api.reach_inv [OF assms(1,2)])
  show ?thesis
    using id_pool_api.assign_desired [OF assms(1) inv _ assms(3)] id_pool_api.assign_existing [OF assms(1) inv _ _ assms(3)]
      id_pool_api.assign_new [OF assms(1) inv _ _ assms(3)]
    by (auto split: option.splits if_splits)
qed

theorem assign_id_correct_witness:
  "fst (ovn_extend_table_assign_id ref_pools meters ''acl'' 11) = 1 \<and>
   assigned ''acl'' 11 1 (snd (ovn_extend_table_assign_id ref_pools meters ''acl'' 11))"
proof -
  have "fst (ovn_extend_table_assign_id ref_pools meters ''acl'' 11) = 1" by code_simp
  then show ?thesis
    using assign_id_correct [OF rpool.id_pool_api_axioms meters_reach surjective_pairing, of "''acl''" 11]
    by (simp add: EXT_TABLE_ID_INVALID_def)
qed

text \<open>
  C10. On a table built by such calls, \<open>ovn_extend_table_remove_desired\<close> never follows a dangling pointer; it takes the logical flow out of
  the references of every desired entry and removes exactly the entries left without any, and the
  installed entries keep their names and ids.
\<close>

theorem remove_desired_exact:
  assumes "id_pool_api P used ids" "ext_reach P H t"
  shows "\<exists>t'. ovn_extend_table_remove_desired P t u = Some t' \<and>
    et_desired t' = filter (\<lambda>d. info_references d \<noteq> [])
      (map (\<lambda>d. d\<lparr>info_references := removeAll u (info_references d)\<rparr>) (et_desired t)) \<and>
    map (\<lambda>e. (info_name e, info_table_id e)) (et_existing t') = map (\<lambda>e. (info_name e, info_table_id e)) (et_existing t)"
proof -
  obtain t' where t': "ovn_extend_table_remove_desired P t u = Some t'" "et_desired t' = drop_ref u (et_desired t)"
    "same_refs (et_existing t') (et_existing t)"
    using id_pool_api.remove_desired_ok [OF assms(1) id_pool_api.reach_inv [OF assms]] by blast
  from arg_cong [OF t'(3) [unfolded same_refs_def], of "map (\<lambda>(n, i, _). (n, i))"]
  have "map (\<lambda>e. (info_name e, info_table_id e)) (et_existing t') = map (\<lambda>e. (info_name e, info_table_id e)) (et_existing t)"
    by (simp add: o_def)
  then show ?thesis using t' by (simp add: drop_ref_def ovn_extend_info_del_lflow_ref_def)
qed

theorem remove_desired_exact_witness:
  "\<exists>t'. ovn_extend_table_remove_desired ref_pools meters 7 = Some t' \<and> map info_name (et_desired t') = [''copp'']"
  using remove_desired_exact [OF rpool.id_pool_api_axioms meters_reach, of 7] by (auto simp: meters_eq)

text \<open>
  C11. On a table built by such calls (\<open>ext_reach\<close>), after \<open>ovn_extend_table_sync\<close> every desired entry is installed under its id, whatever the string hash,
  no installed entry is lost, and the references of the desired entries are untouched.
\<close>

theorem sync_installs_desired:
  assumes "id_pool_api P used ids" "ext_reach P H t"
  shows "(\<forall>d \<in> set (et_desired t). \<exists>x \<in> set (et_existing (ovn_extend_table_sync H t)).
      info_name x = info_name d \<and> info_table_id x = info_table_id d) \<and>
    set (et_existing t) \<subseteq> set (et_existing (ovn_extend_table_sync H t)) \<and>
    same_refs (et_desired (ovn_extend_table_sync H t)) (et_desired t)"
proof -
  have inv: "ext_inv used ids t" by (rule id_pool_api.reach_inv [OF assms])
  let ?t = "ovn_extend_table_sync H t"
  have "\<exists>x \<in> set (et_existing ?t). info_name x = info_name d \<and> info_table_id x = info_table_id d" if d: "d \<in> set (et_desired t)" for d
  proof -
    obtain d' where d': "d' \<in> set (et_desired ?t)" "info_name d' = info_name d" "info_table_id d' = info_table_id d"
      using same_refs_mem [OF same_refs_sym [OF sync_ok(2) [OF inv]] d] by metis
    have "info_name d \<in> info_names (et_existing ?t)" using sync_ok(3) [OF inv, of H] d by blast
    then obtain x where x: "x \<in> set (et_existing ?t)" "info_name x = info_name d" by (metis imageE)
    moreover have "info_table_id x = info_table_id d'"
      using sync_ok(1) [OF inv, of H] x d' unfolding ext_inv_def tables_inv_def by (metis UnI1 UnI2)
    ultimately show ?thesis using d' by auto
  qed
  then show ?thesis using sync_ok [OF inv] by blast
qed

theorem sync_installs_desired_witness:
  "\<exists>x \<in> set (et_existing (ovn_extend_table_sync length meters)). info_name x = ''copp'' \<and> info_table_id x = 2"
  using sync_installs_desired [OF rpool.id_pool_api_axioms meters_reach] by (auto simp: meters_eq)

text \<open>
  \<open>ovn_extend_table_reinit\<close> empties only the table of installed entries: the ids of the desired ones are
  not reserved in the new pool, and the next new name is given an id that another name still has.
\<close>

lemma reinit_gives_id_twice:
  "map_option (\<lambda>t. fst (ovn_extend_table_assign_id ref_pools t ''other'' 5)) (ovn_extend_table_reinit ref_pools meters 16) = Some 1 \<and>
   map_option (\<lambda>t. map_option info_table_id (ovn_extend_table_desired_lookup_by_name t ''acl''))
     (ovn_extend_table_reinit ref_pools meters 16) = Some (Some 1)"
  by code_simp

text \<open>The next \<open>ovn_extend_table_sync\<close> can then take one of the two names for installed, when their hashes collide.\<close>

lemma reinit_sync_skips:
  "map_option (\<lambda>t. let t1 = ovn_extend_table_sync (\<lambda>_. 0) (snd (ovn_extend_table_assign_id ref_pools t ''other'' 5)) in
     (map info_name (et_desired t1), map info_name (et_existing t1))) (ovn_extend_table_reinit ref_pools meters 16) =
   Some ([''acl'', ''copp'', ''other''], [''acl'', ''copp''])"
  by code_simp

end
