(* ===== verification/Ofctrl_Seqno.thy ===== *)
theory Ofctrl_Seqno
  imports Ovn_Prelude
begin

text \<open>
  Acknowledgement of application sequence numbers (\<open>controller/ofctrl-seqno.c\<close>).  The module's
  static variables are the record \<open>seqno_mgr\<close>; every function of the file is an operation on it.
  A request is stamped with the number of the next OpenFlow barrier (\<open>ofctrl_seqno_update_create\<close>);
  once a barrier is answered, \<open>ofctrl_seqno_run\<close> moves the requests it covers to the per-type list
  that \<open>ofctrl_acked_seqnos_get\<close> hands to the application.

  The lemmas show that the early exit of the loop in \<open>ofctrl_seqno_run\<close> is right (it
  acknowledges exactly the requests the barrier covers), and that each type sees a lossless queue:
  what was delivered, what is acknowledged and what is in flight together are the requests made,
  in order and without repetition.  \<open>uint64_t\<close> values are naturals; the increment of the barrier
  number wraps at \<open>2 ^ 64\<close>.
\<close>

section \<open>State\<close>

record ofctrl_seqno_update =
  su_seqno_type :: nat
  su_flow_cfg :: nat
  su_req_cfg :: nat

record ofctrl_seqno_state =
  ss_acked_cfgs :: "ofctrl_seqno_update list"
  ss_cur_cfg :: nat
  ss_req_cfg :: nat

record seqno_mgr =
  ofctrl_seqno_updates :: "ofctrl_seqno_update list"
  ofctrl_req_seqno :: nat
  ofctrl_seqno_states :: "ofctrl_seqno_state list"

record ofctrl_acked_seqnos =
  as_acked :: "nat list"
  as_last_acked :: nat

section \<open>Operations\<close>

definition ofctrl_acked_seqnos_init :: "nat \<Rightarrow> ofctrl_acked_seqnos" where
  "ofctrl_acked_seqnos_init last_acked = \<lparr>as_acked = [], as_last_acked = last_acked\<rparr>"

definition ofctrl_acked_seqnos_add :: "ofctrl_acked_seqnos \<Rightarrow> nat \<Rightarrow> ofctrl_acked_seqnos" where
  "ofctrl_acked_seqnos_add s v = \<lparr>as_acked = as_acked s @ [v], as_last_acked = v\<rparr>"

definition ofctrl_acked_seqnos_contains :: "ofctrl_acked_seqnos \<Rightarrow> nat \<Rightarrow> bool" where
  "ofctrl_acked_seqnos_contains s v \<longleftrightarrow> list_ex (\<lambda>sn. sn = v) (as_acked s)"

text \<open>The type is used as an index before the assertion on it; both fail alike here.\<close>

definition ofctrl_acked_seqnos_get :: "seqno_mgr \<Rightarrow> nat \<Rightarrow> (ofctrl_acked_seqnos \<times> seqno_mgr) option" where
  "ofctrl_acked_seqnos_get m seqno_type =
     (if seqno_type < length (ofctrl_seqno_states m) then
        let st = ofctrl_seqno_states m ! seqno_type;
            acked = fold (\<lambda>u s. ofctrl_acked_seqnos_add s (su_req_cfg u)) (ss_acked_cfgs st)
              (ofctrl_acked_seqnos_init (ss_cur_cfg st))
        in Some (acked, m\<lparr>ofctrl_seqno_states :=
             (ofctrl_seqno_states m)[seqno_type := st\<lparr>ss_acked_cfgs := []\<rparr>]\<rparr>)
      else None)"

definition ofctrl_seqno_init :: "seqno_mgr \<Rightarrow> seqno_mgr" where
  "ofctrl_seqno_init m = m\<lparr>ofctrl_seqno_updates := []\<rparr>"

text \<open>The new array comes from \<open>xzalloc\<close>, and only the lists of acknowledged requests are moved.\<close>

definition ofctrl_seqno_add_type :: "seqno_mgr \<Rightarrow> nat \<times> seqno_mgr" where
  "ofctrl_seqno_add_type m =
     (length (ofctrl_seqno_states m),
      m\<lparr>ofctrl_seqno_states :=
          map (\<lambda>s. \<lparr>ss_acked_cfgs = ss_acked_cfgs s, ss_cur_cfg = 0, ss_req_cfg = 0\<rparr>) (ofctrl_seqno_states m)
          @ [\<lparr>ss_acked_cfgs = [], ss_cur_cfg = 0, ss_req_cfg = 0\<rparr>]\<rparr>)"

definition ofctrl_seqno_update_create1 :: "seqno_mgr \<Rightarrow> nat \<Rightarrow> nat \<Rightarrow> seqno_mgr" where
  "ofctrl_seqno_update_create1 m seqno_type req_cfg =
     (let n = (ofctrl_req_seqno m + 1) mod 2 ^ 64 in
      m\<lparr>ofctrl_req_seqno := n,
        ofctrl_seqno_updates := ofctrl_seqno_updates m @
          [\<lparr>su_seqno_type = seqno_type, su_flow_cfg = n, su_req_cfg = req_cfg\<rparr>]\<rparr>)"

definition ofctrl_seqno_update_create :: "seqno_mgr \<Rightarrow> nat \<Rightarrow> nat \<Rightarrow> seqno_mgr option" where
  "ofctrl_seqno_update_create m seqno_type new_cfg =
     (if \<not> seqno_type < length (ofctrl_seqno_states m) then None
      else
        let st = ofctrl_seqno_states m ! seqno_type in
        if new_cfg = ss_req_cfg st then Some m
        else Some (ofctrl_seqno_update_create1
          (m\<lparr>ofctrl_seqno_states := (ofctrl_seqno_states m)[seqno_type := st\<lparr>ss_req_cfg := new_cfg\<rparr>]\<rparr>)
          seqno_type new_cfg))"

definition ofctrl_seqno_cfg_run :: "seqno_mgr \<Rightarrow> ofctrl_seqno_update \<Rightarrow> seqno_mgr option" where
  "ofctrl_seqno_cfg_run m u =
     (if \<not> su_seqno_type u < length (ofctrl_seqno_states m) then None
      else
        let st = ofctrl_seqno_states m ! su_seqno_type u in
        Some (m\<lparr>ofctrl_seqno_states := (ofctrl_seqno_states m)[su_seqno_type u :=
          st\<lparr>ss_acked_cfgs := ss_acked_cfgs st @ [u], ss_cur_cfg := su_req_cfg u\<rparr>]\<rparr>))"

fun seqno_run_loop :: "nat \<Rightarrow> ofctrl_seqno_update list \<Rightarrow> seqno_mgr \<Rightarrow> seqno_mgr option" where
  "seqno_run_loop flow_cfg [] m = Some (m\<lparr>ofctrl_seqno_updates := []\<rparr>)"
| "seqno_run_loop flow_cfg (u # us) m =
     (if flow_cfg < su_flow_cfg u then Some (m\<lparr>ofctrl_seqno_updates := u # us\<rparr>)
      else do { m' \<leftarrow> ofctrl_seqno_cfg_run m u; seqno_run_loop flow_cfg us m' })"

definition ofctrl_seqno_run :: "seqno_mgr \<Rightarrow> nat \<Rightarrow> seqno_mgr option" where
  "ofctrl_seqno_run m flow_cfg = seqno_run_loop flow_cfg (ofctrl_seqno_updates m) m"

definition ofctrl_seqno_get_req_cfg :: "seqno_mgr \<Rightarrow> nat" where
  "ofctrl_seqno_get_req_cfg m = ofctrl_req_seqno m"

definition ofctrl_seqno_flush :: "seqno_mgr \<Rightarrow> seqno_mgr" where
  "ofctrl_seqno_flush m =
     m\<lparr>ofctrl_seqno_states := map (\<lambda>s. s\<lparr>ss_acked_cfgs := []\<rparr>) (ofctrl_seqno_states m),
       ofctrl_seqno_updates := [], ofctrl_req_seqno := 0\<rparr>"

section \<open>Invariant\<close>

text \<open>Requests are queued in the order of their barrier numbers, none ahead of the last number
  given out, and each for a registered type.\<close>

definition seqno_inv :: "seqno_mgr \<Rightarrow> bool" where
  "seqno_inv m \<longleftrightarrow> sorted_wrt (<) (map su_flow_cfg (ofctrl_seqno_updates m)) \<and>
     (\<forall>u \<in> set (ofctrl_seqno_updates m). su_flow_cfg u \<le> ofctrl_req_seqno m \<and>
        su_seqno_type u < length (ofctrl_seqno_states m))"

definition seqno_initial :: "nat \<Rightarrow> seqno_mgr" where
  "seqno_initial n = \<lparr>ofctrl_seqno_updates = [], ofctrl_req_seqno = 0,
     ofctrl_seqno_states = replicate n \<lparr>ss_acked_cfgs = [], ss_cur_cfg = 0, ss_req_cfg = 0\<rparr>\<rparr>"

lemma seqno_inv_initial: "seqno_inv (seqno_initial n)"
  by (simp add: seqno_inv_def seqno_initial_def)

lemma seqno_inv_flush: "seqno_inv (ofctrl_seqno_flush m)"
  by (simp add: seqno_inv_def ofctrl_seqno_flush_def)

lemma seqno_inv_init: "seqno_inv (ofctrl_seqno_init m)"
  by (simp add: seqno_inv_def ofctrl_seqno_init_def)

lemma seqno_inv_add_type: "seqno_inv m \<Longrightarrow> seqno_inv (snd (ofctrl_seqno_add_type m))"
  by (auto simp: seqno_inv_def ofctrl_seqno_add_type_def)

lemma add_type_iterate: "(\<lambda>m. snd (ofctrl_seqno_add_type m)) (seqno_initial n) = seqno_initial (Suc n)"
  by (simp add: ofctrl_seqno_add_type_def seqno_initial_def replicate_append_same)

lemma seqno_inv_create:
  assumes "seqno_inv m" "ofctrl_req_seqno m + 1 < 2 ^ 64" "ofctrl_seqno_update_create m ty c = Some m'"
  shows "seqno_inv m'"
  using assms
  by (auto simp: seqno_inv_def ofctrl_seqno_update_create_def ofctrl_seqno_update_create1_def Let_def
      sorted_wrt_append less_Suc_eq_le le_SucI split: if_splits)

lemma seqno_inv_get: "seqno_inv m \<Longrightarrow> ofctrl_acked_seqnos_get m ty = Some (a, m') \<Longrightarrow> seqno_inv m'"
  by (auto simp: seqno_inv_def ofctrl_acked_seqnos_get_def Let_def split: if_splits)

section \<open>The effect of \<open>ofctrl_seqno_run\<close>\<close>

definition acks_of :: "nat \<Rightarrow> nat \<Rightarrow> ofctrl_seqno_update list \<Rightarrow> ofctrl_seqno_update list" where
  "acks_of flow_cfg ty us = filter (\<lambda>u. su_flow_cfg u \<le> flow_cfg \<and> su_seqno_type u = ty) us"

text \<open>Reference definition of the effect: every covered request, wherever it stands in the queue.\<close>

definition ack_state :: "nat \<Rightarrow> ofctrl_seqno_update list \<Rightarrow> nat \<Rightarrow> ofctrl_seqno_state \<Rightarrow> ofctrl_seqno_state" where
  "ack_state flow_cfg us ty st =
     st\<lparr>ss_acked_cfgs := ss_acked_cfgs st @ acks_of flow_cfg ty us,
        ss_cur_cfg := (if acks_of flow_cfg ty us = [] then ss_cur_cfg st
                       else su_req_cfg (List.last (acks_of flow_cfg ty us)))\<rparr>"

definition seqno_run_ref :: "nat \<Rightarrow> ofctrl_seqno_update list \<Rightarrow> seqno_mgr \<Rightarrow> seqno_mgr" where
  "seqno_run_ref flow_cfg us m =
     m\<lparr>ofctrl_seqno_updates := filter (\<lambda>u. flow_cfg < su_flow_cfg u) us,
       ofctrl_seqno_states := map (\<lambda>i. ack_state flow_cfg us i (ofctrl_seqno_states m ! i))
         [0..<length (ofctrl_seqno_states m)]\<rparr>"

lemma ack_state_Nil [simp]: "acks_of flow_cfg ty us = [] \<Longrightarrow> ack_state flow_cfg us ty st = st"
  by (simp add: ack_state_def)

lemma acks_of_Cons:
  "acks_of k ty (u # us) = (if su_flow_cfg u \<le> k \<and> su_seqno_type u = ty then u # acks_of k ty us else acks_of k ty us)"
  by (simp add: acks_of_def)

lemma ack_state_Cons:
  "su_flow_cfg u \<le> k \<Longrightarrow> ack_state k (u # us) ty st = ack_state k us ty
     (if su_seqno_type u = ty then st\<lparr>ss_acked_cfgs := ss_acked_cfgs st @ [u], ss_cur_cfg := su_req_cfg u\<rparr> else st)"
  by (simp add: ack_state_def acks_of_Cons)

lemma all_later: "\<forall>u \<in> set us. k < su_flow_cfg u \<Longrightarrow> seqno_run_ref k us m = m\<lparr>ofctrl_seqno_updates := us\<rparr>"
proof -
  assume later: "\<forall>u \<in> set us. k < su_flow_cfg u"
  then have "acks_of k i us = []" for i by (auto simp: acks_of_def filter_empty_conv)
  moreover have "filter (\<lambda>u. k < su_flow_cfg u) us = us" using later by (simp add: filter_id_conv)
  ultimately show ?thesis by (simp add: seqno_run_ref_def map_nth)
qed

lemma seqno_run_loop_ref:
  assumes "sorted_wrt (<) (map su_flow_cfg us)" "\<forall>u \<in> set us. su_seqno_type u < length (ofctrl_seqno_states m)"
  shows "seqno_run_loop k us m = Some (seqno_run_ref k us m)"
  using assms
proof (induction us arbitrary: m)
  case Nil
  then show ?case using all_later [of "[]" k m] by simp
next
  case (Cons u us)
  show ?case
  proof (cases "k < su_flow_cfg u")
    case True
    then have "\<forall>v \<in> set (u # us). k < su_flow_cfg v" using Cons.prems by fastforce
    then show ?thesis using True all_later by simp
  next
    case False
    obtain m' where m': "ofctrl_seqno_cfg_run m u = Some m'" "length (ofctrl_seqno_states m') = length (ofctrl_seqno_states m)"
      using Cons.prems by (simp add: ofctrl_seqno_cfg_run_def Let_def)
    have "seqno_run_loop k us m' = Some (seqno_run_ref k us m')"
      using Cons.IH Cons.prems m' by simp
    moreover have "seqno_run_ref k us m' = seqno_run_ref k (u # us) m"
      using m'(1) Cons.prems False
      by (auto simp: seqno_run_ref_def ofctrl_seqno_cfg_run_def Let_def ack_state_Cons nth_list_update_if split: if_splits)
    ultimately show ?thesis using False m' by simp
  qed
qed

lemma ofctrl_seqno_run_ref:
  "seqno_inv m \<Longrightarrow> ofctrl_seqno_run m k = Some (seqno_run_ref k (ofctrl_seqno_updates m) m)"
  by (simp add: ofctrl_seqno_run_def seqno_inv_def seqno_run_loop_ref)

lemma seqno_inv_run: "seqno_inv m \<Longrightarrow> ofctrl_seqno_run m k = Some m' \<Longrightarrow> seqno_inv m'"
  by (auto simp: ofctrl_seqno_run_ref seqno_run_ref_def seqno_inv_def sorted_wrt_map sorted_wrt_filter)

section \<open>Each type is a lossless queue\<close>

definition seqno_pending :: "seqno_mgr \<Rightarrow> nat \<Rightarrow> nat list" where
  "seqno_pending m ty = map su_req_cfg (filter (\<lambda>u. su_seqno_type u = ty) (ofctrl_seqno_updates m))"

definition seqno_acked :: "seqno_mgr \<Rightarrow> nat \<Rightarrow> nat list" where
  "seqno_acked m ty = map su_req_cfg (ss_acked_cfgs (ofctrl_seqno_states m ! ty))"

text \<open>Calls of the module after start-up, and the values they deliver to the application.\<close>

datatype seqno_op =
    Seqno_Create nat nat
  | Seqno_Run nat
  | Seqno_Get nat

fun seqno_step :: "seqno_mgr \<Rightarrow> seqno_op \<Rightarrow> (nat list \<times> seqno_mgr) option" where
  "seqno_step m (Seqno_Create ty c) = map_option (Pair []) (ofctrl_seqno_update_create m ty c)"
| "seqno_step m (Seqno_Run k) = map_option (Pair []) (ofctrl_seqno_run m k)"
| "seqno_step m (Seqno_Get ty) = map_option (\<lambda>(a, m'). (as_acked a, m')) (ofctrl_acked_seqnos_get m ty)"

fun seqno_trace :: "nat \<Rightarrow> seqno_mgr \<Rightarrow> seqno_op list \<Rightarrow> (nat list \<times> seqno_mgr) option" where
  "seqno_trace ty m [] = Some ([], m)"
| "seqno_trace ty m (opn # ops) = do {
     (out, m1) \<leftarrow> seqno_step m opn;
     (rest, m2) \<leftarrow> seqno_trace ty m1 ops;
     Some ((if opn = Seqno_Get ty then out else []) @ rest, m2) }"

definition requests_of :: "nat \<Rightarrow> seqno_op list \<Rightarrow> nat list" where
  "requests_of ty ops = List.map_filter (\<lambda>opn. case opn of Seqno_Create t c \<Rightarrow> if t = ty then Some c else None | _ \<Rightarrow> None) ops"

fun op_type_ok :: "nat \<Rightarrow> seqno_op \<Rightarrow> bool" where
  "op_type_ok n (Seqno_Create t c) \<longleftrightarrow> t < n"
| "op_type_ok n (Seqno_Run k) \<longleftrightarrow> True"
| "op_type_ok n (Seqno_Get t) \<longleftrightarrow> t < n"

lemma fold_acked_add:
  "as_acked (fold (\<lambda>u s. ofctrl_acked_seqnos_add s (su_req_cfg u)) us s) = as_acked s @ map su_req_cfg us"
  by (induction us arbitrary: s) (simp_all add: ofctrl_acked_seqnos_add_def)

lemma fold_last_acked:
  "as_last_acked (fold (\<lambda>u s. ofctrl_acked_seqnos_add s (su_req_cfg u)) us s) =
     (if us = [] then as_last_acked s else su_req_cfg (List.last us))"
  by (induction us arbitrary: s) (simp_all add: ofctrl_acked_seqnos_add_def)

definition req_of :: "seqno_mgr \<Rightarrow> nat \<Rightarrow> nat" where
  "req_of m ty = ss_req_cfg (ofctrl_seqno_states m ! ty)"

definition seqno_queue :: "seqno_mgr \<Rightarrow> nat \<Rightarrow> nat list" where
  "seqno_queue m ty = seqno_acked m ty @ seqno_pending m ty"

lemma create_queue:
  assumes "ofctrl_seqno_update_create m t c = Some m'" "ty < length (ofctrl_seqno_states m)"
  shows "seqno_queue m' ty = seqno_queue m ty @ (if t = ty \<and> c \<noteq> req_of m ty then [c] else [])"
    and "req_of m' ty = (if t = ty then c else req_of m ty)"
    and "length (ofctrl_seqno_states m') = length (ofctrl_seqno_states m)"
    and "ofctrl_req_seqno m' \<le> Suc (ofctrl_req_seqno m)"
  using assms
  by (auto simp: ofctrl_seqno_update_create_def ofctrl_seqno_update_create1_def Let_def seqno_queue_def
      seqno_acked_def seqno_pending_def req_of_def nth_list_update_if split: if_splits)

lemma sorted_split: "sorted_wrt (<) (map su_flow_cfg us) \<Longrightarrow>
  filter P (acks_of k ty us) @ filter (\<lambda>u. su_seqno_type u = ty \<and> P u) (filter (\<lambda>u. k < su_flow_cfg u) us) =
  filter (\<lambda>u. su_seqno_type u = ty \<and> P u) us"
proof (induction us)
  case Nil
  then show ?case by (simp add: acks_of_def)
next
  case (Cons u us)
  have "acks_of k ty us = []" if "k < su_flow_cfg u"
    using Cons.prems that by (fastforce simp: acks_of_def filter_empty_conv)
  then show ?case using Cons by (auto simp: acks_of_Cons not_less)
qed

lemma run_queue:
  assumes "seqno_inv m" "ofctrl_seqno_run m k = Some m'" "ty < length (ofctrl_seqno_states m)"
  shows "seqno_queue m' ty = seqno_queue m ty" and "req_of m' ty = req_of m ty"
    and "length (ofctrl_seqno_states m') = length (ofctrl_seqno_states m)"
    and "ofctrl_req_seqno m' = ofctrl_req_seqno m"
proof -
  have m': "m' = seqno_run_ref k (ofctrl_seqno_updates m) m"
    using assms ofctrl_seqno_run_ref by simp
  have "acks_of k ty (ofctrl_seqno_updates m) @ filter (\<lambda>u. su_seqno_type u = ty) (filter (\<lambda>u. k < su_flow_cfg u) (ofctrl_seqno_updates m)) =
      filter (\<lambda>u. su_seqno_type u = ty) (ofctrl_seqno_updates m)"
    using sorted_split [of "ofctrl_seqno_updates m" "\<lambda>_. True" k ty] assms(1) by (simp add: seqno_inv_def)
  from arg_cong [OF this, of "map su_req_cfg"] show "seqno_queue m' ty = seqno_queue m ty"
    using assms(3) by (simp add: m' seqno_queue_def seqno_acked_def seqno_pending_def seqno_run_ref_def ack_state_def)
qed (use assms in \<open>auto simp: ofctrl_seqno_run_ref seqno_run_ref_def req_of_def ack_state_def\<close>)

lemma get_queue:
  assumes "ofctrl_acked_seqnos_get m t = Some (a, m')" "ty < length (ofctrl_seqno_states m)"
  shows "seqno_queue m ty = (if t = ty then as_acked a else []) @ seqno_queue m' ty" and "req_of m' ty = req_of m ty"
    and "length (ofctrl_seqno_states m') = length (ofctrl_seqno_states m)"
    and "ofctrl_req_seqno m' = ofctrl_req_seqno m"
  using assms
  by (auto simp: ofctrl_acked_seqnos_get_def Let_def seqno_queue_def seqno_acked_def seqno_pending_def req_of_def
      fold_acked_add ofctrl_acked_seqnos_init_def nth_list_update_if split: if_splits)

lemma seqno_step_ok:
  assumes "seqno_inv m" "op_type_ok (length (ofctrl_seqno_states m)) opn" "ofctrl_req_seqno m + 1 < 2 ^ 64"
    "ty < length (ofctrl_seqno_states m)"
  obtains out m' where "seqno_step m opn = Some (out, m')" "seqno_inv m'"
    "length (ofctrl_seqno_states m') = length (ofctrl_seqno_states m)" "ofctrl_req_seqno m' \<le> Suc (ofctrl_req_seqno m)"
    "(if opn = Seqno_Get ty then out else []) @ seqno_queue m' ty =
       seqno_queue m ty @ tl (remdups_adj (req_of m ty # requests_of ty [opn]))"
    "req_of m' ty = List.last (req_of m ty # requests_of ty [opn])"
proof (cases opn)
  case (Seqno_Create t c)
  then obtain m' where m': "ofctrl_seqno_update_create m t c = Some m'"
    using assms that by (cases "c = req_of m t") (auto simp: ofctrl_seqno_update_create_def req_of_def Let_def)
  show ?thesis
    by (rule that [of "[]" m']) (use m' Seqno_Create seqno_inv_create [OF assms(1,3) m'] create_queue [OF m' assms(4)] in
        \<open>auto simp: requests_of_def map_filter_simps\<close>)
next
  case (Seqno_Run k)
  obtain m' where m': "ofctrl_seqno_run m k = Some m'"
    using assms ofctrl_seqno_run_ref by simp
  show ?thesis
    by (rule that [of "[]" m']) (use m' Seqno_Run seqno_inv_run [OF assms(1) m'] run_queue [OF assms(1) m' assms(4)] in
        \<open>auto simp: requests_of_def map_filter_simps\<close>)
next
  case (Seqno_Get t)
  then obtain a m' where m': "ofctrl_acked_seqnos_get m t = Some (a, m')"
    using assms by (auto simp: ofctrl_acked_seqnos_get_def Let_def)
  show ?thesis
    by (rule that [of "as_acked a" m']) (use m' Seqno_Get seqno_inv_get [OF assms(1) m'] get_queue [OF m' assms(4)] in
        \<open>auto simp: requests_of_def map_filter_simps\<close>)
qed

lemma requests_of_Cons: "requests_of ty (opn # ops) = requests_of ty [opn] @ requests_of ty ops"
  by (simp add: requests_of_def map_filter_def)

lemma requests_one: "requests_of ty [opn] = [] \<or> (\<exists>c. requests_of ty [opn] = [c])"
  by (simp add: requests_of_def map_filter_def)

lemma tl_remdups_adj_Cons:
  "tl (remdups_adj (r # rs @ ss)) = tl (remdups_adj (r # rs)) @ tl (remdups_adj (List.last (r # rs) # ss))"
  if "rs = [] \<or> (\<exists>c. rs = [c])"
  using that by (auto simp: remdups_adj_Cons split: list.splits)

lemma seqno_trace_queue:
  assumes "seqno_inv m" "\<forall>opn \<in> set ops. op_type_ok (length (ofctrl_seqno_states m)) opn"
    "ofctrl_req_seqno m + length ops < 2 ^ 64" "ty < length (ofctrl_seqno_states m)"
  shows "\<exists>out m'. seqno_trace ty m ops = Some (out, m') \<and> seqno_inv m' \<and>
    out @ seqno_queue m' ty = seqno_queue m ty @ tl (remdups_adj (req_of m ty # requests_of ty ops))"
  using assms
proof (induction ops arbitrary: m)
  case Nil
  then show ?case by (simp add: requests_of_def map_filter_simps)
next
  case (Cons opn ops)
  have pre: "op_type_ok (length (ofctrl_seqno_states m)) opn" "ofctrl_req_seqno m + 1 < 2 ^ 64"
    using Cons.prems by auto
  obtain out m1 where m1: "seqno_step m opn = Some (out, m1)" "seqno_inv m1"
    "length (ofctrl_seqno_states m1) = length (ofctrl_seqno_states m)" "ofctrl_req_seqno m1 \<le> Suc (ofctrl_req_seqno m)"
    "(if opn = Seqno_Get ty then out else []) @ seqno_queue m1 ty =
       seqno_queue m ty @ tl (remdups_adj (req_of m ty # requests_of ty [opn]))"
    "req_of m1 ty = List.last (req_of m ty # requests_of ty [opn])"
    by (rule seqno_step_ok [OF Cons.prems(1) pre Cons.prems(4)])
  obtain rest m2 where m2: "seqno_trace ty m1 ops = Some (rest, m2)" "seqno_inv m2"
    "rest @ seqno_queue m2 ty = seqno_queue m1 ty @ tl (remdups_adj (req_of m1 ty # requests_of ty ops))"
    using Cons.IH [OF m1(2)] Cons.prems m1(3,4) by auto
  let ?here = "if opn = Seqno_Get ty then out else []"
  have "(?here @ rest) @ seqno_queue m2 ty = ?here @ (seqno_queue m1 ty @ tl (remdups_adj (req_of m1 ty # requests_of ty ops)))"
    unfolding append_assoc m2(3) ..
  also have "\<dots> = seqno_queue m ty @ tl (remdups_adj (req_of m ty # requests_of ty [opn] @ requests_of ty ops))"
    unfolding append_assoc [symmetric] m1(5) m1(6) unfolding append_assoc
      tl_remdups_adj_Cons [OF requests_one [of ty opn], of "req_of m ty" "requests_of ty ops"] ..
  finally show ?case using m1(1) m2(1,2) unfolding requests_of_Cons [of ty opn ops] by simp
qed

section \<open>Properties\<close>

text \<open>
  C12. The loop of \<open>ofctrl_seqno_run\<close>, which stops at the first request that the answered barrier does
  not cover, acknowledges exactly the covered requests wherever they stand in the queue, in
  order and each under its own type, and never fails its assertion.
\<close>

theorem ofctrl_seqno_run_exact:
  assumes "seqno_inv m"
  shows "ofctrl_seqno_run m flow_cfg = Some (m\<lparr>
    ofctrl_seqno_updates := filter (\<lambda>u. flow_cfg < su_flow_cfg u) (ofctrl_seqno_updates m),
    ofctrl_seqno_states := map (\<lambda>i. ack_state flow_cfg (ofctrl_seqno_updates m) i (ofctrl_seqno_states m ! i))
      [0..<length (ofctrl_seqno_states m)]\<rparr>)"
  using ofctrl_seqno_run_ref [OF assms] by (simp add: seqno_run_ref_def)

definition two_requests :: seqno_mgr where
  "two_requests = the (do { m \<leftarrow> ofctrl_seqno_update_create (seqno_initial 2) 0 5; ofctrl_seqno_update_create m 1 7 })"

lemma two_requests_eq:
  "two_requests = \<lparr>ofctrl_seqno_updates = [\<lparr>su_seqno_type = 0, su_flow_cfg = 1, su_req_cfg = 5\<rparr>,
       \<lparr>su_seqno_type = 1, su_flow_cfg = 2, su_req_cfg = 7\<rparr>], ofctrl_req_seqno = 2,
     ofctrl_seqno_states = [\<lparr>ss_acked_cfgs = [], ss_cur_cfg = 0, ss_req_cfg = 5\<rparr>, \<lparr>ss_acked_cfgs = [], ss_cur_cfg = 0, ss_req_cfg = 7\<rparr>]\<rparr>"
proof -
  have "replicate 2 x = [x, x]" for x :: ofctrl_seqno_state by (simp add: numeral_2_eq_2)
  then show ?thesis
    by (simp add: two_requests_def ofctrl_seqno_update_create_def ofctrl_seqno_update_create1_def seqno_initial_def)
qed

theorem ofctrl_seqno_run_exact_witness:
  "\<exists>m. ofctrl_seqno_run two_requests 1 = Some m \<and> map su_req_cfg (ofctrl_seqno_updates m) = [7] \<and>
     map ss_cur_cfg (ofctrl_seqno_states m) = [5, 0]"
proof -
  have "seqno_inv two_requests" by (simp add: seqno_inv_def two_requests_eq)
  from ofctrl_seqno_run_exact [OF this, of 1] show ?thesis
    by (simp add: two_requests_eq ack_state_def acks_of_def upt_rec)
qed

text \<open>
  C13. However requests, barrier replies and reads are interleaved, each type of sequence number is a
  lossless first-in-first-out queue: the numbers delivered to the application, those acknowledged
  but not yet read and those in flight are together the numbers requested, in order, where only
  a repetition of the last request (initially 0) is left out.
\<close>

theorem seqno_lossless_queue:
  assumes "ty < n" "list_all (op_type_ok n) ops" "length ops < 2 ^ 64"
  shows "\<exists>delivered m. seqno_trace ty (seqno_initial n) ops = Some (delivered, m) \<and>
    delivered @ seqno_acked m ty @ seqno_pending m ty = tl (remdups_adj (0 # requests_of ty ops))"
proof -
  have "length (ofctrl_seqno_states (seqno_initial n)) = n" "ofctrl_req_seqno (seqno_initial n) = 0"
    "seqno_queue (seqno_initial n) ty = []" "req_of (seqno_initial n) ty = 0"
    using assms(1) by (simp_all add: seqno_initial_def seqno_queue_def seqno_acked_def seqno_pending_def req_of_def)
  then show ?thesis
    using seqno_trace_queue [OF seqno_inv_initial, of ops n ty] assms by (auto simp: list_all_iff seqno_queue_def)
qed

theorem seqno_lossless_queue_witness:
  "\<exists>delivered m. seqno_trace 0 (seqno_initial 2) [Seqno_Create 0 5, Seqno_Create 1 9, Seqno_Create 0 6, Seqno_Run 2, Seqno_Get 0]
      = Some (delivered, m) \<and> delivered @ seqno_acked m 0 @ seqno_pending m 0 = [5, 6]"
proof -
  have "requests_of 0 [Seqno_Create 0 5, Seqno_Create 1 9, Seqno_Create 0 6, Seqno_Run 2, Seqno_Get 0] = [5, 6]" by code_simp
  then show ?thesis
    using seqno_lossless_queue [of 0 2 "[Seqno_Create 0 5, Seqno_Create 1 9, Seqno_Create 0 6, Seqno_Run 2, Seqno_Get 0]"]
    by simp
qed

text \<open>
  A flush drops the requests in flight but remembers the number last requested: the same number asked
  for again after the connection is back is taken for pending, although nothing is.
\<close>

lemma request_lost_after_flush:
  assumes "ty < length (ofctrl_seqno_states m)"
  shows "ofctrl_seqno_update_create (ofctrl_seqno_flush m) ty (req_of m ty) = Some (ofctrl_seqno_flush m)"
    and "seqno_pending (ofctrl_seqno_flush m) ty = []" and "seqno_acked (ofctrl_seqno_flush m) ty = []"
  using assms by (simp_all add: ofctrl_seqno_update_create_def ofctrl_seqno_flush_def req_of_def seqno_pending_def seqno_acked_def)

text \<open>Registering a type forgets what the other types requested and got acknowledged.\<close>

lemma add_type_forgets:
  "ty < length (ofctrl_seqno_states m) \<Longrightarrow> req_of (snd (ofctrl_seqno_add_type m)) ty = 0"
  by (simp add: ofctrl_seqno_add_type_def req_of_def nth_append)

end
