(* ===== verification/Lflow_Conj_Ids.thy ===== *)
theory Lflow_Conj_Ids
  imports Ovn_Prelude
begin

text \<open>
  Allocation of conjunction ids to logical flows (\<open>controller/lflow-conj-ids.c\<close>).  The three hash maps of
  \<open>struct conj_ids\<close> are the lists of \<open>conj_ids\<close>: the allocated ids, the range of each pair of logical flow
  and datapath, and the datapaths of each logical flow.  Ids are \<open>uint32_t\<close>: naturals whose increment
  wraps at \<open>2 ^ 32\<close>.  The hash of a flow and a datapath is the parameter \<open>H\<close> (\<open>hash_lflow_dp\<close> with
  Open vSwitch's hash functions, or the first word of the uuid in test mode), of which nothing is assumed.

  The search for a free range is a loop whose end depends on its data, so it is a
  \<open>partial_function\<close>; the lemmas show that it always ends, that the range it returns is free, does not
  contain 0 and does not wrap around, and exactly which free ranges it can overlook.  The
  invariant says that the ranges of different flows are disjoint and that the three maps agree.
\<close>

section \<open>State\<close>

record lflow_conj_node =
  lc_lflow_uuid :: uuid
  lc_dp_uuid :: uuid
  lc_start_conj_id :: nat
  lc_n_conjs :: nat

record conj_ids =
  conj_id_allocations :: "nat list"
  lflow_conj_ids :: "lflow_conj_node list"
  lflow_to_dps :: "(uuid \<times> uuid list) list"

definition lflow_conj_ids_init :: conj_ids where
  "lflow_conj_ids_init = \<lparr>conj_id_allocations = [], lflow_conj_ids = [], lflow_to_dps = []\<rparr>"

definition lflow_conj_ids_clear :: "conj_ids \<Rightarrow> conj_ids" where
  "lflow_conj_ids_clear c = lflow_conj_ids_init"

definition inc32 :: "nat \<Rightarrow> nat" where
  "inc32 n = (n + 1) mod 2 ^ 32"

definition lflow_to_dps_find :: "conj_ids \<Rightarrow> uuid \<Rightarrow> uuid list option" where
  "lflow_to_dps_find c lflow_uuid = map_of (lflow_to_dps c) lflow_uuid"

definition lflow_conj_ids_find1 :: "conj_ids \<Rightarrow> uuid \<Rightarrow> uuid \<Rightarrow> lflow_conj_node option" where
  "lflow_conj_ids_find1 c lflow_uuid dp_uuid =
     List.find (\<lambda>n. lc_lflow_uuid n = lflow_uuid \<and> lc_dp_uuid n = dp_uuid) (lflow_conj_ids c)"

definition lflow_conj_ids_find :: "conj_ids \<Rightarrow> uuid \<Rightarrow> uuid \<Rightarrow> nat" where
  "lflow_conj_ids_find c lflow_uuid dp_uuid =
     (case lflow_conj_ids_find1 c lflow_uuid dp_uuid of None \<Rightarrow> 0 | Some n \<Rightarrow> lc_start_conj_id n)"

section \<open>Inserting and freeing a range\<close>

fun insert_conj_ids :: "nat list \<Rightarrow> nat \<Rightarrow> nat \<Rightarrow> nat list option" where
  "insert_conj_ids as conj_id 0 = Some as"
| "insert_conj_ids as conj_id (Suc k) =
     (if conj_id = 0 then None else insert_conj_ids (conj_id # as) (inc32 conj_id) k)"

definition lflow_conj_ids_insert :: "conj_ids \<Rightarrow> uuid \<Rightarrow> uuid \<Rightarrow> nat \<Rightarrow> nat \<Rightarrow> conj_ids option" where
  "lflow_conj_ids_insert c lflow_uuid dp_uuid start_conj_id n_conjs =
     (if n_conjs = 0 then None
      else do {
        as \<leftarrow> insert_conj_ids (conj_id_allocations c) start_conj_id n_conjs;
        let dps = (case lflow_to_dps_find c lflow_uuid of
            None \<Rightarrow> lflow_to_dps c @ [(lflow_uuid, [])] | Some _ \<Rightarrow> lflow_to_dps c);
        Some \<lparr>conj_id_allocations = as,
          lflow_conj_ids = lflow_conj_ids c @
            [\<lparr>lc_lflow_uuid = lflow_uuid, lc_dp_uuid = dp_uuid, lc_start_conj_id = start_conj_id, lc_n_conjs = n_conjs\<rparr>],
          lflow_to_dps = map (\<lambda>(l, ds). (l, if l = lflow_uuid then ds @ [dp_uuid] else ds)) dps\<rparr> })"

fun free_conj_ids :: "nat list \<Rightarrow> nat \<Rightarrow> nat \<Rightarrow> nat list option" where
  "free_conj_ids as conj_id 0 = Some as"
| "free_conj_ids as conj_id (Suc k) =
     (if conj_id = 0 then None else free_conj_ids (remove1 conj_id as) (inc32 conj_id) k)"

definition lflow_conj_ids_free1 :: "conj_ids \<Rightarrow> lflow_conj_node \<Rightarrow> conj_ids option" where
  "lflow_conj_ids_free1 c n =
     (if lc_n_conjs n = 0 then None
      else do {
        as \<leftarrow> free_conj_ids (conj_id_allocations c) (lc_start_conj_id n) (lc_n_conjs n);
        Some \<lparr>conj_id_allocations = as,
          lflow_conj_ids = filter (\<lambda>m. \<not> (lc_lflow_uuid m = lc_lflow_uuid n \<and> lc_dp_uuid m = lc_dp_uuid n)) (lflow_conj_ids c),
          lflow_to_dps = map (\<lambda>(l, ds). (l, if l = lc_lflow_uuid n then removeAll (lc_dp_uuid n) ds else ds)) (lflow_to_dps c)\<rparr> })"

definition lflow_conj_ids_free_for_lflow_dp :: "conj_ids \<Rightarrow> uuid \<Rightarrow> uuid \<Rightarrow> conj_ids option" where
  "lflow_conj_ids_free_for_lflow_dp c lflow_uuid dp_uuid =
     (case lflow_conj_ids_find1 c lflow_uuid dp_uuid of None \<Rightarrow> Some c | Some n \<Rightarrow> lflow_conj_ids_free1 c n)"

text \<open>The list of a logical flow links its nodes; a node that is gone would be a dangling pointer.\<close>

fun free_dps :: "conj_ids \<Rightarrow> uuid \<Rightarrow> uuid list \<Rightarrow> conj_ids option" where
  "free_dps c lflow_uuid [] = Some c"
| "free_dps c lflow_uuid (d # ds) = (case lflow_conj_ids_find1 c lflow_uuid d of
      None \<Rightarrow> None
    | Some n \<Rightarrow> do { c' \<leftarrow> lflow_conj_ids_free1 c n; free_dps c' lflow_uuid ds })"

definition lflow_conj_ids_free :: "conj_ids \<Rightarrow> uuid \<Rightarrow> conj_ids option" where
  "lflow_conj_ids_free c lflow_uuid =
     (case lflow_to_dps_find c lflow_uuid of
        None \<Rightarrow> Some c
      | Some ds \<Rightarrow> map_option (\<lambda>c'. c'\<lparr>lflow_to_dps := filter (\<lambda>k. fst k \<noteq> lflow_uuid) (lflow_to_dps c')\<rparr>)
          (free_dps c lflow_uuid ds))"

section \<open>Allocation\<close>

text \<open>One pass of the inner loop over a candidate range, \<open>k\<close> ids of it left to look at: the range is
  free, or the whole id space has been searched, or the pass stopped at an id (0 after an overflow).\<close>

datatype scan_result = Scan_Found | Scan_Exhausted | Scan_Busy nat bool

fun conj_scan :: "nat list \<Rightarrow> nat \<Rightarrow> bool \<Rightarrow> nat \<Rightarrow> nat \<Rightarrow> scan_result" where
  "conj_scan as initial_id initial conj_id 0 = Scan_Found"
| "conj_scan as initial_id initial conj_id (Suc k) =
     (if conj_id = 0 then Scan_Busy conj_id initial
      else if \<not> initial \<and> conj_id = initial_id then Scan_Exhausted
      else if conj_id \<in> set as then Scan_Busy conj_id False
      else conj_scan as initial_id False (inc32 conj_id) k)"

partial_function (option) conj_search :: "nat list \<Rightarrow> nat \<Rightarrow> nat \<Rightarrow> bool \<Rightarrow> nat \<Rightarrow> nat option" where
  "conj_search as n_conjs initial_id initial start_conj_id =
     (let start = (if start_conj_id = 0 then inc32 start_conj_id else start_conj_id) in
      case conj_scan as initial_id initial start n_conjs of
        Scan_Found \<Rightarrow> Some start
      | Scan_Exhausted \<Rightarrow> Some 0
      | Scan_Busy conj_id initial' \<Rightarrow> conj_search as n_conjs initial_id initial' (inc32 conj_id))"

declare conj_search.simps [code]

definition first_conj_id :: "(uuid \<Rightarrow> uuid \<Rightarrow> nat) \<Rightarrow> uuid \<Rightarrow> uuid \<Rightarrow> nat" where
  "first_conj_id H lflow_uuid dp_uuid =
     (let h = H lflow_uuid dp_uuid mod 2 ^ 32 in if h = 0 then inc32 h else h)"

definition lflow_conj_ids_alloc :: "(uuid \<Rightarrow> uuid \<Rightarrow> nat) \<Rightarrow> conj_ids \<Rightarrow> uuid \<Rightarrow> uuid \<Rightarrow> nat \<Rightarrow> (nat \<times> conj_ids) option" where
  "lflow_conj_ids_alloc H c lflow_uuid dp_uuid n_conjs =
     (if n_conjs = 0 then Some (0, c)
      else do {
        c1 \<leftarrow> lflow_conj_ids_free_for_lflow_dp c lflow_uuid dp_uuid;
        let initial_id = first_conj_id H lflow_uuid dp_uuid;
        start_conj_id \<leftarrow> conj_search (conj_id_allocations c1) n_conjs initial_id True initial_id;
        if start_conj_id = 0 then Some (0, c1)
        else do {
          c2 \<leftarrow> lflow_conj_ids_insert c1 lflow_uuid dp_uuid start_conj_id n_conjs;
          Some (start_conj_id, c2) } })"

fun range_available :: "nat list \<Rightarrow> nat \<Rightarrow> nat \<Rightarrow> bool" where
  "range_available as conj_id 0 \<longleftrightarrow> True"
| "range_available as conj_id (Suc k) \<longleftrightarrow>
     (if conj_id = 0 then False else if conj_id \<in> set as then False else range_available as (inc32 conj_id) k)"

definition lflow_conj_ids_alloc_specified :: "conj_ids \<Rightarrow> uuid \<Rightarrow> uuid \<Rightarrow> nat \<Rightarrow> nat \<Rightarrow> (bool \<times> conj_ids) option" where
  "lflow_conj_ids_alloc_specified c lflow_uuid dp_uuid start_conj_id n_conjs =
     (if n_conjs = 0 then Some (False, c)
      else do {
        c1 \<leftarrow> lflow_conj_ids_free_for_lflow_dp c lflow_uuid dp_uuid;
        if \<not> range_available (conj_id_allocations c1) start_conj_id n_conjs then Some (False, c1)
        else map_option (Pair True) (lflow_conj_ids_insert c1 lflow_uuid dp_uuid start_conj_id n_conjs) })"

text \<open>The report of \<open>lflow_conj_ids_dump\<close>: a line per range with its conflict mark, the total, and the
  number of allocated ids when it differs from the total.\<close>

definition lflow_conj_ids_dump :: "(uuid \<Rightarrow> uuid \<Rightarrow> nat) \<Rightarrow> conj_ids \<Rightarrow>
    (lflow_conj_node \<times> bool) list \<times> nat \<times> nat option" where
  "lflow_conj_ids_dump H c =
     (let count = sum_list (map lc_n_conjs (lflow_conj_ids c)); allocated = length (conj_id_allocations c) in
      (map (\<lambda>n. (n, lc_start_conj_id n \<noteq> H (lc_lflow_uuid n) (lc_dp_uuid n) mod 2 ^ 32)) (lflow_conj_ids c),
       count, if count \<noteq> allocated then Some allocated else None))"

section \<open>The search ends and is right\<close>

definition free_range :: "nat list \<Rightarrow> nat \<Rightarrow> nat \<Rightarrow> bool" where
  "free_range as s n \<longleftrightarrow> 0 < s \<and> s + n \<le> 2 ^ 32 \<and> {s..<s + n} \<inter> set as = {}"

lemma inc32_lt [simp]: "inc32 n < 4294967296"
  by (simp add: inc32_def)

lemma inc32_simps: "n < 2 ^ 32 \<Longrightarrow> inc32 n = (if n = 2 ^ 32 - 1 then 0 else n + 1)"
  by (auto simp: inc32_def)

lemma free_range_Suc:
  "free_range as s (Suc k) \<longleftrightarrow> 0 < s \<and> s < 2 ^ 32 \<and> s \<notin> set as \<and> (k = 0 \<or> free_range as (s + 1) k)"
proof -
  have "{s..<s + Suc k} = insert s {s + 1..<s + 1 + k}" by auto
  then show ?thesis unfolding free_range_def by (cases "k = 0") auto
qed

lemma range_available_iff:
  assumes "s < 2 ^ 32" "n \<noteq> 0"
  shows "range_available as s n \<longleftrightarrow> free_range as s n"
  using assms
proof (induction n arbitrary: s)
  case (Suc k)
  show ?case
  proof (cases "s = 2 ^ 32 - 1")
    case True
    then have "inc32 s = 0" by (simp add: inc32_def)
    moreover have "\<not> free_range as (s + 1) k \<or> k = 0" using True by (auto simp: free_range_def)
    ultimately show ?thesis using True by (cases k) (auto simp: free_range_Suc)
  next
    case False
    then have "inc32 s = s + 1" using Suc.prems by (simp add: inc32_simps)
    moreover have "k \<noteq> 0 \<Longrightarrow> range_available as (s + 1) k \<longleftrightarrow> free_range as (s + 1) k"
      using Suc.prems False by (intro Suc.IH) auto
    ultimately show ?thesis using Suc.prems by (cases "k = 0") (auto simp: free_range_Suc)
  qed
qed simp

text \<open>Where a pass can stop.\<close>

lemma conj_scan_found:
  assumes "conj_scan as ii b s n = Scan_Found" "s < 2 ^ 32" "n \<noteq> 0"
  shows "free_range as s n"
proof -
  have "conj_scan as ii b s n = Scan_Found \<Longrightarrow> range_available as s n" for b
    by (induction as ii b s n rule: conj_scan.induct) (auto split: if_splits)
  then show ?thesis using assms range_available_iff by blast
qed

lemma conj_scan_stop:
  assumes "s < 2 ^ 32" "s \<noteq> 0" "conj_scan as ii b s n = r" "r \<noteq> Scan_Found" "ii < 2 ^ 32"
  shows "(r = Scan_Exhausted \<and> s \<le> ii \<and> ii < s + n \<and> ii < 2 ^ 32 \<and> (b \<longrightarrow> s < ii)) \<or>
    (\<exists>c. r = Scan_Busy c False \<and> c \<in> set as \<and> s \<le> c \<and> c < s + n \<and> c < 2 ^ 32 \<and> \<not> (s < ii \<and> ii \<le> c) \<and> (s = ii \<longrightarrow> b)) \<or>
    (r = Scan_Busy 0 False \<and> 2 ^ 32 < s + n \<and> \<not> s < ii \<and> (s = ii \<longrightarrow> b))"
  using assms
proof (induction n arbitrary: s b)
  case (Suc k)
  consider "\<not> b \<and> s = ii" | "b \<or> s \<noteq> ii" "s \<in> set as" | "b \<or> s \<noteq> ii" "s \<notin> set as" by blast
  then show ?case
  proof cases
    case 3
    then have r: "conj_scan as ii False (inc32 s) k = r" using Suc.prems by auto
    then have "k \<noteq> 0" using Suc.prems(4) by (cases k) auto
    show ?thesis
    proof (cases "s = 2 ^ 32 - 1")
      case True
      then have "inc32 s = 0" using Suc.prems(1) by (simp add: inc32_def)
      then have "r = Scan_Busy 0 False" using r \<open>k \<noteq> 0\<close> by (cases k) auto
      then show ?thesis using True 3 \<open>k \<noteq> 0\<close> Suc.prems(5) by auto
    next
      case False
      then have "inc32 s = s + 1" using Suc.prems(1) by (simp add: inc32_simps)
      then show ?thesis using Suc.IH [of "s + 1" False] r False Suc.prems 3 by auto
    qed
  qed (use Suc.prems in auto)
qed simp

text \<open>The candidates that come before \<open>s\<close> when counting up from \<open>ii\<close> around the id space, and how far
  \<open>s\<close> still is from \<open>ii\<close>.\<close>

definition passed :: "nat \<Rightarrow> nat \<Rightarrow> nat \<Rightarrow> bool" where
  "passed ii s w \<longleftrightarrow> (if s > ii then ii \<le> w \<and> w < s else ii \<le> w \<or> w < s)"

definition distance :: "nat \<Rightarrow> nat \<Rightarrow> nat" where
  "distance ii s = (if s > ii then ii + 2 ^ 32 - s else ii - s)"

definition search_result :: "nat list \<Rightarrow> nat \<Rightarrow> nat \<Rightarrow> nat \<Rightarrow> bool" where
  "search_result as n ii r \<longleftrightarrow>
     (if r = 0 then \<forall>w. free_range as w n \<longrightarrow> w < ii \<and> ii < w + n else free_range as r n)"

lemma next_candidate: "c < 2 ^ 32 \<Longrightarrow> (if inc32 c = 0 then inc32 (inc32 c) else inc32 c) = (if c = 2 ^ 32 - 1 then 1 else c + 1)"
  by (auto simp: inc32_def)

lemma busy_blocks:
  assumes "c \<in> set as" "s \<le> w" "w \<le> c" "c < s + n"
  shows "\<not> free_range as w n"
proof -
  have "c \<in> {w..<w + n} \<inter> set as" using assms by auto
  then show ?thesis by (auto simp: free_range_def)
qed

lemma conj_search_step:
  assumes "start \<noteq> 0" "conj_scan as ii b start n = Scan_Busy c b'"
  shows "conj_search as n ii b start = conj_search as n ii b' (inc32 c)"
  using assms by (subst conj_search.simps) simp

lemma conj_search_norm: "conj_search as n ii b s = conj_search as n ii b (if s = 0 then inc32 s else s)"
  by (subst (1 2) conj_search.simps) (simp add: inc32_def)

lemma conj_search_ok:
  assumes "0 < n" "0 < ii" "ii < 2 ^ 32" "0 < s" "s < 2 ^ 32" "\<And>w. passed ii s w \<Longrightarrow> \<not> free_range as w n"
  shows "\<exists>r. conj_search as n ii False s = Some r \<and> search_result as n ii r"
  using assms(4-6)
proof (induction "distance ii s" arbitrary: s rule: less_induct)
  case less
  consider "conj_scan as ii False s n = Scan_Found" | "conj_scan as ii False s n = Scan_Exhausted" "s \<le> ii" "ii < s + n"
    | c where "conj_scan as ii False s n = Scan_Busy c False" "c \<in> set as" "s \<le> c" "c < s + n" "c < 2 ^ 32" "\<not> (s < ii \<and> ii \<le> c)" "s \<noteq> ii"
    | "conj_scan as ii False s n = Scan_Busy 0 False" "2 ^ 32 < s + n" "\<not> s < ii" "s \<noteq> ii"
    using conj_scan_stop [OF less.prems(2) _ refl _ assms(3), of as False n] less.prems(1)
    by (cases "conj_scan as ii False s n = Scan_Found") auto
  then show ?case
  proof cases
    case 1
    then have "conj_search as n ii False s = Some s" using less.prems(1) by (subst conj_search.simps) simp
    then show ?thesis using conj_scan_found [OF 1 less.prems(2)] assms(1) less.prems(1) by (simp add: search_result_def)
  next
    case 2
    then have "conj_search as n ii False s = Some 0" using less.prems(1) by (subst conj_search.simps) simp
    moreover have "w < ii \<and> ii < w + n" if "free_range as w n" for w
    proof -
      have "\<not> passed ii s w" using less.prems(3) that by blast
      then show ?thesis using 2 by (auto simp: passed_def)
    qed
    ultimately show ?thesis by (simp add: search_result_def)
  next
    case 3
    let ?s = "if c = 2 ^ 32 - 1 then 1 else c + 1"
    have "conj_search as n ii False s = conj_search as n ii False ?s"
      using conj_search_step [OF _ 3(1)] less.prems(1) conj_search_norm [of as n ii False "inc32 c"] next_candidate [OF 3(5)] by simp
    moreover have "\<not> free_range as w n" if "passed ii ?s w" for w
    proof (cases "passed ii s w \<or> (s \<le> w \<and> w \<le> c)")
      case True
      then show ?thesis using less.prems(3) busy_blocks 3 by blast
    next
      case False
      then have "2 ^ 32 \<le> w \<or> w = 0" using that 3 assms(3) by (auto simp: passed_def split: if_splits)
      then show ?thesis using assms(1) by (auto simp: free_range_def)
    qed
    moreover have "distance ii ?s < distance ii s" using 3 assms(2,3) by (auto simp: distance_def)
    moreover have "0 < ?s" "?s < 2 ^ 32" using 3(5) by auto
    ultimately show ?thesis using less.hyps [of ?s] by simp
  next
    case 4
    have "conj_search as n ii False s = conj_search as n ii False 1"
      using conj_search_step [OF _ 4(1)] less.prems(1) by (simp add: inc32_def)
    moreover have "\<not> free_range as w n" if "passed ii 1 w" for w
    proof (cases "passed ii s w")
      case False
      then have "s \<le> w \<or> w = 0" using that 4 assms(2) by (auto simp: passed_def split: if_splits)
      then show ?thesis using 4(2) by (auto simp: free_range_def)
    qed (use less.prems(3) in auto)
    moreover have "distance ii 1 < distance ii s" using 4 assms(2,3) less.prems(2) by (auto simp: distance_def)
    ultimately show ?thesis using less.hyps [of 1] by simp
  qed
qed

lemma conj_search_initial:
  assumes "0 < n" "0 < ii" "ii < 2 ^ 32"
  shows "\<exists>r. conj_search as n ii True ii = Some r \<and> search_result as n ii r"
proof -
  consider "conj_scan as ii True ii n = Scan_Found"
    | c where "conj_scan as ii True ii n = Scan_Busy c False" "c \<in> set as" "ii \<le> c" "c < ii + n" "c < 2 ^ 32"
    | "conj_scan as ii True ii n = Scan_Busy 0 False" "2 ^ 32 < ii + n"
    using conj_scan_stop [OF assms(3) _ refl _ assms(3), of as True n] assms(2)
    by (cases "conj_scan as ii True ii n = Scan_Found") auto
  then show ?thesis
  proof cases
    case 1
    then have "conj_search as n ii True ii = Some ii" using assms(2) by (subst conj_search.simps) simp
    then show ?thesis using conj_scan_found [OF 1 assms(3)] assms by (simp add: search_result_def)
  next
    case 2
    let ?s = "if c = 2 ^ 32 - 1 then 1 else c + 1"
    have "conj_search as n ii True ii = conj_search as n ii False ?s"
      using conj_search_step [OF _ 2(1)] assms(2) conj_search_norm [of as n ii False "inc32 c"] next_candidate [OF 2(5)] by simp
    moreover have "\<not> free_range as w n" if "passed ii ?s w" for w
    proof (cases "ii \<le> w \<and> w \<le> c")
      case True
      then show ?thesis using busy_blocks 2 by blast
    next
      case False
      then have "2 ^ 32 \<le> w \<or> w = 0" using that 2 assms by (auto simp: passed_def split: if_splits)
      then show ?thesis using assms(1) by (auto simp: free_range_def)
    qed
    moreover have "0 < ?s" "?s < 2 ^ 32" using 2(5) by auto
    ultimately show ?thesis using conj_search_ok [OF assms, of ?s as] by simp
  next
    case 3
    have "conj_search as n ii True ii = conj_search as n ii False 1"
      using conj_search_step [OF _ 3(1)] assms(2) by (simp add: inc32_def)
    moreover have "\<not> free_range as w n" if "passed ii 1 w" for w
      using that 3 assms by (auto simp: passed_def free_range_def split: if_splits)
    ultimately show ?thesis using conj_search_ok [OF assms, of 1 as] by simp
  qed
qed

lemma first_conj_id_bounds: "0 < first_conj_id H l d" "first_conj_id H l d < 2 ^ 32"
  by (auto simp: first_conj_id_def Let_def inc32_def)

section \<open>Invariant\<close>

definition conj_range :: "lflow_conj_node \<Rightarrow> nat set" where
  "conj_range n = {lc_start_conj_id n..<lc_start_conj_id n + lc_n_conjs n}"

definition node_key :: "lflow_conj_node \<Rightarrow> uuid \<times> uuid" where
  "node_key n = (lc_lflow_uuid n, lc_dp_uuid n)"

definition node_ok :: "lflow_conj_node \<Rightarrow> bool" where
  "node_ok n \<longleftrightarrow> 0 < lc_n_conjs n \<and> 0 < lc_start_conj_id n \<and> lc_start_conj_id n + lc_n_conjs n \<le> 2 ^ 32"

text \<open>The ranges do not overlap and make up the allocated ids.\<close>

definition ranges_inv :: "nat list \<Rightarrow> lflow_conj_node list \<Rightarrow> bool" where
  "ranges_inv as ns \<longleftrightarrow> distinct (map node_key ns) \<and> (\<forall>n \<in> set ns. node_ok n) \<and>
     (\<forall>m \<in> set ns. \<forall>n \<in> set ns. m \<noteq> n \<longrightarrow> conj_range m \<inter> conj_range n = {}) \<and>
     distinct as \<and> set as = (\<Union>n \<in> set ns. conj_range n)"

text \<open>The list of each logical flow has its datapaths.\<close>

definition dps_inv :: "lflow_conj_node list \<Rightarrow> (uuid \<times> uuid list) list \<Rightarrow> bool" where
  "dps_inv ns L \<longleftrightarrow> distinct (map fst L) \<and> fst ` node_key ` set ns \<subseteq> fst ` set L \<and>
     (\<forall>(l, ds) \<in> set L. distinct ds \<and> (\<forall>d. d \<in> set ds \<longleftrightarrow> (l, d) \<in> node_key ` set ns))"

lemma dps_invI:
  assumes "distinct (map fst L)" "fst ` node_key ` set ns \<subseteq> fst ` set L"
    "\<And>l ds. (l, ds) \<in> set L \<Longrightarrow> distinct ds \<and> (\<forall>d. d \<in> set ds \<longleftrightarrow> (l, d) \<in> node_key ` set ns)"
  shows "dps_inv ns L"
  unfolding dps_inv_def using assms(1,2) by (auto dest: assms(3))

definition conj_inv :: "conj_ids \<Rightarrow> bool" where
  "conj_inv c \<longleftrightarrow> ranges_inv (conj_id_allocations c) (lflow_conj_ids c) \<and> dps_inv (lflow_conj_ids c) (lflow_to_dps c)"

lemma insert_conj_ids_ok:
  "free_range as s n \<Longrightarrow> insert_conj_ids as s n = Some (rev [s..<s + n] @ as)"
proof (induction n arbitrary: as s)
  case (Suc k)
  then have s: "0 < s" "s < 2 ^ 32" "k = 0 \<or> free_range as (s + 1) k" by (auto simp: free_range_Suc)
  have up: "rev [s..<s + Suc k] = rev [s + 1..<s + 1 + k] @ [s]"
    by (metis Suc_eq_plus1 add_Suc_right add_Suc_shift le_add1 le_imp_less_Suc rev.simps(2) upt_rec)
  show ?case
  proof (cases "k = 0")
    case False
    then have f: "free_range as (s + 1) k" using s by simp
    then have "s + 1 + k \<le> 2 ^ 32" by (simp add: free_range_def)
    then have "inc32 s = s + 1" using False by (simp add: inc32_def)
    moreover have "free_range (s # as) (s + 1) k" using f by (auto simp: free_range_def)
    ultimately show ?thesis using Suc.IH [of "s # as" "s + 1"] s up by simp
  qed (use s in simp)
qed simp

lemma free_conj_ids_ok:
  "0 < s \<Longrightarrow> s + n \<le> 2 ^ 32 \<Longrightarrow> distinct as \<Longrightarrow>
   \<exists>bs. free_conj_ids as s n = Some bs \<and> distinct bs \<and> set bs = set as - {s..<s + n}"
proof (induction n arbitrary: as s)
  case (Suc k)
  show ?case
  proof (cases "k = 0")
    case False
    then have "inc32 s = s + 1" using Suc.prems by (simp add: inc32_def)
    moreover obtain bs where "free_conj_ids (remove1 s as) (s + 1) k = Some bs" "distinct bs"
      "set bs = set (remove1 s as) - {s + 1..<s + 1 + k}"
      using Suc.IH [of "s + 1" "remove1 s as"] Suc.prems by auto
    moreover have "{s..<s + Suc k} = insert s {s + 1..<s + 1 + k}" by auto
    ultimately show ?thesis using Suc.prems by auto
  qed (use Suc.prems in auto)
qed simp

lemma key_unique: "distinct (map node_key ns) \<Longrightarrow> m \<in> set ns \<Longrightarrow> n \<in> set ns \<Longrightarrow> node_key m = node_key n \<Longrightarrow> m = n"
  by (auto simp: distinct_map inj_on_def)

lemma find_node_None: "lflow_conj_ids_find1 c l d = None \<longleftrightarrow> (l, d) \<notin> node_key ` set (lflow_conj_ids c)"
  by (auto simp: lflow_conj_ids_find1_def find_None_iff node_key_def)

lemma find_node:
  assumes "distinct (map node_key (lflow_conj_ids c))"
  shows "lflow_conj_ids_find1 c l d = Some n \<longleftrightarrow> n \<in> set (lflow_conj_ids c) \<and> node_key n = (l, d)"
proof (cases "lflow_conj_ids_find1 c l d")
  case None
  then show ?thesis using find_node_None [of c l d] by (auto simp: image_iff)
next
  case (Some m)
  then have "m \<in> set (lflow_conj_ids c)" "node_key m = (l, d)"
    by (auto simp: lflow_conj_ids_find1_def find_Some_iff node_key_def)
  then show ?thesis using Some key_unique [OF assms] by (metis option.inject)
qed

definition without :: "uuid \<times> uuid \<Rightarrow> lflow_conj_node list \<Rightarrow> lflow_conj_node list" where
  "without k ns = filter (\<lambda>m. node_key m \<noteq> k) ns"

lemma dps_inv_member:
  "dps_inv ns L \<Longrightarrow> (l, ds) \<in> set L \<Longrightarrow> distinct ds \<and> (\<forall>d. d \<in> set ds \<longleftrightarrow> (l, d) \<in> node_key ` set ns)"
  by (auto simp: dps_inv_def)

lemma dps_inv_remove:
  assumes D: "dps_inv ns L" and keys: "node_key ` set ms = node_key ` set ns - {(l0, d0)}"
  shows "dps_inv ms (map (\<lambda>(l, ds). (l, if l = l0 then removeAll d0 ds else ds)) L)" (is "dps_inv ms ?M")
proof (rule dps_invI)
  have fsts: "map fst ?M = map fst L" by auto
  show "distinct (map fst ?M)" unfolding fsts using D by (simp add: dps_inv_def)
  have "fst ` set ?M = fst ` set L" using arg_cong [OF fsts, of set] by (simp only: set_map)
  moreover have "fst ` node_key ` set ms \<subseteq> fst ` node_key ` set ns" unfolding keys by (rule image_mono) (rule Diff_subset)
  moreover have "fst ` node_key ` set ns \<subseteq> fst ` set L" using D by (simp add: dps_inv_def)
  ultimately show "fst ` node_key ` set ms \<subseteq> fst ` set ?M" by (metis subset_trans)
next
  fix l ds assume "(l, ds) \<in> set (map (\<lambda>(l, ds). (l, if l = l0 then removeAll d0 ds else ds)) L)"
  then obtain es where es: "(l, es) \<in> set L" "ds = (if l = l0 then removeAll d0 es else es)" by auto
  note * = dps_inv_member [OF D es(1)]
  show "distinct ds \<and> (\<forall>x. x \<in> set ds \<longleftrightarrow> (l, x) \<in> node_key ` set ms)"
    unfolding keys using * es(2) by (cases "l = l0") (simp_all add: distinct_removeAll)
qed

lemma dps_inv_add:
  assumes D: "dps_inv ns L" and keys: "node_key ` set ms = insert (l0, d0) (node_key ` set ns)" "(l0, d0) \<notin> node_key ` set ns"
  shows "dps_inv ms (map (\<lambda>(l, ds). (l, if l = l0 then ds @ [d0] else ds)) (if l0 \<in> fst ` set L then L else L @ [(l0, [])]))"
    (is "dps_inv ms ?M")
proof (rule dps_invI)
  let ?K = "if l0 \<in> fst ` set L then L else L @ [(l0, [])]"
  have fsts: "map fst ?M = map fst ?K" by auto
  show "distinct (map fst ?M)" unfolding fsts using D by (auto simp: dps_inv_def)
  have "fst ` set ?M = fst ` set ?K" using arg_cong [OF fsts, of set] by (simp only: set_map)
  moreover have "fst ` set ?K = insert l0 (fst ` set L)" by auto
  moreover have "fst ` node_key ` set ms = insert l0 (fst ` node_key ` set ns)" unfolding keys(1) by simp
  moreover have "fst ` node_key ` set ns \<subseteq> fst ` set L" using D by (simp add: dps_inv_def)
  ultimately show "fst ` node_key ` set ms \<subseteq> fst ` set ?M" by (metis insert_mono)
next
  fix l ds assume "(l, ds) \<in> set ?M"
  then obtain es where es: "(l, es) \<in> set L \<or> (l = l0 \<and> es = [] \<and> l0 \<notin> fst ` set L)" "ds = (if l = l0 then es @ [d0] else es)"
    by (auto split: if_splits)
  have "l0 \<in> fst ` set L" if "(l0, x) \<in> node_key ` set ns" for x
  proof -
    have "l0 \<in> fst ` node_key ` set ns" using imageI [OF that, of fst] by simp
    then show ?thesis using D by (auto simp: dps_inv_def)
  qed
  then have "distinct es \<and> (\<forall>x. x \<in> set es \<longleftrightarrow> (l, x) \<in> node_key ` set ns)"
    using es(1) dps_inv_member [OF D, of l es] by auto
  then show "distinct ds \<and> (\<forall>x. x \<in> set ds \<longleftrightarrow> (l, x) \<in> node_key ` set ms)"
    unfolding keys(1) using keys(2) es(2) by (cases "l = l0") auto
qed

lemma free1_ok:
  assumes "conj_inv c" "n \<in> set (lflow_conj_ids c)"
  shows "\<exists>c'. lflow_conj_ids_free1 c n = Some c' \<and> conj_inv c' \<and> lflow_conj_ids c' = without (node_key n) (lflow_conj_ids c) \<and>
    set (conj_id_allocations c') = set (conj_id_allocations c) - conj_range n \<and>
    lflow_to_dps c' = map (\<lambda>(l, ds). (l, if l = lc_lflow_uuid n then removeAll (lc_dp_uuid n) ds else ds)) (lflow_to_dps c)"
proof -
  let ?ns = "lflow_conj_ids c" and ?L = "lflow_to_dps c"
  let ?ms = "without (node_key n) ?ns"
  let ?M = "map (\<lambda>(l, ds). (l, if l = lc_lflow_uuid n then removeAll (lc_dp_uuid n) ds else ds)) ?L"
  have r: "ranges_inv (conj_id_allocations c) ?ns" and d: "dps_inv ?ns ?L" using assms(1) by (simp_all add: conj_inv_def)
  have ok: "node_ok n" using r assms(2) by (simp add: ranges_inv_def)
  obtain bs where bs: "free_conj_ids (conj_id_allocations c) (lc_start_conj_id n) (lc_n_conjs n) = Some bs" "distinct bs"
    "set bs = set (conj_id_allocations c) - conj_range n"
    using free_conj_ids_ok [of "lc_start_conj_id n" "lc_n_conjs n" "conj_id_allocations c"] ok r
    by (auto simp: node_ok_def ranges_inv_def conj_range_def)
  have ms: "set ?ms = set ?ns - {n}"
    using key_unique [of ?ns] r assms(2) by (auto simp: without_def ranges_inv_def)
  have keys: "node_key ` set ?ms = node_key ` set ?ns - {node_key n}" by (auto simp: without_def)
  have "set bs = (\<Union>m \<in> set ?ms. conj_range m)"
  proof -
    have "conj_range m \<inter> conj_range n = {}" if "m \<in> set ?ns - {n}" for m
      using r assms(2) that unfolding ranges_inv_def by blast
    moreover have "set (conj_id_allocations c) = (\<Union>m \<in> set ?ns. conj_range m)" using r by (simp add: ranges_inv_def)
    ultimately show ?thesis unfolding bs(3) ms using assms(2) by blast
  qed
  then have "ranges_inv bs ?ms" using r bs(2) unfolding ranges_inv_def ms
    by (simp add: without_def distinct_map_filter)
  moreover have "dps_inv ?ms ?M" by (rule dps_inv_remove [OF d]) (simp only: keys, simp add: node_key_def)
  moreover have "filter (\<lambda>m. \<not> (lc_lflow_uuid m = lc_lflow_uuid n \<and> lc_dp_uuid m = lc_dp_uuid n)) ?ns = ?ms"
    by (simp add: without_def node_key_def)
  ultimately show ?thesis using bs ok
    by (simp add: lflow_conj_ids_free1_def conj_inv_def node_ok_def)
qed

lemma free_for_ok:
  assumes "conj_inv c"
  shows "\<exists>c'. lflow_conj_ids_free_for_lflow_dp c l d = Some c' \<and> conj_inv c' \<and>
    lflow_conj_ids c' = without (l, d) (lflow_conj_ids c)"
proof (cases "lflow_conj_ids_find1 c l d")
  case None
  then have "without (l, d) (lflow_conj_ids c) = lflow_conj_ids c"
    unfolding find_node_None without_def by (auto simp: filter_id_conv) (metis imageI)
  then show ?thesis using None assms by (simp add: lflow_conj_ids_free_for_lflow_dp_def)
next
  case (Some n)
  have "distinct (map node_key (lflow_conj_ids c))" using assms by (simp add: conj_inv_def ranges_inv_def)
  from find_node [OF this] Some have "n \<in> set (lflow_conj_ids c)" "node_key n = (l, d)" by auto
  then show ?thesis using free1_ok [OF assms, of n] Some by (auto simp: lflow_conj_ids_free_for_lflow_dp_def)
qed

lemma free_dps_ok:
  assumes "conj_inv c" "distinct ds" "\<forall>d \<in> set ds. (l, d) \<in> node_key ` set (lflow_conj_ids c)"
  shows "\<exists>c'. free_dps c l ds = Some c' \<and> conj_inv c' \<and> map fst (lflow_to_dps c') = map fst (lflow_to_dps c) \<and>
    lflow_conj_ids c' = filter (\<lambda>m. node_key m \<notin> Pair l ` set ds) (lflow_conj_ids c)"
  using assms
proof (induction ds arbitrary: c)
  case (Cons d ds)
  then obtain n where n: "n \<in> set (lflow_conj_ids c)" "node_key n = (l, d)" by auto
  have "distinct (map node_key (lflow_conj_ids c))" using Cons.prems by (simp add: conj_inv_def ranges_inv_def)
  then have find: "lflow_conj_ids_find1 c l d = Some n" using n find_node by blast
  obtain c1 where c1: "lflow_conj_ids_free1 c n = Some c1" "conj_inv c1"
    "lflow_conj_ids c1 = without (l, d) (lflow_conj_ids c)"
    "lflow_to_dps c1 = map (\<lambda>(l, ds). (l, if l = lc_lflow_uuid n then removeAll (lc_dp_uuid n) ds else ds)) (lflow_to_dps c)"
    using free1_ok [OF Cons.prems(1) n(1)] n(2) by auto
  have fsts: "map fst (lflow_to_dps c1) = map fst (lflow_to_dps c)" unfolding c1(4) by auto
  have "\<forall>e \<in> set ds. (l, e) \<in> node_key ` set (lflow_conj_ids c1)"
    using Cons.prems c1(3) by (fastforce simp: without_def)
  from Cons.IH [OF c1(2) _ this] Cons.prems(2) obtain c2 where "free_dps c1 l ds = Some c2" "conj_inv c2"
    "map fst (lflow_to_dps c2) = map fst (lflow_to_dps c1)"
    "lflow_conj_ids c2 = filter (\<lambda>m. node_key m \<notin> Pair l ` set ds) (lflow_conj_ids c1)" by auto
  then show ?case using c1(1,3) fsts find by (auto simp: without_def intro!: filter_cong)
qed simp

lemma dps_inv_drop:
  assumes "dps_inv ns L" "l \<notin> fst ` node_key ` set ns"
  shows "dps_inv ns (filter (\<lambda>k. fst k \<noteq> l) L)"
proof (rule dps_invI)
  have "fst ` set (filter (\<lambda>k. fst k \<noteq> l) L) = fst ` set L - {l}" by auto
  then show "fst ` node_key ` set ns \<subseteq> fst ` set (filter (\<lambda>k. fst k \<noteq> l) L)" using assms by (auto simp: dps_inv_def)
  show "distinct (map fst (filter (\<lambda>k. fst k \<noteq> l) L))" using assms by (simp add: dps_inv_def distinct_map_filter)
qed (use dps_inv_member [OF assms(1)] in auto)

lemma free_lflow_ok:
  assumes "conj_inv c"
  shows "\<exists>c'. lflow_conj_ids_free c l = Some c' \<and> conj_inv c' \<and>
    lflow_conj_ids c' = filter (\<lambda>m. lc_lflow_uuid m \<noteq> l) (lflow_conj_ids c)"
proof (cases "map_of (lflow_to_dps c) l")
  case None
  then have "l \<notin> fst ` node_key ` set (lflow_conj_ids c)"
    using assms unfolding conj_inv_def dps_inv_def map_of_eq_None_iff by blast
  then have "filter (\<lambda>m. lc_lflow_uuid m \<noteq> l) (lflow_conj_ids c) = lflow_conj_ids c"
    by (auto simp: filter_id_conv node_key_def image_image)
  then show ?thesis using None assms by (simp add: lflow_conj_ids_free_def lflow_to_dps_find_def)
next
  case (Some ds)
  then have ds: "distinct ds" "\<forall>d. d \<in> set ds \<longleftrightarrow> (l, d) \<in> node_key ` set (lflow_conj_ids c)"
    using assms map_of_SomeD [OF Some] by (auto simp: conj_inv_def dps_inv_def)
  then have "\<forall>d \<in> set ds. (l, d) \<in> node_key ` set (lflow_conj_ids c)" by blast
  from free_dps_ok [OF assms ds(1) this] obtain c1 where c1: "free_dps c l ds = Some c1" "conj_inv c1"
    "map fst (lflow_to_dps c1) = map fst (lflow_to_dps c)"
    "lflow_conj_ids c1 = filter (\<lambda>m. node_key m \<notin> Pair l ` set ds) (lflow_conj_ids c)" by auto
  have "node_key m \<notin> Pair l ` set ds \<longleftrightarrow> lc_lflow_uuid m \<noteq> l" if "m \<in> set (lflow_conj_ids c)" for m
    using ds(2) that by (auto simp: node_key_def)
  then have ns: "lflow_conj_ids c1 = filter (\<lambda>m. lc_lflow_uuid m \<noteq> l) (lflow_conj_ids c)"
    unfolding c1(4) by (intro filter_cong) auto
  have "dps_inv (lflow_conj_ids c1) (filter (\<lambda>k. fst k \<noteq> l) (lflow_to_dps c1))"
    by (rule dps_inv_drop) (use c1(2) ns in \<open>auto simp: conj_inv_def node_key_def\<close>)
  then show ?thesis using c1 ns Some by (simp add: lflow_conj_ids_free_def lflow_to_dps_find_def conj_inv_def)
qed

lemma insert_ok:
  assumes "conj_inv c" "(l, d) \<notin> node_key ` set (lflow_conj_ids c)" "free_range (conj_id_allocations c) s n" "0 < n"
  shows "\<exists>c'. lflow_conj_ids_insert c l d s n = Some c' \<and> conj_inv c' \<and>
    lflow_conj_ids c' = lflow_conj_ids c @ [\<lparr>lc_lflow_uuid = l, lc_dp_uuid = d, lc_start_conj_id = s, lc_n_conjs = n\<rparr>]"
proof -
  define e where "e = \<lparr>lc_lflow_uuid = l, lc_dp_uuid = d, lc_start_conj_id = s, lc_n_conjs = n\<rparr>"
  let ?ns = "lflow_conj_ids c" and ?L = "lflow_to_dps c"
  define K where "K = (if l \<in> fst ` set ?L then ?L else ?L @ [(l, [])])"
  let ?M = "map (\<lambda>(k, ds). (k, if k = l then ds @ [d] else ds)) K"
  have r: "ranges_inv (conj_id_allocations c) ?ns" and D: "dps_inv ?ns ?L" using assms(1) by (simp_all add: conj_inv_def)
  have e: "node_key e = (l, d)" "conj_range e = {s..<s + n}" "node_ok e" "lc_lflow_uuid e = l"
    using assms(3,4) by (simp_all add: e_def node_key_def conj_range_def node_ok_def free_range_def)
  have free: "conj_range e \<inter> set (conj_id_allocations c) = {}" using assms(3) e(2) by (simp add: free_range_def)
  then have apart: "conj_range e \<inter> conj_range m = {}" if "m \<in> set ?ns" for m
    using r that by (auto simp: ranges_inv_def)
  have "ranges_inv (rev [s..<s + n] @ conj_id_allocations c) (?ns @ [e])"
    using r e assms(2) apart free unfolding ranges_inv_def by (auto simp: Int_commute)
  moreover have "dps_inv (?ns @ [e]) ?M" unfolding K_def by (rule dps_inv_add [OF D]) (use e(1) assms(2) in auto)
  moreover have "(case lflow_to_dps_find c l of None \<Rightarrow> ?L @ [(l, [])] | Some _ \<Rightarrow> ?L) = K"
    using map_of_eq_None_iff [of ?L l] by (auto simp: lflow_to_dps_find_def K_def split: option.splits)
  ultimately show ?thesis using insert_conj_ids_ok [OF assms(3)] assms(4)
    by (simp add: lflow_conj_ids_insert_def conj_inv_def e_def)
qed

lemma without_key: "k \<notin> node_key ` set (without k ns)"
  by (auto simp: without_def)

text \<open>The ids held for other flows and datapaths.\<close>

definition other_ids :: "conj_ids \<Rightarrow> uuid \<Rightarrow> uuid \<Rightarrow> nat list" where
  "other_ids c l d = concat (map (\<lambda>m. [lc_start_conj_id m..<lc_start_conj_id m + lc_n_conjs m]) (without (l, d) (lflow_conj_ids c)))"

lemma set_other_ids: "set (other_ids c l d) = (\<Union>m \<in> set (without (l, d) (lflow_conj_ids c)). conj_range m)"
  by (simp add: other_ids_def conj_range_def)

lemma alloc_ok:
  assumes "conj_inv c" "0 < n"
  shows "\<exists>s c'. lflow_conj_ids_alloc H c l d n = Some (s, c') \<and> conj_inv c' \<and>
    lflow_conj_ids c' = without (l, d) (lflow_conj_ids c) @
      (if s = 0 then [] else [\<lparr>lc_lflow_uuid = l, lc_dp_uuid = d, lc_start_conj_id = s, lc_n_conjs = n\<rparr>]) \<and>
    search_result (other_ids c l d)
      n (first_conj_id H l d) s"
proof -
  obtain c1 where c1: "lflow_conj_ids_free_for_lflow_dp c l d = Some c1" "conj_inv c1"
    "lflow_conj_ids c1 = without (l, d) (lflow_conj_ids c)"
    using free_for_ok [OF assms(1)] by blast
  let ?ii = "first_conj_id H l d"
  obtain s where s: "conj_search (conj_id_allocations c1) n ?ii True ?ii = Some s" "search_result (conj_id_allocations c1) n ?ii s"
    using conj_search_initial [OF assms(2) first_conj_id_bounds] by blast
  have "set (conj_id_allocations c1) = set (other_ids c l d)"
    using c1(2,3) by (simp add: conj_inv_def ranges_inv_def set_other_ids)
  then have "free_range (conj_id_allocations c1) = free_range (other_ids c l d)"
    by (intro ext) (simp add: free_range_def)
  then have res: "search_result (other_ids c l d) n ?ii s"
    using s(2) by (auto simp: search_result_def)
  show ?thesis
  proof (cases "s = 0")
    case True
    then show ?thesis using c1 s assms(2) res by (simp add: lflow_conj_ids_alloc_def Let_def)
  next
    case False
    then have f: "free_range (conj_id_allocations c1) s n" using s(2) by (simp add: search_result_def)
    have "(l, d) \<notin> node_key ` set (lflow_conj_ids c1)" unfolding c1(3) by (rule without_key)
    from insert_ok [OF c1(2) this f assms(2)] show ?thesis
      using c1 s(1) assms(2) False res by (auto simp: lflow_conj_ids_alloc_def Let_def)
  qed
qed

lemma alloc_specified_ok:
  assumes "conj_inv c" "0 < n" "s < 2 ^ 32"
  shows "\<exists>b c'. lflow_conj_ids_alloc_specified c l d s n = Some (b, c') \<and> conj_inv c' \<and>
    lflow_conj_ids c' = without (l, d) (lflow_conj_ids c) @
      (if b then [\<lparr>lc_lflow_uuid = l, lc_dp_uuid = d, lc_start_conj_id = s, lc_n_conjs = n\<rparr>] else [])"
proof -
  obtain c1 where c1: "lflow_conj_ids_free_for_lflow_dp c l d = Some c1" "conj_inv c1"
    "lflow_conj_ids c1 = without (l, d) (lflow_conj_ids c)"
    using free_for_ok [OF assms(1)] by blast
  show ?thesis
  proof (cases "free_range (conj_id_allocations c1) s n")
    case True
    have "(l, d) \<notin> node_key ` set (lflow_conj_ids c1)" unfolding c1(3) by (rule without_key)
    from insert_ok [OF c1(2) this True assms(2)] show ?thesis
      using c1 True assms range_available_iff [OF assms(3), of n "conj_id_allocations c1"]
      by (auto simp: lflow_conj_ids_alloc_specified_def)
  next
    case False
    then show ?thesis using c1 assms range_available_iff [OF assms(3), of n "conj_id_allocations c1"]
      by (auto simp: lflow_conj_ids_alloc_specified_def)
  qed
qed

lemma conj_inv_init: "conj_inv lflow_conj_ids_init"
  by (simp add: conj_inv_def lflow_conj_ids_init_def ranges_inv_def dps_inv_def)

lemma sum_ranges:
  assumes "ranges_inv as ns"
  shows "sum_list (map lc_n_conjs ns) = length as"
proof -
  have d: "distinct ns" using assms by (auto simp: ranges_inv_def distinct_map)
  have "length as = card (\<Union>n \<in> set ns. conj_range n)" using assms by (metis ranges_inv_def distinct_card)
  also have "\<dots> = (\<Sum>n \<in> set ns. card (conj_range n))"
    by (rule card_UN_disjoint) (use assms in \<open>auto simp: ranges_inv_def conj_range_def\<close>)
  also have "\<dots> = sum_list (map lc_n_conjs ns)"
    using d by (simp add: conj_range_def sum_list_distinct_conv_sum_set)
  finally show ?thesis by simp
qed

section \<open>Reachable states\<close>

inductive conj_reach :: "(uuid \<Rightarrow> uuid \<Rightarrow> nat) \<Rightarrow> conj_ids \<Rightarrow> bool" for H where
  init: "conj_reach H lflow_conj_ids_init"
| alloc: "conj_reach H c \<Longrightarrow> lflow_conj_ids_alloc H c l d n = Some (s, c') \<Longrightarrow> conj_reach H c'"
| alloc_specified: "conj_reach H c \<Longrightarrow> s < 2 ^ 32 \<Longrightarrow> lflow_conj_ids_alloc_specified c l d s n = Some (b, c') \<Longrightarrow> conj_reach H c'"
| free: "conj_reach H c \<Longrightarrow> lflow_conj_ids_free c l = Some c' \<Longrightarrow> conj_reach H c'"
| clear: "conj_reach H c \<Longrightarrow> conj_reach H (lflow_conj_ids_clear c)"

lemma conj_reach_inv: "conj_reach H c \<Longrightarrow> conj_inv c"
proof (induction rule: conj_reach.induct)
  case (alloc c l d n s c')
  then show ?case using alloc_ok [OF alloc.IH, of n H l d] by (cases "n = 0") (auto simp: lflow_conj_ids_alloc_def)
next
  case (alloc_specified c s l d n b c')
  then show ?case using alloc_specified_ok [OF alloc_specified.IH, of n s l d]
    by (cases "n = 0") (auto simp: lflow_conj_ids_alloc_specified_def)
next
  case (free c l c')
  then show ?case using free_lflow_ok [OF free.IH, of l] by auto
qed (simp_all add: conj_inv_init lflow_conj_ids_clear_def)

section \<open>Properties\<close>

text \<open>
  C7. In every reachable state the ranges of different logical flows and datapaths are disjoint, lie within
  1 to 2^32 - 1 without wrapping around, and the report of the allocator never shows a mismatch.
\<close>

theorem conj_ids_disjoint:
  assumes "conj_reach H c"
  shows "(\<forall>m \<in> set (lflow_conj_ids c). 0 < lc_start_conj_id m \<and> lc_start_conj_id m + lc_n_conjs m \<le> 2 ^ 32 \<and>
      (\<forall>n \<in> set (lflow_conj_ids c). m \<noteq> n \<longrightarrow> conj_range m \<inter> conj_range n = {})) \<and>
    snd (snd (lflow_conj_ids_dump H c)) = None"
proof -
  have inv: "ranges_inv (conj_id_allocations c) (lflow_conj_ids c)" using conj_reach_inv [OF assms] by (simp add: conj_inv_def)
  then show ?thesis using sum_ranges [OF inv]
    by (auto simp: lflow_conj_ids_dump_def Let_def ranges_inv_def node_ok_def)
qed

definition same_hash :: "uuid \<Rightarrow> uuid \<Rightarrow> nat" where
  "same_hash l d = 3"

definition one_flow :: conj_ids where
  "one_flow = \<lparr>conj_id_allocations = [4, 3],
     lflow_conj_ids = [\<lparr>lc_lflow_uuid = 10, lc_dp_uuid = 1, lc_start_conj_id = 3, lc_n_conjs = 2\<rparr>], lflow_to_dps = [(10, [1])]\<rparr>"

lemma first_same_hash: "first_conj_id same_hash l d = 3"
  by (simp add: first_conj_id_def same_hash_def)

lemma one_flow_reach: "conj_reach same_hash one_flow"
proof (rule conj_reach.alloc [OF conj_reach.init])
  have inc: "inc32 3 = 4" by (simp add: inc32_def)
  have "conj_scan [] 3 True 3 2 = Scan_Found" by (simp add: numeral_2_eq_2 inc)
  then have "conj_search [] 2 3 True 3 = Some 3" by (subst conj_search.simps) simp
  moreover have "insert_conj_ids [] 3 2 = Some [4, 3]" by (simp add: numeral_2_eq_2 inc)
  ultimately show "lflow_conj_ids_alloc same_hash lflow_conj_ids_init 10 1 2 = Some (3, one_flow)"
    by (simp add: lflow_conj_ids_alloc_def lflow_conj_ids_free_for_lflow_dp_def lflow_conj_ids_find1_def
        lflow_conj_ids_init_def first_same_hash lflow_conj_ids_insert_def lflow_to_dps_find_def one_flow_def)
qed

theorem conj_ids_disjoint_witness:
  "conj_reach same_hash one_flow \<and> snd (snd (lflow_conj_ids_dump same_hash one_flow)) = None"
  using conj_ids_disjoint [OF one_flow_reach] one_flow_reach by simp

text \<open>
  C6. The search of \<open>lflow_conj_ids_alloc\<close> always ends.  A non-zero result is the start of a range that no other
  flow holds, and it is recorded for the flow and datapath; the result 0 means that every free range of that length
  contains the hash value of the flow, other than as its first id.
\<close>

theorem conj_ids_alloc_correct:
  assumes "conj_reach H c" "0 < n"
  shows "\<exists>s c'. lflow_conj_ids_alloc H c l d n = Some (s, c') \<and> lflow_conj_ids_find c' l d = s \<and>
    (if s \<noteq> 0 then free_range (other_ids c l d) s n
      else \<forall>w. free_range (other_ids c l d) w n \<longrightarrow> w < first_conj_id H l d \<and> first_conj_id H l d < w + n)"
proof -
  obtain s c' where a: "lflow_conj_ids_alloc H c l d n = Some (s, c')" "conj_inv c'"
    "lflow_conj_ids c' = without (l, d) (lflow_conj_ids c) @
      (if s = 0 then [] else [\<lparr>lc_lflow_uuid = l, lc_dp_uuid = d, lc_start_conj_id = s, lc_n_conjs = n\<rparr>])"
    "search_result (other_ids c l d)
      n (first_conj_id H l d) s"
    using alloc_ok [OF conj_reach_inv [OF assms(1)] assms(2)] by blast
  have "lflow_conj_ids_find c' l d = s"
  proof (cases "s = 0")
    case True
    then have "lflow_conj_ids_find1 c' l d = None"
      unfolding find_node_None using a(3) without_key by simp
    then show ?thesis using True by (simp add: lflow_conj_ids_find_def)
  next
    case False
    have "distinct (map node_key (lflow_conj_ids c'))" using a(2) by (simp add: conj_inv_def ranges_inv_def)
    then have "lflow_conj_ids_find1 c' l d = Some \<lparr>lc_lflow_uuid = l, lc_dp_uuid = d, lc_start_conj_id = s, lc_n_conjs = n\<rparr>"
      using find_node a(3) False by (simp add: node_key_def)
    then show ?thesis by (simp add: lflow_conj_ids_find_def)
  qed
  then show ?thesis using a by (auto simp: search_result_def)
qed

theorem conj_ids_alloc_correct_witness:
  "\<exists>s c'. lflow_conj_ids_alloc same_hash one_flow 11 1 2 = Some (s, c') \<and> lflow_conj_ids_find c' 11 1 = s"
  using conj_ids_alloc_correct [OF one_flow_reach, of 2 11 1] by auto

end
