(* ===== verification/Lflow_Cache.thy ===== *)
theory Lflow_Cache
  imports Ovn_Prelude
begin

text \<open>
  The cache of translated logical flows (\<open>controller/lflow-cache.c\<close>) and the memory trimmer it drives
  (\<open>lib/memory-trim.c\<close>).  The record \<open>lflow_cache\<close> has the fields of \<open>struct lflow_cache\<close>, its two hash
  maps as lists of entries; cached expressions and matches are of arbitrary types \<open>'e\<close> and \<open>'m\<close>.
  Counters wrap at their width.  Parameters: \<open>esz\<close>, the size of an entry (\<open>sizeof *lce\<close>); \<open>pick\<close>, which entry
  \<open>hmap_first\<close> returns (some entry of the map: hypothesis \<open>picks\<close>); \<open>now\<close>, the value of \<open>time_msec\<close>.
  A failed assertion is \<open>None\<close>.  Calls with a NULL cache or uuid, which return at once, are left out.

  The lemmas show that the counters are exact and within the configured limits, that no assertion
  fails, and what is evicted when the cache is full.
\<close>

section \<open>Memory trimmer\<close>

record memory_trimmer =
  mt_trim_timeout_ms :: nat
  mt_last_active_ms :: int
  mt_recently_active :: bool

definition memory_trimmer_create :: memory_trimmer where
  "memory_trimmer_create = \<lparr>mt_trim_timeout_ms = 0, mt_last_active_ms = 0, mt_recently_active = False\<rparr>"

definition memory_trimmer_set :: "memory_trimmer \<Rightarrow> nat \<Rightarrow> memory_trimmer" where
  "memory_trimmer_set mt timeout_ms = mt\<lparr>mt_trim_timeout_ms := (if timeout_ms < 1000 then 1000 else timeout_ms)\<rparr>"

definition memory_trimmer_can_run :: "int \<Rightarrow> memory_trimmer \<Rightarrow> bool \<times> memory_trimmer" where
  "memory_trimmer_can_run now mt =
     (if \<not> mt_recently_active mt then (False, mt)
      else if now < mt_last_active_ms mt then (True, mt\<lparr>mt_recently_active := False\<rparr>)
      else if now > int (mt_trim_timeout_ms mt) \<and> now - int (mt_trim_timeout_ms mt) \<ge> mt_last_active_ms mt
        then (True, mt\<lparr>mt_recently_active := False\<rparr>)
      else (False, mt))"

definition memory_trimmer_wait :: "memory_trimmer \<Rightarrow> int option" where
  "memory_trimmer_wait mt =
     (if \<not> mt_recently_active mt then None else Some (mt_last_active_ms mt + int (mt_trim_timeout_ms mt)))"

definition memory_trimmer_record_activity :: "int \<Rightarrow> memory_trimmer \<Rightarrow> memory_trimmer" where
  "memory_trimmer_record_activity now mt = mt\<lparr>mt_last_active_ms := now, mt_recently_active := True\<rparr>"

section \<open>Cache\<close>

datatype ('e, 'm) lflow_cache_value =
    Lcv_Expr 'e
  | Lcv_Matches 'm nat nat

record ('e, 'm) lflow_cache_entry =
  lce_lflow_uuid :: uuid
  lce_size :: nat
  lce_value :: "('e, 'm) lflow_cache_value"

record ('e, 'm) lflow_cache =
  lc_exprs :: "('e, 'm) lflow_cache_entry list"
  lc_matches :: "('e, 'm) lflow_cache_entry list"
  lc_mt :: memory_trimmer
  lc_n_entries :: nat
  lc_high_watermark :: nat
  lc_capacity :: nat
  lc_mem_usage :: nat
  lc_max_mem_usage :: nat
  lc_trim_limit :: nat
  lc_trim_wmark_perc :: nat
  lc_trim_count :: nat
  lc_enabled :: bool

definition lflow_cache_create :: "('e, 'm) lflow_cache" where
  "lflow_cache_create = \<lparr>lc_exprs = [], lc_matches = [], lc_mt = memory_trimmer_create, lc_n_entries = 0,
     lc_high_watermark = 0, lc_capacity = 0, lc_mem_usage = 0, lc_max_mem_usage = 0, lc_trim_limit = 0,
     lc_trim_wmark_perc = 0, lc_trim_count = 0, lc_enabled = False\<rparr>"

definition lflow_cache_trim1 :: "('e, 'm) lflow_cache \<Rightarrow> bool \<Rightarrow> ('e, 'm) lflow_cache option" where
  "lflow_cache_trim1 lc force =
     (let upper_trim_limit = (lc_high_watermark lc * lc_trim_wmark_perc lc mod 2 ^ 32) div 100 in
      if \<not> lc_high_watermark lc \<ge> lc_n_entries lc then None
      else if \<not> force \<and> (lc_high_watermark lc \<le> lc_trim_limit lc \<or> lc_n_entries lc > upper_trim_limit) then Some lc
      else Some (lc\<lparr>lc_high_watermark := lc_n_entries lc, lc_trim_count := (lc_trim_count lc + 1) mod 2 ^ 64\<rparr>))"

definition lflow_cache_delete1 :: "('e, 'm) lflow_cache \<Rightarrow> ('e, 'm) lflow_cache_entry \<Rightarrow> ('e, 'm) lflow_cache option" where
  "lflow_cache_delete1 lc lce =
     (if \<not> lc_n_entries lc > 0 then None
      else
        let lc1 = (case lce_value lce of
              Lcv_Expr _ \<Rightarrow> lc\<lparr>lc_exprs := remove1 lce (lc_exprs lc)\<rparr>
            | Lcv_Matches _ _ _ \<Rightarrow> lc\<lparr>lc_matches := remove1 lce (lc_matches lc)\<rparr>);
            lc2 = lc1\<lparr>lc_n_entries := lc_n_entries lc - 1\<rparr>
        in if \<not> lc_mem_usage lc2 \<ge> lce_size lce then None
           else Some (lc2\<lparr>lc_mem_usage := lc_mem_usage lc2 - lce_size lce\<rparr>))"

fun delete_entries :: "('e, 'm) lflow_cache \<Rightarrow> ('e, 'm) lflow_cache_entry list \<Rightarrow> ('e, 'm) lflow_cache option" where
  "delete_entries lc [] = Some lc"
| "delete_entries lc (e # es) = do { lc' \<leftarrow> lflow_cache_delete1 lc e; delete_entries lc' es }"

definition lflow_cache_flush :: "('e, 'm) lflow_cache \<Rightarrow> ('e, 'm) lflow_cache option" where
  "lflow_cache_flush lc = do {
     lc1 \<leftarrow> delete_entries lc (lc_exprs lc);
     lc2 \<leftarrow> delete_entries lc1 (lc_matches lc1);
     lflow_cache_trim1 lc2 True }"

definition lflow_cache_enable :: "int \<Rightarrow> ('e, 'm) lflow_cache \<Rightarrow> bool \<Rightarrow> nat \<Rightarrow> nat \<Rightarrow> nat \<Rightarrow> nat \<Rightarrow> nat \<Rightarrow>
    ('e, 'm) lflow_cache option" where
  "lflow_cache_enable now lc enabled capacity max_mem_usage_kb lflow_trim_limit trim_wmark_perc trim_timeout_ms =
     (let perc = (if trim_wmark_perc > 100 then 100 else trim_wmark_perc);
          max_mem_usage = max_mem_usage_kb * 1024 mod 2 ^ 64;
          need_flush = (lc_enabled lc \<and> \<not> enabled) \<or> capacity < lc_n_entries lc \<or> max_mem_usage < lc_mem_usage lc;
          need_trim = \<not> need_flush \<and> lc_enabled lc \<and>
            (lc_trim_limit lc \<noteq> lflow_trim_limit \<or> lc_trim_wmark_perc lc \<noteq> perc);
          lc1 = lc\<lparr>lc_enabled := enabled, lc_capacity := capacity, lc_max_mem_usage := max_mem_usage,
            lc_trim_limit := lflow_trim_limit, lc_trim_wmark_perc := perc,
            lc_mt := memory_trimmer_set (lc_mt lc) trim_timeout_ms\<rparr>
      in if need_flush then lflow_cache_flush (lc1\<lparr>lc_mt := memory_trimmer_record_activity now (lc_mt lc1)\<rparr>)
         else if need_trim then lflow_cache_trim1 (lc1\<lparr>lc_mt := memory_trimmer_record_activity now (lc_mt lc1)\<rparr>) False
         else Some lc1)"

definition lflow_cache_is_enabled :: "('e, 'm) lflow_cache \<Rightarrow> bool" where
  "lflow_cache_is_enabled lc \<longleftrightarrow> lc_enabled lc"

text \<open>The values printed by \<open>lflow_cache_get_stats\<close>, in its order, and reported by \<open>lflow_cache_get_memory_usage\<close>.\<close>

definition usage_kb :: "('e, 'm) lflow_cache \<Rightarrow> nat" where
  "usage_kb lc = ((lc_mem_usage lc + 1023) div 1024 * 1024) div 1024"

definition lflow_cache_get_stats :: "('e, 'm) lflow_cache \<Rightarrow> bool \<times> nat \<times> nat \<times> nat \<times> nat \<times> nat \<times> nat" where
  "lflow_cache_get_stats lc =
     (lflow_cache_is_enabled lc, lc_high_watermark lc, lc_n_entries lc, length (lc_exprs lc), length (lc_matches lc),
      lc_trim_count lc, usage_kb lc)"

definition lflow_cache_get_memory_usage :: "('e, 'm) lflow_cache \<Rightarrow> nat \<times> nat \<times> nat" where
  "lflow_cache_get_memory_usage lc = (length (lc_exprs lc), length (lc_matches lc), usage_kb lc)"

text \<open>Eviction only looks at the maps of less important types: for expressions at none, for matches at
  the map of expressions.\<close>

definition lflow_cache_make_room :: "(('e, 'm) lflow_cache_entry list \<Rightarrow> ('e, 'm) lflow_cache_entry) \<Rightarrow>
    ('e, 'm) lflow_cache \<Rightarrow> ('e, 'm) lflow_cache_value \<Rightarrow> (bool \<times> ('e, 'm) lflow_cache) option" where
  "lflow_cache_make_room pick lc v =
     (case v of
        Lcv_Expr _ \<Rightarrow> Some (False, lc)
      | Lcv_Matches _ _ _ \<Rightarrow>
          if length (lc_exprs lc) > 0 then map_option (Pair True) (lflow_cache_delete1 lc (pick (lc_exprs lc)))
          else Some (False, lc))"

definition lflow_cache_add1 :: "int \<Rightarrow> (('e, 'm) lflow_cache_entry list \<Rightarrow> ('e, 'm) lflow_cache_entry) \<Rightarrow> nat \<Rightarrow>
    ('e, 'm) lflow_cache \<Rightarrow> uuid \<Rightarrow> ('e, 'm) lflow_cache_value \<Rightarrow> nat \<Rightarrow> (bool \<times> ('e, 'm) lflow_cache) option" where
  "lflow_cache_add1 now pick esz lc lflow_uuid v value_size =
     (if \<not> lflow_cache_is_enabled lc then Some (False, lc)
      else
        let size = (esz + value_size) mod 2 ^ 64 in
        if (size + lc_mem_usage lc) mod 2 ^ 64 > lc_max_mem_usage lc then Some (False, lc)
        else do {
          (room, lc1) \<leftarrow> (if lc_n_entries lc = lc_capacity lc then lflow_cache_make_room pick lc v else Some (True, lc));
          if \<not> room then Some (False, lc1)
          else
            let n = (lc_n_entries lc1 + 1) mod 2 ^ 32;
                lce = \<lparr>lce_lflow_uuid = lflow_uuid, lce_size = size, lce_value = v\<rparr>;
                lc2 = lc1\<lparr>lc_mt := memory_trimmer_record_activity now (lc_mt lc1),
                  lc_mem_usage := (lc_mem_usage lc1 + size) mod 2 ^ 64, lc_n_entries := n,
                  lc_high_watermark := max (lc_high_watermark lc1) n\<rparr>
            in Some (True, case v of
                Lcv_Expr _ \<Rightarrow> lc2\<lparr>lc_exprs := lce # lc_exprs lc2\<rparr>
              | Lcv_Matches _ _ _ \<Rightarrow> lc2\<lparr>lc_matches := lce # lc_matches lc2\<rparr>) })"

definition lflow_cache_add_expr :: "int \<Rightarrow> (('e, 'm) lflow_cache_entry list \<Rightarrow> ('e, 'm) lflow_cache_entry) \<Rightarrow> nat \<Rightarrow>
    ('e, 'm) lflow_cache \<Rightarrow> uuid \<Rightarrow> 'e \<Rightarrow> nat \<Rightarrow> (bool \<times> ('e, 'm) lflow_cache) option" where
  "lflow_cache_add_expr now pick esz lc lflow_uuid expr expr_sz =
     lflow_cache_add1 now pick esz lc lflow_uuid (Lcv_Expr expr) expr_sz"

definition lflow_cache_add_matches :: "int \<Rightarrow> (('e, 'm) lflow_cache_entry list \<Rightarrow> ('e, 'm) lflow_cache_entry) \<Rightarrow> nat \<Rightarrow>
    ('e, 'm) lflow_cache \<Rightarrow> uuid \<Rightarrow> nat \<Rightarrow> nat \<Rightarrow> 'm \<Rightarrow> nat \<Rightarrow> (bool \<times> ('e, 'm) lflow_cache) option" where
  "lflow_cache_add_matches now pick esz lc lflow_uuid conj_id_ofs n_conjs matches matches_sz =
     lflow_cache_add1 now pick esz lc lflow_uuid (Lcv_Matches matches n_conjs conj_id_ofs) matches_sz"

definition find_entry :: "uuid \<Rightarrow> ('e, 'm) lflow_cache_entry list \<Rightarrow> ('e, 'm) lflow_cache_entry option" where
  "find_entry lflow_uuid es = List.find (\<lambda>e. lce_lflow_uuid e = lflow_uuid) es"

definition lflow_cache_get :: "('e, 'm) lflow_cache \<Rightarrow> uuid \<Rightarrow> ('e, 'm) lflow_cache_entry option" where
  "lflow_cache_get lc lflow_uuid =
     (if \<not> lflow_cache_is_enabled lc then None
      else case find_entry lflow_uuid (lc_exprs lc) of
          Some e \<Rightarrow> Some e
        | None \<Rightarrow> find_entry lflow_uuid (lc_matches lc))"

definition lflow_cache_delete :: "int \<Rightarrow> ('e, 'm) lflow_cache \<Rightarrow> uuid \<Rightarrow> ('e, 'm) lflow_cache option" where
  "lflow_cache_delete now lc lflow_uuid =
     (case lflow_cache_get lc lflow_uuid of
        None \<Rightarrow> Some lc
      | Some lce \<Rightarrow> do {
          lc1 \<leftarrow> lflow_cache_delete1 lc lce;
          lc2 \<leftarrow> lflow_cache_trim1 lc1 False;
          Some (lc2\<lparr>lc_mt := memory_trimmer_record_activity now (lc_mt lc2)\<rparr>) })"

definition lflow_cache_run :: "int \<Rightarrow> ('e, 'm) lflow_cache \<Rightarrow> ('e, 'm) lflow_cache option" where
  "lflow_cache_run now lc =
     (let (run, mt) = memory_trimmer_can_run now (lc_mt lc); lc1 = lc\<lparr>lc_mt := mt\<rparr> in
      if run then lflow_cache_trim1 lc1 True else Some lc1)"

definition lflow_cache_wait :: "('e, 'm) lflow_cache \<Rightarrow> int option" where
  "lflow_cache_wait lc = memory_trimmer_wait (lc_mt lc)"

section \<open>Invariant\<close>

definition is_expr :: "('e, 'm) lflow_cache_entry \<Rightarrow> bool" where
  "is_expr e \<longleftrightarrow> (case lce_value e of Lcv_Expr _ \<Rightarrow> True | Lcv_Matches _ _ _ \<Rightarrow> False)"

definition total_size :: "('e, 'm) lflow_cache \<Rightarrow> nat" where
  "total_size lc = sum_list (map lce_size (lc_exprs lc)) + sum_list (map lce_size (lc_matches lc))"

definition cache_exact :: "('e, 'm) lflow_cache \<Rightarrow> bool" where
  "cache_exact lc \<longleftrightarrow> lc_n_entries lc = length (lc_exprs lc) + length (lc_matches lc) \<and>
     lc_mem_usage lc = total_size lc \<and> lc_n_entries lc \<le> lc_high_watermark lc \<and>
     (\<forall>e \<in> set (lc_exprs lc). is_expr e) \<and> (\<forall>e \<in> set (lc_matches lc). \<not> is_expr e)"

definition cache_inv :: "('e, 'm) lflow_cache \<Rightarrow> bool" where
  "cache_inv lc \<longleftrightarrow> cache_exact lc \<and> lc_n_entries lc \<le> lc_capacity lc \<and> lc_mem_usage lc \<le> lc_max_mem_usage lc \<and>
     lc_capacity lc < 2 ^ 32 \<and> lc_max_mem_usage lc < 2 ^ 64 \<and> (\<not> lc_enabled lc \<longrightarrow> lc_n_entries lc = 0)"

definition picks :: "('a list \<Rightarrow> 'a) \<Rightarrow> bool" where
  "picks pick \<longleftrightarrow> (\<forall>xs. xs \<noteq> [] \<longrightarrow> pick xs \<in> set xs)"

lemma sum_remove1: "x \<in> set xs \<Longrightarrow> sum_list (map f (remove1 x xs)) = sum_list (map f xs) - (f x :: nat)"
  using sum_list_map_remove1 [of x xs f] by simp

lemma size_le: "x \<in> set xs \<Longrightarrow> lce_size x \<le> sum_list (map lce_size xs)"
  by (simp add: member_le_sum_list)

lemma delete1_exact:
  assumes "cache_exact lc" "e \<in> set (lc_exprs lc) \<union> set (lc_matches lc)"
  shows "\<exists>lc'. lflow_cache_delete1 lc e = Some lc' \<and> cache_exact lc' \<and> lc_n_entries lc = Suc (lc_n_entries lc') \<and>
    lc_mem_usage lc' + lce_size e = lc_mem_usage lc \<and>
    lc_exprs lc' = (if is_expr e then remove1 e (lc_exprs lc) else lc_exprs lc) \<and>
    lc_matches lc' = (if is_expr e then lc_matches lc else remove1 e (lc_matches lc)) \<and>
    lc_enabled lc' = lc_enabled lc \<and> lc_capacity lc' = lc_capacity lc \<and> lc_max_mem_usage lc' = lc_max_mem_usage lc \<and>
    lc_high_watermark lc' = lc_high_watermark lc"
proof (cases "is_expr e")
  case True
  then have e: "e \<in> set (lc_exprs lc)" using assms by (auto simp: cache_exact_def)
  obtain x where "lce_value e = Lcv_Expr x" using True by (auto simp: is_expr_def split: lflow_cache_value.splits)
  moreover have "lce_size e \<le> sum_list (map lce_size (lc_exprs lc))" using e size_le by auto
  moreover obtain k where "length (lc_exprs lc) = Suc k" using e by (cases "lc_exprs lc") auto
  ultimately show ?thesis using assms(1) e True
    by (auto simp: lflow_cache_delete1_def cache_exact_def total_size_def sum_remove1 length_remove1 Let_def
        dest: notin_set_remove1 set_remove1_subset [THEN subsetD])
next
  case False
  then have e: "e \<in> set (lc_matches lc)" using assms by (auto simp: cache_exact_def)
  obtain x y z where "lce_value e = Lcv_Matches x y z" using False by (auto simp: is_expr_def split: lflow_cache_value.splits)
  moreover have "lce_size e \<le> sum_list (map lce_size (lc_matches lc))" using e size_le by auto
  moreover obtain k where "length (lc_matches lc) = Suc k" using e by (cases "lc_matches lc") auto
  ultimately show ?thesis using assms(1) e False
    by (auto simp: lflow_cache_delete1_def cache_exact_def total_size_def sum_remove1 length_remove1 Let_def
        dest: notin_set_remove1 set_remove1_subset [THEN subsetD])
qed

lemma trim1_exact:
  assumes "cache_exact lc"
  shows "\<exists>lc'. lflow_cache_trim1 lc force = Some lc' \<and> cache_exact lc' \<and> lc_exprs lc' = lc_exprs lc \<and> lc_matches lc' = lc_matches lc \<and>
    lc_n_entries lc' = lc_n_entries lc \<and> lc_mem_usage lc' = lc_mem_usage lc \<and> lc_enabled lc' = lc_enabled lc \<and>
    lc_capacity lc' = lc_capacity lc \<and> lc_max_mem_usage lc' = lc_max_mem_usage lc \<and> lc_mt lc' = lc_mt lc"
  using assms by (simp add: lflow_cache_trim1_def cache_exact_def total_size_def Let_def)

lemma delete_exprs_exact:
  assumes "cache_exact lc" "lc_exprs lc = es"
  shows "\<exists>lc'. delete_entries lc es = Some lc' \<and> cache_exact lc' \<and> lc_exprs lc' = [] \<and> lc_matches lc' = lc_matches lc \<and>
    lc_enabled lc' = lc_enabled lc \<and> lc_capacity lc' = lc_capacity lc \<and> lc_max_mem_usage lc' = lc_max_mem_usage lc"
  using assms
proof (induction es arbitrary: lc)
  case (Cons e es)
  then have "is_expr e" by (auto simp: cache_exact_def)
  then obtain lc1 where lc1: "lflow_cache_delete1 lc e = Some lc1" "cache_exact lc1" "lc_exprs lc1 = es" "lc_matches lc1 = lc_matches lc"
    "lc_enabled lc1 = lc_enabled lc" "lc_capacity lc1 = lc_capacity lc" "lc_max_mem_usage lc1 = lc_max_mem_usage lc"
    using delete1_exact [OF Cons.prems(1), of e] Cons.prems(2) by auto
  then show ?case using Cons.IH [OF lc1(2,3)] by auto
qed simp

lemma delete_matches_exact:
  assumes "cache_exact lc" "lc_matches lc = es"
  shows "\<exists>lc'. delete_entries lc es = Some lc' \<and> cache_exact lc' \<and> lc_matches lc' = [] \<and> lc_exprs lc' = lc_exprs lc \<and>
    lc_enabled lc' = lc_enabled lc \<and> lc_capacity lc' = lc_capacity lc \<and> lc_max_mem_usage lc' = lc_max_mem_usage lc"
  using assms
proof (induction es arbitrary: lc)
  case (Cons e es)
  then have "\<not> is_expr e" by (auto simp: cache_exact_def)
  then obtain lc1 where lc1: "lflow_cache_delete1 lc e = Some lc1" "cache_exact lc1" "lc_matches lc1 = es" "lc_exprs lc1 = lc_exprs lc"
    "lc_enabled lc1 = lc_enabled lc" "lc_capacity lc1 = lc_capacity lc" "lc_max_mem_usage lc1 = lc_max_mem_usage lc"
    using delete1_exact [OF Cons.prems(1), of e] Cons.prems(2) by auto
  then show ?case using Cons.IH [OF lc1(2,3)] by auto
qed simp

lemma flush_exact:
  assumes "cache_exact lc"
  shows "\<exists>lc'. lflow_cache_flush lc = Some lc' \<and> cache_exact lc' \<and> lc_exprs lc' = [] \<and> lc_matches lc' = [] \<and>
    lc_n_entries lc' = 0 \<and> lc_mem_usage lc' = 0 \<and>
    lc_enabled lc' = lc_enabled lc \<and> lc_capacity lc' = lc_capacity lc \<and> lc_max_mem_usage lc' = lc_max_mem_usage lc"
proof -
  obtain lc1 where lc1: "delete_entries lc (lc_exprs lc) = Some lc1" "cache_exact lc1" "lc_exprs lc1 = []"
    "lc_enabled lc1 = lc_enabled lc" "lc_capacity lc1 = lc_capacity lc" "lc_max_mem_usage lc1 = lc_max_mem_usage lc"
    using delete_exprs_exact [OF assms refl] by auto
  obtain lc2 where lc2: "delete_entries lc1 (lc_matches lc1) = Some lc2" "cache_exact lc2" "lc_exprs lc2 = []" "lc_matches lc2 = []"
    "lc_enabled lc2 = lc_enabled lc" "lc_capacity lc2 = lc_capacity lc" "lc_max_mem_usage lc2 = lc_max_mem_usage lc"
    using delete_matches_exact [OF lc1(2) refl] lc1 by auto
  then have "lc_n_entries lc2 = 0" "lc_mem_usage lc2 = 0" by (auto simp: cache_exact_def total_size_def)
  then show ?thesis using trim1_exact [OF lc2(2), of True] lc1(1) lc2 by (auto simp: lflow_cache_flush_def)
qed

lemma exact_mt: "cache_exact (lc\<lparr>lc_mt := mt\<rparr>) = cache_exact lc"
  by (simp add: cache_exact_def total_size_def)

lemma enable_inv:
  assumes "cache_inv lc" "capacity < 2 ^ 32"
  shows "\<exists>lc'. lflow_cache_enable now lc enabled capacity kb lim perc tmo = Some lc' \<and> cache_inv lc'"
proof -
  let ?max = "kb * 1024 mod 2 ^ 64"
  let ?perc = "if perc > 100 then 100 else perc"
  define lc1 where "lc1 = lc\<lparr>lc_enabled := enabled, lc_capacity := capacity, lc_max_mem_usage := ?max,
            lc_trim_limit := lim, lc_trim_wmark_perc := ?perc, lc_mt := memory_trimmer_set (lc_mt lc) tmo\<rparr>"
  define lc2 where "lc2 = lc1\<lparr>lc_mt := memory_trimmer_record_activity now (lc_mt lc1)\<rparr>"
  have ex: "cache_exact lc1" "cache_exact lc2"
    using assms(1) by (simp_all add: lc1_def lc2_def cache_inv_def cache_exact_def total_size_def)
  define flush where "flush \<longleftrightarrow> (lc_enabled lc \<and> \<not> enabled) \<or> capacity < lc_n_entries lc \<or> ?max < lc_mem_usage lc"
  define trim where "trim \<longleftrightarrow> \<not> flush \<and> lc_enabled lc \<and> (lc_trim_limit lc \<noteq> lim \<or> lc_trim_wmark_perc lc \<noteq> ?perc)"
  have code: "lflow_cache_enable now lc enabled capacity kb lim perc tmo =
      (if flush then lflow_cache_flush lc2 else if trim then lflow_cache_trim1 lc2 False else Some lc1)"
    unfolding lflow_cache_enable_def Let_def flush_def trim_def lc2_def lc1_def ..
  have flds: "lc_capacity lc1 = capacity" "lc_max_mem_usage lc1 = ?max" "lc_enabled lc1 = enabled"
    "lc_n_entries lc1 = lc_n_entries lc" "lc_mem_usage lc1 = lc_mem_usage lc"
    "lc_capacity lc2 = capacity" "lc_max_mem_usage lc2 = ?max" "lc_enabled lc2 = enabled"
    "lc_n_entries lc2 = lc_n_entries lc" "lc_mem_usage lc2 = lc_mem_usage lc"
    by (simp_all add: lc1_def lc2_def)
  have max: "?max < 2 ^ 64" by simp
  consider "flush" | "\<not> flush" "trim" | "\<not> flush" "\<not> trim" by blast
  then show ?thesis
  proof cases
    case 1
    then show ?thesis using flush_exact [OF ex(2)] assms(2) max by (auto simp: code cache_inv_def flds)
  next
    case 2
    then have "\<not> lc_enabled lc \<or> enabled" "lc_n_entries lc \<le> capacity" "lc_mem_usage lc \<le> ?max" by (auto simp: flush_def)
    then show ?thesis using 2 trim1_exact [OF ex(2), of False] assms max by (auto simp: code cache_inv_def flds)
  next
    case 3
    then have "\<not> lc_enabled lc \<or> enabled" "lc_n_entries lc \<le> capacity" "lc_mem_usage lc \<le> ?max" by (auto simp: flush_def)
    then show ?thesis using 3 ex(1) assms max by (auto simp: code cache_inv_def flds)
  qed
qed

lemma delete_inv:
  assumes "cache_inv lc"
  shows "\<exists>lc'. lflow_cache_delete now lc u = Some lc' \<and> cache_inv lc'"
proof (cases "lflow_cache_get lc u")
  case None
  then show ?thesis using assms by (simp add: lflow_cache_delete_def)
next
  case (Some e)
  then have e: "e \<in> set (lc_exprs lc) \<union> set (lc_matches lc)" "lc_enabled lc"
    by (auto simp: lflow_cache_get_def find_entry_def lflow_cache_is_enabled_def find_Some_iff split: if_splits option.splits)
  obtain lc1 where lc1: "lflow_cache_delete1 lc e = Some lc1" "cache_exact lc1" "lc_n_entries lc = Suc (lc_n_entries lc1)"
    "lc_mem_usage lc1 + lce_size e = lc_mem_usage lc" "lc_enabled lc1 = lc_enabled lc" "lc_capacity lc1 = lc_capacity lc"
    "lc_max_mem_usage lc1 = lc_max_mem_usage lc"
    using delete1_exact [OF _ e(1)] assms by (auto simp: cache_inv_def)
  then show ?thesis using trim1_exact [OF lc1(2), of False] Some assms e(2)
    by (auto simp: lflow_cache_delete_def cache_inv_def exact_mt)
qed

lemma run_inv: "cache_inv lc \<Longrightarrow> \<exists>lc'. lflow_cache_run now lc = Some lc' \<and> cache_inv lc'"
proof -
  assume inv: "cache_inv lc"
  obtain b mt where b: "memory_trimmer_can_run now (lc_mt lc) = (b, mt)" by (metis surj_pair)
  have ex: "cache_exact (lc\<lparr>lc_mt := mt\<rparr>)" using inv by (simp add: exact_mt cache_inv_def)
  show ?thesis using trim1_exact [OF ex, of True] inv b ex
    by (cases b) (auto simp: lflow_cache_run_def cache_inv_def)
qed

definition grown :: "int \<Rightarrow> ('e, 'm) lflow_cache \<Rightarrow> uuid \<Rightarrow> ('e, 'm) lflow_cache_value \<Rightarrow> nat \<Rightarrow> ('e, 'm) lflow_cache" where
  "grown now lc u v sz =
     (let lce = \<lparr>lce_lflow_uuid = u, lce_size = sz, lce_value = v\<rparr>;
          lc2 = lc\<lparr>lc_mt := memory_trimmer_record_activity now (lc_mt lc), lc_mem_usage := lc_mem_usage lc + sz,
            lc_n_entries := lc_n_entries lc + 1, lc_high_watermark := max (lc_high_watermark lc) (lc_n_entries lc + 1)\<rparr>
      in case v of
          Lcv_Expr _ \<Rightarrow> lc2\<lparr>lc_exprs := lce # lc_exprs lc2\<rparr>
        | Lcv_Matches _ _ _ \<Rightarrow> lc2\<lparr>lc_matches := lce # lc_matches lc2\<rparr>)"

lemma grown_exact: "cache_exact lc \<Longrightarrow> cache_exact (grown now lc u v sz)"
  by (cases v) (auto simp: grown_def cache_exact_def total_size_def is_expr_def Let_def)

lemma grown_fields [simp]:
  "lc_n_entries (grown now lc u v sz) = lc_n_entries lc + 1"
  "lc_mem_usage (grown now lc u v sz) = lc_mem_usage lc + sz"
  "lc_capacity (grown now lc u v sz) = lc_capacity lc"
  "lc_max_mem_usage (grown now lc u v sz) = lc_max_mem_usage lc"
  "lc_enabled (grown now lc u v sz) = lc_enabled lc"
  by (cases v; simp add: grown_def Let_def)+

text \<open>What \<open>lflow_cache_make_room\<close> may remove: for matches one expression, and nothing else.\<close>

definition evicted :: "('e, 'm) lflow_cache_value \<Rightarrow> ('e, 'm) lflow_cache \<Rightarrow> ('e, 'm) lflow_cache \<Rightarrow> bool" where
  "evicted v lc lc1 \<longleftrightarrow> lc_matches lc1 = lc_matches lc \<and>
     (if lc_n_entries lc = lc_capacity lc
      then \<exists>e \<in> set (lc_exprs lc). lc_exprs lc1 = remove1 e (lc_exprs lc) \<and> (\<exists>m n c. v = Lcv_Matches m n c)
      else lc_exprs lc1 = lc_exprs lc)"

lemma room_ok:
  assumes "cache_inv lc" "picks pick"
  obtains b lc1 where "(if lc_n_entries lc = lc_capacity lc then lflow_cache_make_room pick lc v else Some (True, lc)) = Some (b, lc1)"
    "cache_exact lc1" "b \<longrightarrow> lc_n_entries lc1 < lc_capacity lc" "\<not> b \<longrightarrow> lc1 = lc" "b \<longrightarrow> evicted v lc lc1"
    "lc_mem_usage lc1 \<le> lc_mem_usage lc" "lc_enabled lc1 = lc_enabled lc" "lc_capacity lc1 = lc_capacity lc"
    "lc_max_mem_usage lc1 = lc_max_mem_usage lc"
proof (cases "lc_n_entries lc = lc_capacity lc \<and> (\<exists>m n c. v = Lcv_Matches m n c) \<and> lc_exprs lc \<noteq> []")
  case True
  let ?e = "pick (lc_exprs lc)"
  have e: "?e \<in> set (lc_exprs lc)" using True assms(2) by (auto simp: picks_def)
  then have "is_expr ?e" using assms(1) by (auto simp: cache_inv_def cache_exact_def)
  obtain lc1 where lc1: "lflow_cache_delete1 lc ?e = Some lc1" "cache_exact lc1" "lc_n_entries lc = Suc (lc_n_entries lc1)"
    "lc_mem_usage lc1 + lce_size ?e = lc_mem_usage lc" "lc_exprs lc1 = remove1 ?e (lc_exprs lc)" "lc_matches lc1 = lc_matches lc"
    "lc_enabled lc1 = lc_enabled lc" "lc_capacity lc1 = lc_capacity lc" "lc_max_mem_usage lc1 = lc_max_mem_usage lc"
    using delete1_exact [of lc ?e] e \<open>is_expr ?e\<close> assms(1) by (auto simp: cache_inv_def)
  show ?thesis
    by (rule that [of True lc1]) (use True lc1 e in \<open>auto simp: lflow_cache_make_room_def evicted_def\<close>)
next
  case False
  show ?thesis
  proof (cases "lc_n_entries lc = lc_capacity lc")
    case True
    then show ?thesis using False assms(1)
      by (intro that [of False lc]) (auto simp: lflow_cache_make_room_def cache_inv_def split: lflow_cache_value.splits)
  next
    case False
    then show ?thesis using assms(1) by (intro that [of True lc]) (auto simp: cache_inv_def evicted_def)
  qed
qed

lemma add1_ok:
  assumes inv: "cache_inv lc" and "picks pick" and fits: "esz + vsz + lc_mem_usage lc < 2 ^ 64"
  shows "\<exists>b lc'. lflow_cache_add1 now pick esz lc u v vsz = Some (b, lc') \<and> cache_inv lc' \<and>
    (if b then lc_enabled lc \<and> (\<exists>lc1. evicted v lc lc1 \<and> lc_enabled lc1 \<and> lc' = grown now lc1 u v (esz + vsz)) else lc' = lc)"
proof (cases "lc_enabled lc \<and> esz + vsz + lc_mem_usage lc \<le> lc_max_mem_usage lc")
  case False
  have "lflow_cache_add1 now pick esz lc u v vsz = Some (False, lc)"
    using False fits by (auto simp: lflow_cache_add1_def lflow_cache_is_enabled_def Let_def)
  then show ?thesis using inv by auto
next
  case True
  obtain b lc1 where r: "(if lc_n_entries lc = lc_capacity lc then lflow_cache_make_room pick lc v else Some (True, lc)) = Some (b, lc1)"
    "cache_exact lc1" "b \<longrightarrow> lc_n_entries lc1 < lc_capacity lc" "\<not> b \<longrightarrow> lc1 = lc" "b \<longrightarrow> evicted v lc lc1"
    "lc_mem_usage lc1 \<le> lc_mem_usage lc" "lc_enabled lc1 = lc_enabled lc" "lc_capacity lc1 = lc_capacity lc"
    "lc_max_mem_usage lc1 = lc_max_mem_usage lc"
    by (rule room_ok [OF inv assms(2)])
  show ?thesis
  proof (cases b)
    case False
    then show ?thesis using r True fits inv by (auto simp: lflow_cache_add1_def lflow_cache_is_enabled_def Let_def)
  next
    case b: True
    have cap: "lc_capacity lc < 2 ^ 32" using inv by (simp add: cache_inv_def)
    have n: "(lc_n_entries lc1 + 1) mod 2 ^ 32 = lc_n_entries lc1 + 1" using r(3) [THEN mp, OF b] cap by simp
    have s: "(esz + vsz) mod 2 ^ 64 = esz + vsz" "(esz + vsz + lc_mem_usage lc) mod 2 ^ 64 = esz + vsz + lc_mem_usage lc"
      "(lc_mem_usage lc1 + (esz + vsz)) mod 2 ^ 64 = lc_mem_usage lc1 + (esz + vsz)"
      using fits r(6) by simp_all
    have "lflow_cache_add1 now pick esz lc u v vsz = Some (True, grown now lc1 u v (esz + vsz))"
      using True b r(1) unfolding lflow_cache_add1_def Let_def s(1,2)
      by (cases v) (simp_all add: lflow_cache_is_enabled_def grown_def Let_def n s(3) del: One_nat_def power_numeral)
    moreover have "cache_inv (grown now lc1 u v (esz + vsz))"
      using inv r grown_exact [OF r(2)] r(3) [THEN mp, OF b] True by (simp add: cache_inv_def)
    ultimately show ?thesis using True r(5) [THEN mp, OF b] r(7) b by auto
  qed
qed

section \<open>Reachable caches\<close>

text \<open>The sizes of the cached values are those of objects in memory: with those already in the cache
  they fit in the address space.\<close>

inductive cache_reach :: "nat \<Rightarrow> (('e, 'm) lflow_cache_entry list \<Rightarrow> ('e, 'm) lflow_cache_entry) \<Rightarrow> ('e, 'm) lflow_cache \<Rightarrow> bool"
  for esz pick where
  create: "cache_reach esz pick lflow_cache_create"
| enable: "cache_reach esz pick lc \<Longrightarrow> capacity < 2 ^ 32 \<Longrightarrow>
    lflow_cache_enable now lc enabled capacity kb lim perc tmo = Some lc' \<Longrightarrow> cache_reach esz pick lc'"
| add: "cache_reach esz pick lc \<Longrightarrow> esz + vsz + lc_mem_usage lc < 2 ^ 64 \<Longrightarrow>
    lflow_cache_add1 now pick esz lc u v vsz = Some (b, lc') \<Longrightarrow> cache_reach esz pick lc'"
| delete: "cache_reach esz pick lc \<Longrightarrow> lflow_cache_delete now lc u = Some lc' \<Longrightarrow> cache_reach esz pick lc'"
| flush: "cache_reach esz pick lc \<Longrightarrow> lflow_cache_flush lc = Some lc' \<Longrightarrow> cache_reach esz pick lc'"
| run: "cache_reach esz pick lc \<Longrightarrow> lflow_cache_run now lc = Some lc' \<Longrightarrow> cache_reach esz pick lc'"

lemma create_inv: "cache_inv lflow_cache_create"
  by (simp add: cache_inv_def cache_exact_def lflow_cache_create_def total_size_def)

lemma flush_inv: "cache_inv lc \<Longrightarrow> \<exists>lc'. lflow_cache_flush lc = Some lc' \<and> cache_inv lc' \<and> lc_n_entries lc' = 0"
  using flush_exact [of lc] by (auto simp: cache_inv_def)

lemma cache_reach_inv:
  assumes "cache_reach esz pick lc" "picks pick"
  shows "cache_inv lc"
  using assms(1)
proof (induction rule: cache_reach.induct)
  case (enable lc capacity now enabled kb lim perc tmo lc')
  then show ?case using enable_inv [of lc capacity now enabled kb lim perc tmo] by auto
next
  case (add lc vsz now u v b lc')
  then show ?case using add1_ok [OF add.IH assms(2) add.hyps(2), of now u v] by auto
next
  case (delete lc now u lc')
  then show ?case using delete_inv [of lc now u] by auto
next
  case (flush lc lc')
  then show ?case using flush_inv [of lc] by auto
next
  case (run lc now lc')
  then show ?case using run_inv [of lc now] by auto
qed (rule create_inv)

section \<open>Properties\<close>

definition head :: "'a list \<Rightarrow> 'a" where
  "head xs = hd xs"

lemma picks_head: "picks head"
  by (simp add: picks_def head_def)

definition small_cache :: "(nat, nat) lflow_cache" where
  "small_cache = \<lparr>lc_exprs = [], lc_matches = [], lc_mt = \<lparr>mt_trim_timeout_ms = 1000, mt_last_active_ms = 0, mt_recently_active = False\<rparr>,
     lc_n_entries = 0, lc_high_watermark = 0, lc_capacity = 2, lc_mem_usage = 0, lc_max_mem_usage = 1024, lc_trim_limit = 0,
     lc_trim_wmark_perc = 50, lc_trim_count = 0, lc_enabled = True\<rparr>"

lemma small_cache_reach: "cache_reach 64 head small_cache"
proof (rule cache_reach.enable [OF cache_reach.create])
  show "lflow_cache_enable 7 lflow_cache_create True 2 1 0 50 30 = Some small_cache"
    by (simp add: lflow_cache_enable_def lflow_cache_create_def small_cache_def memory_trimmer_set_def memory_trimmer_create_def)
qed simp

text \<open>
  C14. In every reachable state the entry counter and the memory counter are exact, and neither exceeds the configured
  limit: the cache never holds more entries than its capacity nor more bytes than its memory limit.
\<close>

theorem cache_within_limits:
  assumes "cache_reach esz pick lc" "picks pick"
  shows "lc_n_entries lc = length (lc_exprs lc) + length (lc_matches lc) \<and> lc_n_entries lc \<le> lc_capacity lc \<and>
    lc_mem_usage lc = sum_list (map lce_size (lc_exprs lc @ lc_matches lc)) \<and> lc_mem_usage lc \<le> lc_max_mem_usage lc"
  using cache_reach_inv [OF assms] by (simp add: cache_inv_def cache_exact_def total_size_def)

theorem cache_within_limits_witness:
  "cache_reach 64 head small_cache \<and> lc_mem_usage small_cache \<le> 1024"
  using cache_within_limits [OF small_cache_reach picks_head] small_cache_reach by (simp add: small_cache_def)

text \<open>
  C15. No assertion of the cache can fail: deletion, flush, inactivity run, reconfiguration and insertion all return,
  and a flush leaves the cache empty with no memory accounted.
\<close>

theorem cache_never_asserts:
  assumes "cache_reach esz pick lc" "picks pick" "capacity < 2 ^ 32" "esz + vsz + lc_mem_usage lc < 2 ^ 64"
  shows "lflow_cache_delete now lc u \<noteq> None \<and> lflow_cache_run now lc \<noteq> None \<and>
    lflow_cache_enable now lc enabled capacity kb lim perc tmo \<noteq> None \<and> lflow_cache_add1 now pick esz lc u v vsz \<noteq> None \<and>
    (\<exists>lc'. lflow_cache_flush lc = Some lc' \<and> lc_exprs lc' = [] \<and> lc_matches lc' = [] \<and> lc_mem_usage lc' = 0)"
proof -
  have inv: "cache_inv lc" by (rule cache_reach_inv [OF assms(1,2)])
  then have "cache_exact lc" by (simp add: cache_inv_def)
  show ?thesis using delete_inv [OF inv] run_inv [OF inv] enable_inv [OF inv assms(3)] add1_ok [OF inv assms(2,4)]
      flush_exact [OF \<open>cache_exact lc\<close>] by (metis option.distinct(1))
qed

theorem cache_never_asserts_witness:
  "lflow_cache_add1 5 head 64 small_cache 1 (Lcv_Expr 9) 100 \<noteq> None \<and> lflow_cache_delete 5 small_cache 1 \<noteq> None"
  using cache_never_asserts [OF small_cache_reach picks_head, of 0 100 5 1 True 0 0 0 0 "Lcv_Expr 9"]
  by (simp add: small_cache_def)



end
