(* ===== verification/Ipam.thy ===== *)
theory Ipam
  imports Ovn_Prelude
begin

unbundle bit_operations_syntax

text \<open>
  Address management of \<open>ovn-northd\<close> (\<open>northd/ipam.c\<close>): IPv4 addresses of a subnet in a bitmap, and MAC addresses
  under a common prefix.  Addresses are naturals in host byte order, a \<open>struct eth_addr\<close> is its 48-bit value.
  Parameters, with the code they stand for: the bitmap of Open vSwitch (\<open>lib/bitmap.h\<close>; record \<open>bitmap_ops\<close>,
  contract \<open>bitmap_api\<close>), the parsers \<open>ip_parse_masked\<close>, \<open>ipv6_parse_masked\<close>, \<open>ipv6_parse\<close> and \<open>ovs_scan\<close>,
  \<open>eth_addr_random\<close>, and the tokens of the exclusion list, as the lexer delivers them.

  The lemmas show which addresses are reserved initially, that an address given out was free and lies in the subnet,
  when the pools are exhausted, and that MAC addresses under the prefix are never given out twice while one is left.
\<close>

section \<open>Bitmaps\<close>

record 'b bitmap_ops =
  bitmap_allocate :: "nat \<Rightarrow> 'b"
  bitmap_is_set :: "'b \<Rightarrow> nat \<Rightarrow> bool"
  bitmap_set1 :: "'b \<Rightarrow> nat \<Rightarrow> 'b"
  bitmap_set_multiple :: "'b \<Rightarrow> nat \<Rightarrow> nat \<Rightarrow> bool \<Rightarrow> 'b"
  bitmap_scan :: "'b \<Rightarrow> bool \<Rightarrow> nat \<Rightarrow> nat \<Rightarrow> nat"

locale bitmap_api =
  fixes B :: "'b bitmap_ops"
  assumes allocate: "bitmap_is_set B (bitmap_allocate B n) i \<longleftrightarrow> False"
    and set1: "bitmap_is_set B (bitmap_set1 B b i) k \<longleftrightarrow> k = i \<or> bitmap_is_set B b k"
    and set_multiple: "bitmap_is_set B (bitmap_set_multiple B b s n v) k \<longleftrightarrow>
      (if s \<le> k \<and> k < s + n then v else bitmap_is_set B b k)"
    and scan: "s \<le> e \<Longrightarrow> s \<le> bitmap_scan B b v s e \<and> bitmap_scan B b v s e \<le> e \<and>
      (bitmap_scan B b v s e < e \<longrightarrow> bitmap_is_set B b (bitmap_scan B b v s e) = v) \<and>
      (\<forall>i. s \<le> i \<and> i < bitmap_scan B b v s e \<longrightarrow> bitmap_is_set B b i \<noteq> v)"

text \<open>Bitmaps as lists of the positions that are set.\<close>

fun list_scan :: "nat list \<Rightarrow> bool \<Rightarrow> nat \<Rightarrow> nat \<Rightarrow> nat" where
  "list_scan xs v s 0 = s"
| "list_scan xs v s (Suc k) = (if (s \<in> set xs) = v then s else list_scan xs v (Suc s) k)"

definition list_bitmaps :: "nat list bitmap_ops" where
  "list_bitmaps = \<lparr>bitmap_allocate = (\<lambda>n. []), bitmap_is_set = (\<lambda>xs i. i \<in> set xs), bitmap_set1 = (\<lambda>xs i. i # xs),
     bitmap_set_multiple = (\<lambda>xs s n v. if v then [s..<s + n] @ xs else filter (\<lambda>i. \<not> (s \<le> i \<and> i < s + n)) xs),
     bitmap_scan = (\<lambda>xs v s e. list_scan xs v s (e - s))\<rparr>"

lemma list_scan_ok:
  "s \<le> list_scan xs v s k \<and> list_scan xs v s k \<le> s + k \<and>
   (list_scan xs v s k < s + k \<longrightarrow> (list_scan xs v s k \<in> set xs) = v) \<and>
   (\<forall>i. s \<le> i \<and> i < list_scan xs v s k \<longrightarrow> (i \<in> set xs) \<noteq> v)"
proof (induction k arbitrary: s)
  case (Suc k)
  show ?case using Suc [of "Suc s"] by (auto simp: le_less_Suc_eq Suc_le_eq) (metis le_neq_implies_less)+
qed auto

interpretation lbit: bitmap_api list_bitmaps
proof
  fix s e b v assume "s \<le> (e :: nat)"
  then show "s \<le> bitmap_scan list_bitmaps b v s e \<and> bitmap_scan list_bitmaps b v s e \<le> e \<and>
      (bitmap_scan list_bitmaps b v s e < e \<longrightarrow> bitmap_is_set list_bitmaps b (bitmap_scan list_bitmaps b v s e) = v) \<and>
      (\<forall>i. s \<le> i \<and> i < bitmap_scan list_bitmaps b v s e \<longrightarrow> bitmap_is_set list_bitmaps b i \<noteq> v)"
    using list_scan_ok [of s b v "e - s"] by (simp add: list_bitmaps_def)
qed (auto simp: list_bitmaps_def)

section \<open>IPv4 and IPv6 configuration\<close>

record 'b ipam_info =
  start_ipv4 :: nat
  total_ipv4s :: nat
  allocated_ipv4s :: "'b option"
  ipv6_prefix_set :: bool
  ipv6_prefix :: nat
  mac_only :: bool
  ipam_id :: string

datatype ip_token = Tok_Integer nat | Tok_Ellipsis | Tok_Other

text \<open>The clamped range is set in the bitmap when it is not empty; \<open>start\<close> and \<open>end\<close> are \<open>uint32_t\<close>.\<close>

definition exclude_range :: "'b bitmap_ops \<Rightarrow> 'b ipam_info \<Rightarrow> nat \<Rightarrow> nat \<Rightarrow> 'b \<Rightarrow> 'b" where
  "exclude_range B info s e b =
     (let s1 = max (start_ipv4 info) s; e1 = min (start_ipv4 info + total_ipv4s info) e in
      if e1 > s1 then bitmap_set_multiple B b (s1 - start_ipv4 info) (e1 - s1) True else b)"

fun exclude_loop :: "'b bitmap_ops \<Rightarrow> 'b ipam_info \<Rightarrow> ip_token list \<Rightarrow> 'b \<Rightarrow> 'b" where
  "exclude_loop B info (Tok_Integer s # Tok_Ellipsis # Tok_Integer e # ts) b =
     exclude_loop B info ts (exclude_range B info s ((e + 1) mod 2 ^ 32) b)"
| "exclude_loop B info (Tok_Integer s # Tok_Ellipsis # ts) b = b"
| "exclude_loop B info (Tok_Integer s # ts) b = exclude_loop B info ts (exclude_range B info s ((s + 1) mod 2 ^ 32) b)"
| "exclude_loop B info ts b = b"

text \<open>\<open>ip_is_cidr\<close> and the parser of subnets are parameters of \<open>ip\<close>: the address and the mask, or an error.\<close>

definition init_ipam_ipv4 :: "'b bitmap_ops \<Rightarrow> (string \<Rightarrow> (nat \<times> nat) option) \<Rightarrow> (nat \<Rightarrow> bool) \<Rightarrow>
    string option \<Rightarrow> ip_token list option \<Rightarrow> 'b ipam_info \<Rightarrow> 'b ipam_info" where
  "init_ipam_ipv4 B ip_parse_masked ip_is_cidr subnet_str exclude_ip_list info0 =
     (let info = info0\<lparr>start_ipv4 := 0, total_ipv4s := 0, allocated_ipv4s := None\<rparr> in
      case subnet_str of None \<Rightarrow> info
      | Some str \<Rightarrow>
          (case ip_parse_masked str of
             None \<Rightarrow> info
           | Some (subnet, msk) \<Rightarrow>
               if msk = 2 ^ 32 - 1 \<or> \<not> ip_is_cidr msk then info
               else
                 let info1 = info\<lparr>start_ipv4 := ((subnet AND msk) + 1) mod 2 ^ 32, total_ipv4s := 2 ^ 32 - 1 - msk\<rparr>;
                     b = bitmap_set1 B (bitmap_allocate B (total_ipv4s info1)) 0
                 in info1\<lparr>allocated_ipv4s := Some (case exclude_ip_list of None \<Rightarrow> b | Some ts \<Rightarrow> exclude_loop B info1 ts b)\<rparr>))"

definition init_ipam_ipv6_prefix :: "(string \<Rightarrow> (nat \<times> nat) option) \<Rightarrow> (nat \<Rightarrow> nat) \<Rightarrow> (string \<Rightarrow> nat option) \<Rightarrow>
    string option \<Rightarrow> 'b ipam_info \<Rightarrow> 'b ipam_info" where
  "init_ipam_ipv6_prefix ipv6_parse_masked ipv6_count_cidr_bits ipv6_parse pfx info0 =
     (let info = info0\<lparr>ipv6_prefix_set := False, ipv6_prefix := 0\<rparr> in
      case pfx of None \<Rightarrow> info
      | Some str \<Rightarrow>
          let info1 = (if CHR ''/'' \<in> set str then
                (case ipv6_parse_masked str of
                   None \<Rightarrow> info
                 | Some (addr, msk) \<Rightarrow> info\<lparr>ipv6_prefix := addr, ipv6_prefix_set := ipv6_count_cidr_bits msk = 64\<rparr>)
              else
                (case ipv6_parse str of
                   None \<Rightarrow> info
                 | Some addr \<Rightarrow> info\<lparr>ipv6_prefix := addr, ipv6_prefix_set := True\<rparr>))
          in if ipv6_prefix_set info1
             then info1\<lparr>ipv6_prefix := ipv6_prefix info1 AND (2 ^ 128 - 2 ^ 64)\<rparr> else info1)"

text \<open>The configuration map is its lookup function, \<open>smap_bool\<close> how \<open>smap_get_bool\<close> reads a value, and \<open>lexed\<close>
  the tokens of a string; \<open>mac_only\<close> keeps the value it has when it is not read.\<close>

definition init_ipam_info :: "'b bitmap_ops \<Rightarrow> (string \<Rightarrow> (nat \<times> nat) option) \<Rightarrow> (nat \<Rightarrow> bool) \<Rightarrow>
    (string \<Rightarrow> (nat \<times> nat) option) \<Rightarrow> (nat \<Rightarrow> nat) \<Rightarrow> (string \<Rightarrow> nat option) \<Rightarrow> (string option \<Rightarrow> bool) \<Rightarrow> (string \<Rightarrow> ip_token list) \<Rightarrow>
    'b ipam_info \<Rightarrow> (string \<rightharpoonup> string) \<Rightarrow> string option \<Rightarrow> 'b ipam_info" where
  "init_ipam_info B ip_parse_masked ip_is_cidr ipv6_parse_masked ipv6_count_cidr_bits ipv6_parse smap_bool lexed info config i =
     (let subnet_str = config ''subnet''; pfx = config ''ipv6_prefix''; exclude_ips = config ''exclude_ips'';
          info1 = info\<lparr>ipam_id := (case i of None \<Rightarrow> ''<unknown>'' | Some s \<Rightarrow> s)\<rparr>;
          info2 = init_ipam_ipv4 B ip_parse_masked ip_is_cidr subnet_str (map_option lexed exclude_ips) info1;
          info3 = init_ipam_ipv6_prefix ipv6_parse_masked ipv6_count_cidr_bits ipv6_parse pfx info2
      in if subnet_str = None \<and> pfx = None then info3\<lparr>mac_only := smap_bool (config ''mac_only'')\<rparr> else info3)"

definition ipam_insert_ip :: "'b bitmap_ops \<Rightarrow> 'b ipam_info \<Rightarrow> nat \<Rightarrow> bool \<Rightarrow> bool \<times> 'b ipam_info" where
  "ipam_insert_ip B info ip dyn =
     (case allocated_ipv4s info of
        None \<Rightarrow> (True, info)
      | Some b \<Rightarrow>
          if ip \<ge> start_ipv4 info \<and> ip < start_ipv4 info + total_ipv4s info then
            (if dyn \<and> bitmap_is_set B b (ip - start_ipv4 info) then (False, info)
             else (True, info\<lparr>allocated_ipv4s := Some (bitmap_set1 B b (ip - start_ipv4 info))\<rparr>))
          else (True, info))"

definition ipam_get_unused_ip :: "'b bitmap_ops \<Rightarrow> 'b ipam_info \<Rightarrow> nat" where
  "ipam_get_unused_ip B info =
     (case allocated_ipv4s info of
        None \<Rightarrow> 0
      | Some b \<Rightarrow>
          let new_ip_index = bitmap_scan B b False 0 (total_ipv4s info - 1) in
          if new_ip_index = total_ipv4s info - 1 then 0 else (start_ipv4 info + new_ip_index) mod 2 ^ 32)"

section \<open>MAC addresses\<close>

record macam_state =
  macam :: "nat list"
  mac_prefix :: nat

definition MAC_ADDR_SPACE :: nat where
  "MAC_ADDR_SPACE = 0xffffff"

definition ipam_is_duplicate_mac :: "macam_state \<Rightarrow> nat \<Rightarrow> bool" where
  "ipam_is_duplicate_mac st mac64 \<longleftrightarrow> list_ex (\<lambda>m. m = mac64) (macam st)"

definition ipam_insert_mac :: "macam_state \<Rightarrow> nat option \<Rightarrow> bool \<Rightarrow> macam_state" where
  "ipam_insert_mac st ea check =
     (case ea of
        None \<Rightarrow> st
      | Some mac64 \<Rightarrow>
          if drop_bit 24 (mac64 XOR mac_prefix st) \<noteq> 0 \<or> (check \<and> ipam_is_duplicate_mac st mac64) then st
          else st\<lparr>macam := mac64 # macam st\<rparr>)"

definition tentative_mac :: "macam_state \<Rightarrow> nat \<Rightarrow> nat \<Rightarrow> nat" where
  "tentative_mac st base_addr i = mac_prefix st OR (((base_addr + i) mod 2 ^ 32) mod (MAC_ADDR_SPACE - 1) + 1)"

text \<open>The loop over \<open>i\<close>; \<open>mac64\<close> is the address of the last round.  The result is the final \<open>i\<close> and \<open>mac64\<close>.\<close>

function mac_loop :: "macam_state \<Rightarrow> nat \<Rightarrow> nat \<Rightarrow> nat \<Rightarrow> nat \<times> nat" where
  "mac_loop st base_addr i mac64 =
     (if i < MAC_ADDR_SPACE - 1 then
        let mac = tentative_mac st base_addr i in
        if \<not> ipam_is_duplicate_mac st mac then (i, mac) else mac_loop st base_addr (i + 1) mac
      else (i, mac64))"
  by pat_completeness auto
termination
  by (relation "measure (\<lambda>(st, base_addr, i, mac64). MAC_ADDR_SPACE - 1 - i)") (auto simp: MAC_ADDR_SPACE_def)

declare mac_loop.simps [simp del]

definition ipam_get_unused_mac :: "macam_state \<Rightarrow> nat \<Rightarrow> nat" where
  "ipam_get_unused_mac st ip =
     (let base_addr = ip AND MAC_ADDR_SPACE; (i, mac64) = mac_loop st base_addr 0 0 in
      if i = MAC_ADDR_SPACE then 0 else mac64)"

definition cleanup_macam :: "macam_state \<Rightarrow> macam_state" where
  "cleanup_macam st = st\<lparr>macam := []\<rparr>"

definition get_mac_prefix :: "macam_state \<Rightarrow> nat" where
  "get_mac_prefix st = mac_prefix st"

text \<open>The scanner returns the three bytes of the prefix; a zero prefix is replaced by a random address whose last
  three bytes are cleared.\<close>

definition set_mac_prefix :: "(string \<Rightarrow> (nat \<times> nat \<times> nat) option) \<Rightarrow> nat \<Rightarrow> macam_state \<Rightarrow> string option \<Rightarrow> macam_state" where
  "set_mac_prefix scan eth_addr_random st pfx =
     (let p = (case pfx of None \<Rightarrow> 0
               | Some str \<Rightarrow> (case scan str of None \<Rightarrow> 0
                   | Some (a, b, c) \<Rightarrow> (a mod 256) * 2 ^ 40 + (b mod 256) * 2 ^ 32 + (c mod 256) * 2 ^ 24))
      in st\<lparr>mac_prefix := (if p = 0 then eth_addr_random div 2 ^ 24 * 2 ^ 24 else p)\<rparr>)"

section \<open>IPv4 pools\<close>

definition taken :: "'b bitmap_ops \<Rightarrow> 'b ipam_info \<Rightarrow> nat \<Rightarrow> bool" where
  "taken B info ip \<longleftrightarrow> (case allocated_ipv4s info of None \<Rightarrow> False
     | Some b \<Rightarrow> start_ipv4 info \<le> ip \<and> ip < start_ipv4 info + total_ipv4s info \<and> bitmap_is_set B b (ip - start_ipv4 info))"

definition ipv4_pool :: "'b ipam_info \<Rightarrow> bool" where
  "ipv4_pool info \<longleftrightarrow> allocated_ipv4s info \<noteq> None \<and> 0 < start_ipv4 info \<and> 0 < total_ipv4s info \<and>
     start_ipv4 info + total_ipv4s info \<le> 2 ^ 32"

context bitmap_api
begin

lemma unused_ip_cases:
  assumes "ipv4_pool info"
  shows "if ipam_get_unused_ip B info = 0
    then \<forall>ip. start_ipv4 info \<le> ip \<and> ip + 1 < start_ipv4 info + total_ipv4s info \<longrightarrow> taken B info ip
    else start_ipv4 info \<le> ipam_get_unused_ip B info \<and> ipam_get_unused_ip B info + 1 < start_ipv4 info + total_ipv4s info \<and>
      \<not> taken B info (ipam_get_unused_ip B info)"
proof -
  obtain b where b: "allocated_ipv4s info = Some b" using assms by (auto simp: ipv4_pool_def)
  let ?k = "bitmap_scan B b False 0 (total_ipv4s info - 1)"
  have sc: "?k \<le> total_ipv4s info - 1" "?k < total_ipv4s info - 1 \<Longrightarrow> \<not> bitmap_is_set B b ?k"
    "\<And>i. i < ?k \<Longrightarrow> bitmap_is_set B b i"
    using scan [of 0 "total_ipv4s info - 1" b False] by auto
  show ?thesis
  proof (cases "?k = total_ipv4s info - 1")
    case True
    have "taken B info ip" if "start_ipv4 info \<le> ip" "ip + 1 < start_ipv4 info + total_ipv4s info" for ip
      using that sc(3) [of "ip - start_ipv4 info"] True b by (simp add: taken_def)
    then show ?thesis using True b by (simp add: ipam_get_unused_ip_def)
  next
    case False
    then have k: "?k < total_ipv4s info - 1" using sc(1) by simp
    then have "start_ipv4 info + ?k < 2 ^ 32" using assms unfolding ipv4_pool_def by linarith
    then have ip: "ipam_get_unused_ip B info = start_ipv4 info + ?k" using False b by (simp add: ipam_get_unused_ip_def Let_def)
    moreover have "0 < start_ipv4 info" using assms by (simp add: ipv4_pool_def)
    ultimately show ?thesis using k sc(2) [OF k] b by (simp add: taken_def)
  qed
qed

lemma insert_ip_taken:
  assumes "ipv4_pool info" "ipam_insert_ip B info ip dyn = (r, info')"
  shows "ipv4_pool info'" "start_ipv4 info' = start_ipv4 info" "total_ipv4s info' = total_ipv4s info"
    "taken B info' k \<longleftrightarrow> taken B info k \<or> (k = ip \<and> start_ipv4 info \<le> ip \<and> ip < start_ipv4 info + total_ipv4s info)"
    "r \<longleftrightarrow> \<not> (dyn \<and> taken B info ip)"
proof -
  obtain b where b: "allocated_ipv4s info = Some b" using assms by (auto simp: ipv4_pool_def)
  show "ipv4_pool info'" "start_ipv4 info' = start_ipv4 info" "total_ipv4s info' = total_ipv4s info"
    using assms b by (auto simp: ipam_insert_ip_def ipv4_pool_def split: if_splits)
  show "taken B info' k \<longleftrightarrow> taken B info k \<or> (k = ip \<and> start_ipv4 info \<le> ip \<and> ip < start_ipv4 info + total_ipv4s info)"
    using assms(2) b by (auto simp: ipam_insert_ip_def taken_def set1 split: if_splits)
  show "r \<longleftrightarrow> \<not> (dyn \<and> taken B info ip)"
    using assms(2) b by (auto simp: ipam_insert_ip_def taken_def split: if_splits)
qed

end

text \<open>Repeated allocation, as the callers do it: take an unused address and mark it.\<close>

fun allocate_ips :: "'b bitmap_ops \<Rightarrow> 'b ipam_info \<Rightarrow> nat \<Rightarrow> nat list \<times> 'b ipam_info" where
  "allocate_ips B info 0 = ([], info)"
| "allocate_ips B info (Suc n) =
     (let ip = ipam_get_unused_ip B info in
      if ip = 0 then ([], info)
      else let (ips, info') = allocate_ips B (snd (ipam_insert_ip B info ip True)) n in (ip # ips, info'))"

context bitmap_api
begin

lemma allocate_ips_ok:
  assumes "ipv4_pool info"
  shows "distinct (fst (allocate_ips B info n)) \<and>
    (\<forall>ip \<in> set (fst (allocate_ips B info n)). \<not> taken B info ip \<and> start_ipv4 info \<le> ip \<and> ip + 1 < start_ipv4 info + total_ipv4s info)"
  using assms
proof (induction n arbitrary: info)
  case (Suc n)
  let ?ip = "ipam_get_unused_ip B info"
  show ?case
  proof (cases "?ip = 0")
    case False
    obtain r info1 where i: "ipam_insert_ip B info ?ip True = (r, info1)" by (metis surj_pair)
    note t = insert_ip_taken [OF Suc.prems i]
    obtain ips info' where a: "allocate_ips B info1 n = (ips, info')" by (metis surj_pair)
    note u = unused_ip_cases [OF Suc.prems]
    have IH: "distinct ips" "\<forall>ip \<in> set ips. \<not> taken B info1 ip \<and> start_ipv4 info \<le> ip \<and> ip + 1 < start_ipv4 info + total_ipv4s info"
      using Suc.IH [OF t(1)] a t(2,3) by auto
    have "?ip \<notin> set ips" using IH(2) t(4) [of ?ip] u False by auto
    then show ?thesis using False i a IH u t(4) by auto
  qed simp
qed simp

lemma exclude_range_set:
  assumes "start_ipv4 info \<le> ip" "ip < start_ipv4 info + total_ipv4s info"
  shows "bitmap_is_set B (exclude_range B info s e b) (ip - start_ipv4 info) \<longleftrightarrow>
    bitmap_is_set B b (ip - start_ipv4 info) \<or> (s \<le> ip \<and> ip < e)"
  using assms by (auto simp: exclude_range_def Let_def set_multiple max_def min_def)

end

text \<open>
  What \<open>exclude_ips\<close> means: a list of single addresses and of ranges, both ends included, and how it is written.  A list
  may end in a syntax error, after which nothing is read.
\<close>

datatype exclusion = Excl_Address nat | Excl_Range nat nat

primrec exclusion_set :: "exclusion \<Rightarrow> nat set" where
  "exclusion_set (Excl_Address a) = {a}"
| "exclusion_set (Excl_Range a b) = {a..b}"

primrec exclusion_end :: "exclusion \<Rightarrow> nat" where
  "exclusion_end (Excl_Address a) = a"
| "exclusion_end (Excl_Range a b) = b"

primrec exclusion_tokens :: "exclusion \<Rightarrow> ip_token list" where
  "exclusion_tokens (Excl_Address a) = [Tok_Integer a]"
| "exclusion_tokens (Excl_Range a b) = [Tok_Integer a, Tok_Ellipsis, Tok_Integer b]"

definition syntax_error :: "ip_token list \<Rightarrow> bool" where
  "syntax_error ts \<longleftrightarrow> (\<exists>us. ts = Tok_Other # us) \<or>
     (\<exists>s us. ts = Tok_Integer s # Tok_Ellipsis # us \<and> (\<forall>e vs. us \<noteq> Tok_Integer e # vs))"

context bitmap_api
begin

lemma exclude_loop_stop:
  assumes "ts = [] \<or> syntax_error ts"
  shows "exclude_loop B info ts b = b"
  using assms by (cases "(B, info, ts, b)" rule: exclude_loop.cases) (auto simp: syntax_error_def)

lemma exclude_loop_address:
  assumes "ts = [] \<or> hd ts \<noteq> Tok_Ellipsis"
  shows "exclude_loop B info (Tok_Integer a # ts) b = exclude_loop B info ts (exclude_range B info a ((a + 1) mod 2 ^ 32) b)"
  using assms by (cases "(B, info, Tok_Integer a # ts, b)" rule: exclude_loop.cases) auto

lemma exclude_loop_set:
  assumes "\<forall>x \<in> set xs. exclusion_end x < 2 ^ 32 - 1" "rest = [] \<or> syntax_error rest"
    "start_ipv4 info \<le> ip" "ip < start_ipv4 info + total_ipv4s info"
  shows "bitmap_is_set B (exclude_loop B info (concat (map exclusion_tokens xs) @ rest) b) (ip - start_ipv4 info) \<longleftrightarrow>
    bitmap_is_set B b (ip - start_ipv4 info) \<or> (\<exists>x \<in> set xs. ip \<in> exclusion_set x)"
  using assms(1)
proof (induction xs arbitrary: b)
  case Nil
  then show ?case using exclude_loop_stop [OF assms(2)] by simp
next
  case (Cons x xs)
  let ?ts = "concat (map exclusion_tokens xs) @ rest"
  have wrap: "(exclusion_end x + 1) mod 2 ^ 32 = exclusion_end x + 1" using Cons.prems by simp
  have IH: "bitmap_is_set B (exclude_loop B info ?ts c) (ip - start_ipv4 info) \<longleftrightarrow>
      bitmap_is_set B c (ip - start_ipv4 info) \<or> (\<exists>x \<in> set xs. ip \<in> exclusion_set x)" for c
    using Cons by simp
  show ?case
  proof (cases x)
    case (Excl_Address a)
    have "?ts = [] \<or> hd ?ts \<noteq> Tok_Ellipsis"
    proof (cases xs)
      case Nil
      then show ?thesis using assms(2) by (auto simp: syntax_error_def)
    next
      case (Cons y ys)
      then show ?thesis by (cases y) simp_all
    qed
    then show ?thesis using IH wrap Excl_Address exclude_range_set [OF assms(3,4)] by (auto simp: exclude_loop_address)
  next
    case (Excl_Range a c)
    then show ?thesis using IH wrap exclude_range_set [OF assms(3,4)] by auto
  qed
qed

end

lemma and_le2: "a AND b \<le> b" for a b :: nat
  using AND_upper2 [of "int b" "int a"] by (simp add: and_nat_def nat_le_iff)

definition cidr_masks :: "(nat \<Rightarrow> bool) \<Rightarrow> bool" where
  "cidr_masks ip_is_cidr \<longleftrightarrow> (\<forall>m. ip_is_cidr m \<longrightarrow> (\<exists>k \<le> 32. m = 2 ^ 32 - 2 ^ k))"

context bitmap_api
begin

lemma init_ipv4_ok:
  assumes "ip_parse_masked str = Some (subnet, msk)" "msk \<noteq> 2 ^ 32 - 1" "ip_is_cidr msk" "cidr_masks ip_is_cidr"
    "\<forall>x \<in> set xs. exclusion_end x < 2 ^ 32 - 1" "rest = [] \<or> syntax_error rest"
    "ex = None \<and> xs = [] \<or> ex = Some (concat (map exclusion_tokens xs) @ rest)"
    "info = init_ipam_ipv4 B ip_parse_masked ip_is_cidr (Some str) ex info0"
  shows "ipv4_pool info" "start_ipv4 info = (subnet AND msk) + 1" "total_ipv4s info = 2 ^ 32 - 1 - msk"
    "taken B info ip \<longleftrightarrow> start_ipv4 info \<le> ip \<and> ip < start_ipv4 info + total_ipv4s info \<and>
      (ip = start_ipv4 info \<or> (\<exists>x \<in> set xs. ip \<in> exclusion_set x))"
proof -
  obtain k where k: "k \<le> 32" "msk = 2 ^ 32 - 2 ^ k" using assms(3,4) by (auto simp: cidr_masks_def)
  have "k \<noteq> 0" using k assms(2) by (cases k) auto
  then have two: "2 \<le> (2 :: nat) ^ k" using self_le_power [of 2 k] by simp
  have le: "(2 :: nat) ^ k \<le> 2 ^ 32" by (rule power_increasing) (use k in auto)
  have a: "(subnet AND msk) + 2 ^ k \<le> 2 ^ 32" using and_le2 [of subnet msk] k(2) le by linarith
  then have start: "((subnet AND msk) + 1) mod 2 ^ 32 = (subnet AND msk) + 1" using two by simp
  have tot: "2 ^ 32 - 1 - msk = 2 ^ k - 1" using k(2) le by simp
  define info1 where "info1 = info0\<lparr>allocated_ipv4s := None, start_ipv4 := (subnet AND msk) + 1, total_ipv4s := 2 ^ 32 - 1 - msk\<rparr>"
  define b where "b = bitmap_set1 B (bitmap_allocate B (2 ^ 32 - 1 - msk)) 0"
  define b' where "b' = (case ex of None \<Rightarrow> b | Some ts \<Rightarrow> exclude_loop B info1 ts b)"
  have info: "info = info1\<lparr>allocated_ipv4s := Some b'\<rparr>"
    using assms start by (auto simp: info1_def b_def b'_def init_ipam_ipv4_def Let_def split: option.splits)
  show "start_ipv4 info = (subnet AND msk) + 1" "total_ipv4s info = 2 ^ 32 - 1 - msk"
    by (simp_all add: info info1_def)
  show pool: "ipv4_pool info" unfolding ipv4_pool_def info info1_def using a two unfolding tot by simp
  have same: "start_ipv4 info = start_ipv4 info1" "total_ipv4s info = total_ipv4s info1" by (simp_all add: info)
  have "bitmap_is_set B b' (ip - start_ipv4 info) \<longleftrightarrow> ip = start_ipv4 info \<or> (\<exists>x \<in> set xs. ip \<in> exclusion_set x)"
    if r: "start_ipv4 info \<le> ip" "ip < start_ipv4 info + total_ipv4s info"
  proof -
    have b: "bitmap_is_set B b (ip - start_ipv4 info) \<longleftrightarrow> ip = start_ipv4 info" using r by (auto simp: b_def set1 allocate)
    show ?thesis
    proof (cases ex)
      case (Some ts)
      then show ?thesis using exclude_loop_set [OF assms(5,6), of info1 ip b] assms(7) r b by (simp add: b'_def same)
    qed (use b assms(7) in \<open>simp add: b'_def\<close>)
  qed
  then show "taken B info ip \<longleftrightarrow> start_ipv4 info \<le> ip \<and> ip < start_ipv4 info + total_ipv4s info \<and>
      (ip = start_ipv4 info \<or> (\<exists>x \<in> set xs. ip \<in> exclusion_set x))"
    by (auto simp: taken_def info)
qed

end

section \<open>MAC pool\<close>

definition mac_pool :: "macam_state \<Rightarrow> bool" where
  "mac_pool st \<longleftrightarrow> take_bit 24 (mac_prefix st) = 0"

lemma take_or_prefix: "mac_pool st \<Longrightarrow> s < 2 ^ 24 \<Longrightarrow> take_bit 24 (mac_prefix st OR s) = s"
  by (simp add: mac_pool_def take_bit_nat_eq_self)

lemma drop_or_prefix: "s < 2 ^ 24 \<Longrightarrow> drop_bit 24 (mac_prefix st OR s) = drop_bit 24 (mac_prefix st)"
  by (simp add: drop_bit_eq_div [of 24 s])

lemma residue_reached:
  assumes "0 < M" "r < (M :: nat)"
  shows "\<exists>j < M. (base + j) mod M = r"
proof -
  let ?j = "(r + (M - base mod M)) mod M"
  have "(base + ?j) mod M = (base mod M + (r + (M - base mod M))) mod M" by (simp add: mod_simps)
  also have "base mod M + (r + (M - base mod M)) = r + M" using mod_less_divisor [OF assms(1), of base] by linarith
  finally have "(base + ?j) mod M = r" using assms(2) by simp
  then show ?thesis using assms(1) by (intro exI [of _ ?j]) simp
qed

lemma mac_loop_free:
  assumes "i \<le> j" "j < MAC_ADDR_SPACE - 1" "\<not> ipam_is_duplicate_mac st (tentative_mac st base j)"
  shows "\<exists>k < MAC_ADDR_SPACE - 1. mac_loop st base i m = (k, tentative_mac st base k) \<and>
    \<not> ipam_is_duplicate_mac st (tentative_mac st base k)"
  using assms
proof (induction st base i m rule: mac_loop.induct)
  case (1 st base i m)
  show ?case
  proof (cases "ipam_is_duplicate_mac st (tentative_mac st base i)")
    case True
    then have "i + 1 \<le> j" using "1.prems" by (cases "i = j") auto
    then show ?thesis using "1.IH" [OF _ refl _ _ "1.prems"(2,3)] True "1.prems" by (subst mac_loop.simps) simp
  qed (use "1.prems" in \<open>subst mac_loop.simps, simp\<close>)
qed

lemma mac_loop_full:
  assumes "i < MAC_ADDR_SPACE - 1" "\<And>j. j < MAC_ADDR_SPACE - 1 \<Longrightarrow> ipam_is_duplicate_mac st (tentative_mac st base j)"
  shows "mac_loop st base i m = (MAC_ADDR_SPACE - 1, tentative_mac st base (MAC_ADDR_SPACE - 2))"
  using assms
proof (induction st base i m rule: mac_loop.induct)
  case (1 st base i m)
  show ?case
  proof (cases "i + 1 < MAC_ADDR_SPACE - 1")
    case True
    then show ?thesis using "1.IH" [OF _ refl] "1.prems" by (subst mac_loop.simps) simp
  next
    case False
    then have i: "i = MAC_ADDR_SPACE - 2" "i + 1 = MAC_ADDR_SPACE - 1" using "1.prems"(1) by (auto simp: MAC_ADDR_SPACE_def)
    have "mac_loop st base (i + 1) x = (i + 1, x)" for x using i(2) by (subst mac_loop.simps) simp
    then show ?thesis using "1.prems" i by (subst mac_loop.simps) simp
  qed
qed

definition mac_suffix :: "nat \<Rightarrow> nat \<Rightarrow> nat" where
  "mac_suffix base i = ((base + i) mod 2 ^ 32) mod (MAC_ADDR_SPACE - 1) + 1"

lemma tentative_suffix: "tentative_mac st base i = mac_prefix st OR mac_suffix base i"
  by (simp add: tentative_mac_def mac_suffix_def)

lemma mac_suffix_bounds: "1 \<le> mac_suffix base i" "mac_suffix base i \<le> 0xfffffe"
proof -
  have "((base + i) mod 2 ^ 32) mod (MAC_ADDR_SPACE - 1) < MAC_ADDR_SPACE - 1" by (rule mod_less_divisor) (simp add: MAC_ADDR_SPACE_def)
  then show "mac_suffix base i \<le> 0xfffffe" by (simp add: mac_suffix_def MAC_ADDR_SPACE_def)
qed (simp add: mac_suffix_def)

lemma base_bound: "ip AND MAC_ADDR_SPACE \<le> MAC_ADDR_SPACE"
  by (rule and_le2)

lemma suffix_reached:
  assumes "base \<le> MAC_ADDR_SPACE" "1 \<le> s" "s \<le> 0xfffffe"
  shows "\<exists>j < MAC_ADDR_SPACE - 1. mac_suffix base j = s"
proof -
  obtain j where j: "j < MAC_ADDR_SPACE - 1" "(base + j) mod (MAC_ADDR_SPACE - 1) = s - 1"
  proof -
    have "s - 1 < MAC_ADDR_SPACE - 1" "0 < MAC_ADDR_SPACE - 1" using assms(2,3) by (auto simp: MAC_ADDR_SPACE_def)
    then show ?thesis using residue_reached that by blast
  qed
  then have "(base + j) mod 2 ^ 32 = base + j" using assms(1) by (simp add: MAC_ADDR_SPACE_def)
  then show ?thesis using j assms(2) by (auto simp: mac_suffix_def)
qed

section \<open>Properties\<close>





text \<open>A range that ends at 255.255.255.255 excludes nothing: \<open>end\<close> is the successor of the last address, which wraps to 0.\<close>

lemma exclude_last_address:
  "exclude_loop B info [Tok_Integer s, Tok_Ellipsis, Tok_Integer 0xffffffff] b = b"
  by (simp add: exclude_range_def Let_def)

text \<open>
  C18. Addresses taken one after the other from a pool are pairwise different, were free, and are inside the subnet but never
  its broadcast address; the pool says that it is exhausted only when every other address is taken.
\<close>

theorem ipam_never_twice:
  assumes "bitmap_api B" "ipv4_pool info"
  shows "distinct (fst (allocate_ips B info n)) \<and>
    (\<forall>ip \<in> set (fst (allocate_ips B info n)). \<not> taken B info ip \<and> start_ipv4 info \<le> ip \<and> ip + 1 < start_ipv4 info + total_ipv4s info) \<and>
    (ipam_get_unused_ip B info = 0 \<longrightarrow> (\<forall>ip. start_ipv4 info \<le> ip \<and> ip + 1 < start_ipv4 info + total_ipv4s info \<longrightarrow> taken B info ip))"
  using bitmap_api.allocate_ips_ok [OF assms, of n] bitmap_api.unused_ip_cases [OF assms] by presburger

definition tiny_net :: "nat list ipam_info" where
  "tiny_net = \<lparr>start_ipv4 = 0x0a000001, total_ipv4s = 7, allocated_ipv4s = Some [0], ipv6_prefix_set = False, ipv6_prefix = 0,
     mac_only = False, ipam_id = ''sw1''\<rparr>"

theorem ipam_never_twice_witness:
  "ipv4_pool tiny_net \<and> distinct (fst (allocate_ips list_bitmaps tiny_net 3))"
proof -
  have "ipv4_pool tiny_net" by (simp add: ipv4_pool_def tiny_net_def)
  then show ?thesis using ipam_never_twice [OF lbit.bitmap_api_axioms, of tiny_net 3] by simp
qed

text \<open>
  C19. While one of the suffixes 1 to 0xfffffe is free, the generated MAC address is unused, has the prefix and a suffix in
  that interval, and is accepted by the table of addresses.
\<close>

theorem ipam_mac_unused:
  assumes "mac_pool st" "1 \<le> s" "s \<le> 0xfffffe" "(mac_prefix st OR s) \<notin> set (macam st)"
  shows "\<exists>t. 1 \<le> t \<and> t \<le> 0xfffffe \<and> ipam_get_unused_mac st ip = (mac_prefix st OR t) \<and> (mac_prefix st OR t) \<notin> set (macam st) \<and>
    ipam_insert_mac st (Some (ipam_get_unused_mac st ip)) True = st\<lparr>macam := (mac_prefix st OR t) # macam st\<rparr>"
proof -
  let ?base = "ip AND MAC_ADDR_SPACE"
  have dup: "ipam_is_duplicate_mac st m \<longleftrightarrow> m \<in> set (macam st)" for m by (simp add: ipam_is_duplicate_mac_def list_ex_iff)
  obtain j where "j < MAC_ADDR_SPACE - 1" "mac_suffix ?base j = s"
    using suffix_reached [OF base_bound assms(2,3)] by blast
  then obtain k where k: "k < MAC_ADDR_SPACE - 1" "mac_loop st ?base 0 0 = (k, tentative_mac st ?base k)"
    "tentative_mac st ?base k \<notin> set (macam st)"
    using mac_loop_free [of 0 j st ?base 0] assms(4) by (auto simp: dup tentative_suffix)
  let ?t = "mac_suffix ?base k"
  have t: "1 \<le> ?t" "?t \<le> 0xfffffe" "?t < 2 ^ 24" using mac_suffix_bounds [of ?base k] by auto
  have m: "ipam_get_unused_mac st ip = (mac_prefix st OR ?t)"
    using k(1,2) by (auto simp: ipam_get_unused_mac_def tentative_suffix)
  have "drop_bit 24 ((mac_prefix st OR ?t) XOR mac_prefix st) = 0"
    unfolding drop_bit_xor using drop_or_prefix [OF t(3), of st] by simp
  then have "ipam_insert_mac st (Some (mac_prefix st OR ?t)) True = st\<lparr>macam := (mac_prefix st OR ?t) # macam st\<rparr>"
    using k(3) by (simp add: ipam_insert_mac_def dup tentative_suffix)
  then show ?thesis using t k(3) unfolding m tentative_suffix by blast
qed

theorem ipam_mac_unused_witness:
  "\<exists>t. 1 \<le> t \<and> ipam_get_unused_mac \<lparr>macam = [], mac_prefix = 0x0a0000000000\<rparr> 5 = (0x0a0000000000 OR t)"
  using ipam_mac_unused [of "\<lparr>macam = [], mac_prefix = 0x0a0000000000\<rparr>" 1 5]
  by (auto simp: mac_pool_def take_bit_eq_mod)

text \<open>When every suffix is taken, the test for exhaustion (\<open>i == MAC_ADDR_SPACE\<close>) does not fire, because the loop ends at
  \<open>MAC_ADDR_SPACE - 1\<close>: the result is an address in use instead of 0.\<close>

lemma ipam_mac_exhausted:
  assumes "\<And>s. 1 \<le> s \<Longrightarrow> s \<le> 0xfffffe \<Longrightarrow> (mac_prefix st OR s) \<in> set (macam st)"
  shows "ipam_get_unused_mac st ip \<in> set (macam st)"
proof -
  let ?base = "ip AND MAC_ADDR_SPACE"
  have "ipam_is_duplicate_mac st (tentative_mac st ?base j)" for j
    using assms mac_suffix_bounds [of ?base j] by (simp add: ipam_is_duplicate_mac_def list_ex_iff tentative_suffix)
  then have "mac_loop st ?base 0 0 = (MAC_ADDR_SPACE - 1, tentative_mac st ?base (MAC_ADDR_SPACE - 2))"
    by (intro mac_loop_full) (auto simp: MAC_ADDR_SPACE_def)
  then show ?thesis
    using assms mac_suffix_bounds [of ?base "MAC_ADDR_SPACE - 2"] by (simp add: ipam_get_unused_mac_def tentative_suffix MAC_ADDR_SPACE_def)
qed

end
