(* ===== verification/Objdep.thy ===== *)
theory Objdep
  imports Ovn_Prelude "HOL-Library.AList" "HOL-Library.Multiset"
begin

text \<open>
  Dependencies of objects (logical flows, load balancers) on named resources (\<open>lib/objdep.c\<close>, \<open>lib/objdep.h\<close>).
  Each pair of a resource and an object is one \<open>struct object_to_resources_list_node\<close>, linked into the hash map of its
  resource and into the list of its object.  The nodes live in an explicit store from addresses to nodes, because the
  two indexes share them; following an address that was freed, or unlinking a node that is not linked, is \<open>None\<close>.

  The order in which \<open>HMAP_FOR_EACH\<close> visits the objects of a resource is the parameter \<open>visit\<close>, any permutation.  The
  lemmas show that the indexes stay inverse to each other, that no node leaks, and that the manager implements a set
  of dependencies (locale \<open>dependency_index\<close>).
\<close>

section \<open>The manager\<close>

datatype objdep_type =
    OBJDEP_TYPE_ADDRSET
  | OBJDEP_TYPE_PORTGROUP
  | OBJDEP_TYPE_PORTBINDING
  | OBJDEP_TYPE_MC_GROUP
  | OBJDEP_TYPE_TEMPLATE

text \<open>The key of a resource node, which also stands for a pointer to it.\<close>

type_synonym resource = "objdep_type \<times> string"

record object_to_resources_list_node =
  ln_obj_uuid :: uuid
  ln_ref_count :: nat
  ln_resource :: resource

record objdep_mgr =
  om_store :: "nat \<rightharpoonup> object_to_resources_list_node"
  om_fresh :: nat
  resource_to_objects_table :: "(resource \<times> nat list) list"
  object_to_resources_table :: "(uuid \<times> nat list) list"

definition objdep_mgr_init :: objdep_mgr where
  "objdep_mgr_init = \<lparr>om_store = Map.empty, om_fresh = 0, resource_to_objects_table = [], object_to_resources_table = []\<rparr>"

definition objdep_mgr_find_objs :: "objdep_mgr \<Rightarrow> objdep_type \<Rightarrow> string \<Rightarrow> nat list option" where
  "objdep_mgr_find_objs mgr type res_name = map_of (resource_to_objects_table mgr) (type, res_name)"

definition objdep_mgr_find_resources :: "objdep_mgr \<Rightarrow> uuid \<Rightarrow> nat list option" where
  "objdep_mgr_find_resources mgr obj_uuid = map_of (object_to_resources_table mgr) obj_uuid"

definition objdep_mgr_contains_obj :: "objdep_mgr \<Rightarrow> uuid \<Rightarrow> bool" where
  "objdep_mgr_contains_obj mgr obj_uuid \<longleftrightarrow> objdep_mgr_find_resources mgr obj_uuid \<noteq> None"

text \<open>The second half of \<open>objdep_mgr_add_with_refcount\<close>: missing nodes are created, the new list node is linked twice.\<close>

definition link_node :: "objdep_mgr \<Rightarrow> resource \<Rightarrow> uuid \<Rightarrow> nat \<Rightarrow> objdep_mgr" where
  "link_node mgr r u ref_count =
     (let objs = (case map_of (resource_to_objects_table mgr) r of None \<Rightarrow> [] | Some as \<Rightarrow> as);
          resources = (case map_of (object_to_resources_table mgr) u of None \<Rightarrow> [] | Some as \<Rightarrow> as);
          a = om_fresh mgr
      in mgr\<lparr>om_store := (om_store mgr)(a \<mapsto> \<lparr>ln_obj_uuid = u, ln_ref_count = ref_count, ln_resource = r\<rparr>),
             om_fresh := Suc a,
             resource_to_objects_table := AList.update r (objs @ [a]) (resource_to_objects_table mgr),
             object_to_resources_table := AList.update u (resources @ [a]) (object_to_resources_table mgr)\<rparr>)"

definition objdep_mgr_add_with_refcount :: "objdep_mgr \<Rightarrow> objdep_type \<Rightarrow> string \<Rightarrow> uuid \<Rightarrow> nat \<Rightarrow> objdep_mgr option" where
  "objdep_mgr_add_with_refcount mgr type res_name obj_uuid ref_count =
     (case (objdep_mgr_find_objs mgr type res_name, objdep_mgr_find_resources mgr obj_uuid) of
        (Some objs, Some _) \<Rightarrow>
          do { ns \<leftarrow> mapM (om_store mgr) objs;
               Some (if list_ex (\<lambda>n. ln_obj_uuid n = obj_uuid) ns then mgr
                     else link_node mgr (type, res_name) obj_uuid ref_count) }
      | _ \<Rightarrow> Some (link_node mgr (type, res_name) obj_uuid ref_count))"

definition objdep_mgr_add :: "objdep_mgr \<Rightarrow> objdep_type \<Rightarrow> string \<Rightarrow> uuid \<Rightarrow> objdep_mgr option" where
  "objdep_mgr_add mgr type res_name obj_uuid = objdep_mgr_add_with_refcount mgr type res_name obj_uuid 0"

text \<open>The loop of \<open>objdep_mgr_remove_obj\<close>: unlinks each node from its resource, which goes with its last node.\<close>

fun unlink_loop :: "nat list \<Rightarrow> objdep_mgr \<Rightarrow> objdep_mgr option" where
  "unlink_loop [] mgr = Some mgr"
| "unlink_loop (a # as) mgr =
     do { n \<leftarrow> om_store mgr a;
          objs \<leftarrow> map_of (resource_to_objects_table mgr) (ln_resource n);
          if a \<notin> set objs then None
          else unlink_loop as
            (mgr\<lparr>om_store := (om_store mgr)(a := None),
                 resource_to_objects_table :=
                   (if remove1 a objs = [] then AList.delete (ln_resource n) (resource_to_objects_table mgr)
                    else AList.update (ln_resource n) (remove1 a objs) (resource_to_objects_table mgr))\<rparr>) }"

definition objdep_mgr_remove_obj :: "objdep_mgr \<Rightarrow> uuid \<Rightarrow> objdep_mgr option" where
  "objdep_mgr_remove_obj mgr obj_uuid =
     (case objdep_mgr_find_resources mgr obj_uuid of
        None \<Rightarrow> Some mgr
      | Some as \<Rightarrow> unlink_loop as
          (mgr\<lparr>object_to_resources_table := AList.delete obj_uuid (object_to_resources_table mgr)\<rparr>))"

text \<open>The loops of \<open>objdep_mgr_clear\<close>.\<close>

fun clear_nodes :: "nat list \<Rightarrow> objdep_mgr \<Rightarrow> objdep_mgr option" where
  "clear_nodes [] mgr = Some mgr"
| "clear_nodes (a # as) mgr =
     do { n \<leftarrow> om_store mgr a;
          resources \<leftarrow> map_of (object_to_resources_table mgr) (ln_obj_uuid n);
          if a \<notin> set resources then None
          else clear_nodes as
            (mgr\<lparr>om_store := (om_store mgr)(a := None),
                 object_to_resources_table :=
                   AList.update (ln_obj_uuid n) (remove1 a resources) (object_to_resources_table mgr)\<rparr>) }"

fun clear_resources :: "(resource \<times> nat list) list \<Rightarrow> objdep_mgr \<Rightarrow> objdep_mgr option" where
  "clear_resources [] mgr = Some mgr"
| "clear_resources ((r, objs) # rs) mgr =
     do { mgr' \<leftarrow> clear_nodes objs mgr;
          clear_resources rs (mgr'\<lparr>resource_to_objects_table := AList.delete r (resource_to_objects_table mgr')\<rparr>) }"

definition objdep_mgr_clear :: "objdep_mgr \<Rightarrow> objdep_mgr option" where
  "objdep_mgr_clear mgr =
     do { mgr' \<leftarrow> clear_resources (resource_to_objects_table mgr) mgr;
          Some (mgr'\<lparr>object_to_resources_table := []\<rparr>) }"

text \<open>
  \<open>objdep_mgr_handle_change\<close>: the result, \<open>*changed\<close>, and the state after the handler, which is called at most once.
\<close>

definition objdep_mgr_handle_change :: "(nat list \<Rightarrow> nat list) \<Rightarrow> objdep_mgr \<Rightarrow> objdep_type \<Rightarrow> string \<Rightarrow>
    (objdep_type \<Rightarrow> string \<Rightarrow> uuid list \<Rightarrow> 's \<Rightarrow> bool \<times> 's) \<Rightarrow> uuid list \<Rightarrow> 's \<Rightarrow> (bool \<times> bool \<times> 's) option" where
  "objdep_mgr_handle_change visit mgr type res_name handler objs_processed s =
     (case objdep_mgr_find_objs mgr type res_name of
        None \<Rightarrow> Some (True, False, s)
      | Some objs \<Rightarrow>
          do { ns \<leftarrow> mapM (om_store mgr) (visit objs);
               let objs_todo = filter (\<lambda>u. u \<notin> set objs_processed) (map ln_obj_uuid ns);
               if objs_todo = [] then Some (True, False, s)
               else (let (ret, s') = handler type res_name objs_todo s in Some (ret, True, s')) })"

fun objdep_type_name :: "objdep_type \<Rightarrow> string" where
  "objdep_type_name OBJDEP_TYPE_ADDRSET = ''Address_Set''"
| "objdep_type_name OBJDEP_TYPE_PORTGROUP = ''Port_Group''"
| "objdep_type_name OBJDEP_TYPE_PORTBINDING = ''Port_Binding''"
| "objdep_type_name OBJDEP_TYPE_MC_GROUP = ''Multicast_Group''"
| "objdep_type_name OBJDEP_TYPE_TEMPLATE = ''Template''"

section \<open>The indexes\<close>

text \<open>The nodes of a store that satisfy a condition, as an index has to list them.\<close>

definition indexes :: "(nat \<rightharpoonup> object_to_resources_list_node) \<Rightarrow> (object_to_resources_list_node \<Rightarrow> 'k) \<Rightarrow> ('k \<rightharpoonup> nat list) \<Rightarrow> bool" where
  "indexes store key table \<longleftrightarrow>
     (\<forall>k as. table k = Some as \<longrightarrow> distinct as \<and> (\<forall>a. a \<in> set as \<longleftrightarrow> (\<exists>n. store a = Some n \<and> key n = k))) \<and>
     (\<forall>a n. store a = Some n \<longrightarrow> table (key n) \<noteq> None)"

definition no_empty :: "('k \<rightharpoonup> nat list) \<Rightarrow> bool" where
  "no_empty table \<longleftrightarrow> (\<forall>k. table k \<noteq> Some [])"

definition pairs_unique :: "(nat \<rightharpoonup> object_to_resources_list_node) \<Rightarrow> bool" where
  "pairs_unique store \<longleftrightarrow> (\<forall>a b m n. store a = Some m \<longrightarrow> store b = Some n \<longrightarrow>
     ln_resource m = ln_resource n \<longrightarrow> ln_obj_uuid m = ln_obj_uuid n \<longrightarrow> a = b)"

definition objdep_inv :: "objdep_mgr \<Rightarrow> bool" where
  "objdep_inv mgr \<longleftrightarrow>
     distinct (map fst (resource_to_objects_table mgr)) \<and> distinct (map fst (object_to_resources_table mgr)) \<and>
     indexes (om_store mgr) ln_resource (map_of (resource_to_objects_table mgr)) \<and> no_empty (map_of (resource_to_objects_table mgr)) \<and>
     indexes (om_store mgr) ln_obj_uuid (map_of (object_to_resources_table mgr)) \<and> no_empty (map_of (object_to_resources_table mgr)) \<and>
     pairs_unique (om_store mgr) \<and> (\<forall>a. om_store mgr a \<noteq> None \<longrightarrow> a < om_fresh mgr)"

text \<open>The dependencies a manager stands for, each with its reference count.\<close>

definition deps :: "objdep_mgr \<Rightarrow> (resource \<times> uuid \<times> nat) set" where
  "deps mgr = (\<lambda>n. (ln_resource n, ln_obj_uuid n, ln_ref_count n)) ` ran (om_store mgr)"

lemma indexesD:
  assumes "indexes store key table" "table k = Some as"
  shows "distinct as" "a \<in> set as \<longleftrightarrow> (\<exists>n. store a = Some n \<and> key n = k)"
  using assms by (auto simp: indexes_def)

lemma indexes_find:
  assumes "indexes store key table" "store a = Some n"
  obtains as where "table (key n) = Some as" "a \<in> set as"
  using assms by (fastforce simp: indexes_def)

lemma indexes_none:
  assumes "indexes store key table" "table k = None" "store a = Some n"
  shows "key n \<noteq> k"
  using assms by (metis indexes_def)

lemma indexes_insert:
  assumes "indexes store key table" "store a = None"
  shows "indexes (store(a \<mapsto> n)) key (table(key n \<mapsto> (case table (key n) of None \<Rightarrow> [] | Some as \<Rightarrow> as) @ [a]))"
proof -
  have fresh: "a \<notin> set as" if "table k = Some as" for k as using indexesD(2) [OF assms(1) that] assms(2) by simp
  show ?thesis
  proof (cases "table (key n)")
    case None
    then have "key m \<noteq> key n" if "store b = Some m" for b m using indexes_none [OF assms(1)] that by blast
    then show ?thesis using assms None by (auto simp: indexes_def)
  next
    case (Some as)
    then show ?thesis using assms fresh [OF Some] by (auto simp: indexes_def)
  qed
qed

lemma indexes_remove:
  assumes "indexes store key table" "store a = Some n" "table (key n) = Some as"
  shows "indexes (store(a := None)) key (table(key n \<mapsto> remove1 a as))"
  using assms by (auto simp: indexes_def)

lemma indexes_drop:
  assumes "indexes store key (table(k \<mapsto> []))"
  shows "indexes store key (table(k := None))"
  using assms by (fastforce simp: indexes_def split: if_splits)

lemma indexes_remove_all:
  assumes "indexes store key table" "table k = Some as"
  shows "indexes (store |` (- set as)) key (table(k := None))"
  using assms by (auto simp: indexes_def restrict_map_def split: if_splits)

lemma no_empty_upd: "no_empty table \<Longrightarrow> as \<noteq> [] \<Longrightarrow> no_empty (table(k \<mapsto> as))"
  and no_empty_del: "no_empty table \<Longrightarrow> no_empty (table(k := None))"
  by (auto simp: no_empty_def)

lemma map_of_alist:
  "map_of (AList.update k v t) = (map_of t)(k \<mapsto> v)" "map_of (AList.delete k t) = (map_of t)(k := None)"
  by (simp_all add: update_conv' delete_conv')

lemma restrict_step: "(store(a := None)) |` (- set as) = store |` (- set (a # as))"
  by (auto simp: restrict_map_def)

section \<open>Operations keep the indexes\<close>

definition resources_ok :: "objdep_mgr \<Rightarrow> bool" where
  "resources_ok mgr \<longleftrightarrow> distinct (map fst (resource_to_objects_table mgr)) \<and>
     indexes (om_store mgr) ln_resource (map_of (resource_to_objects_table mgr)) \<and> no_empty (map_of (resource_to_objects_table mgr))"

definition objects_ok :: "objdep_mgr \<Rightarrow> bool" where
  "objects_ok mgr \<longleftrightarrow> distinct (map fst (object_to_resources_table mgr)) \<and>
     indexes (om_store mgr) ln_obj_uuid (map_of (object_to_resources_table mgr))"

lemma objdep_inv_split:
  "objdep_inv mgr \<longleftrightarrow> resources_ok mgr \<and> objects_ok mgr \<and> no_empty (map_of (object_to_resources_table mgr)) \<and>
     pairs_unique (om_store mgr) \<and> (\<forall>a. om_store mgr a \<noteq> None \<longrightarrow> a < om_fresh mgr)"
  by (auto simp: objdep_inv_def resources_ok_def objects_ok_def)

lemma unlink_loop_ok:
  assumes "resources_ok mgr" "distinct as" "\<forall>a \<in> set as. om_store mgr a \<noteq> None"
  shows "\<exists>mgr'. unlink_loop as mgr = Some mgr' \<and> resources_ok mgr' \<and> om_store mgr' = om_store mgr |` (- set as) \<and>
    om_fresh mgr' = om_fresh mgr \<and> object_to_resources_table mgr' = object_to_resources_table mgr"
  using assms
proof (induction as arbitrary: mgr)
  case (Cons a as)
  let ?R = "resource_to_objects_table mgr"
  obtain n where n: "om_store mgr a = Some n" using Cons.prems(3) by auto
  have ok: "distinct (map fst ?R)" "indexes (om_store mgr) ln_resource (map_of ?R)" "no_empty (map_of ?R)"
    using Cons.prems(1) by (simp_all add: resources_ok_def)
  obtain objs where objs: "map_of ?R (ln_resource n) = Some objs" "a \<in> set objs" using indexes_find [OF ok(2) n] by blast
  define m1 where "m1 = mgr\<lparr>om_store := (om_store mgr)(a := None),
     resource_to_objects_table := (if remove1 a objs = [] then AList.delete (ln_resource n) ?R
       else AList.update (ln_resource n) (remove1 a objs) ?R)\<rparr>"
  have rem: "indexes ((om_store mgr)(a := None)) ln_resource ((map_of ?R)(ln_resource n \<mapsto> remove1 a objs))"
    by (rule indexes_remove [OF ok(2) n objs(1)])
  have "resources_ok m1"
  proof (cases "remove1 a objs = []")
    case True
    then have "indexes ((om_store mgr)(a := None)) ln_resource ((map_of ?R)(ln_resource n := None))" using rem by (intro indexes_drop) simp
    then show ?thesis using True ok no_empty_del by (simp add: resources_ok_def m1_def map_of_alist distinct_delete)
  qed (use ok rem no_empty_upd in \<open>simp add: resources_ok_def m1_def map_of_alist distinct_update\<close>)
  moreover have "\<forall>b \<in> set as. om_store m1 b \<noteq> None" using Cons.prems(2,3) by (auto simp: m1_def)
  ultimately obtain mgr' where "unlink_loop as m1 = Some mgr'" "resources_ok mgr'" "om_store mgr' = om_store m1 |` (- set as)"
    "om_fresh mgr' = om_fresh m1" "object_to_resources_table mgr' = object_to_resources_table m1"
    using Cons.IH [of m1] Cons.prems(2) by auto
  then show ?case using n objs restrict_step [of "om_store mgr" a as] by (simp add: m1_def)
qed (simp add: restrict_map_def)

lemma remove_obj_ok:
  assumes "objdep_inv mgr"
  shows "\<exists>mgr'. objdep_mgr_remove_obj mgr u = Some mgr' \<and> objdep_inv mgr' \<and>
    om_store mgr' = (\<lambda>a. case om_store mgr a of None \<Rightarrow> None | Some n \<Rightarrow> if ln_obj_uuid n = u then None else Some n)"
proof (cases "map_of (object_to_resources_table mgr) u")
  case None
  then have "ln_obj_uuid n \<noteq> u" if "om_store mgr a = Some n" for a n
    using assms that indexes_none by (metis objdep_inv_def)
  then show ?thesis using None assms
    by (auto simp: objdep_mgr_remove_obj_def objdep_mgr_find_resources_def fun_eq_iff split: option.splits)
next
  case (Some as)
  let ?m = "mgr\<lparr>object_to_resources_table := AList.delete u (object_to_resources_table mgr)\<rparr>"
  have inv: "resources_ok mgr" "objects_ok mgr" "no_empty (map_of (object_to_resources_table mgr))" "pairs_unique (om_store mgr)"
    "\<forall>a. om_store mgr a \<noteq> None \<longrightarrow> a < om_fresh mgr" using assms by (simp_all add: objdep_inv_split)
  have obj: "indexes (om_store mgr) ln_obj_uuid (map_of (object_to_resources_table mgr))" using inv(2) by (simp add: objects_ok_def)
  note as = indexesD [OF obj Some]
  obtain mgr' where mgr': "unlink_loop as ?m = Some mgr'" "resources_ok mgr'" "om_store mgr' = om_store mgr |` (- set as)"
    "om_fresh mgr' = om_fresh mgr" "object_to_resources_table mgr' = AList.delete u (object_to_resources_table mgr)"
  proof -
    have "\<forall>a \<in> set as. om_store ?m a \<noteq> None" using as(2) by fastforce
    moreover have "resources_ok ?m" using inv(1) by (simp add: resources_ok_def)
    ultimately show ?thesis using that unlink_loop_ok [of ?m as] as(1) by auto
  qed
  have "objects_ok mgr'"
    using mgr'(3,5) indexes_remove_all [OF obj Some] inv(2) by (simp add: objects_ok_def map_of_alist distinct_delete)
  moreover have "pairs_unique (om_store mgr')"
    using inv(4) mgr'(3) by (simp add: pairs_unique_def restrict_map_def)
  ultimately have "objdep_inv mgr'"
    using mgr' inv(3,5) no_empty_del by (auto simp: objdep_inv_split map_of_alist restrict_map_def)
  moreover have "om_store mgr' = (\<lambda>a. case om_store mgr a of None \<Rightarrow> None | Some n \<Rightarrow> if ln_obj_uuid n = u then None else Some n)"
    using mgr'(3) as(2) by (auto simp: fun_eq_iff restrict_map_def split: option.splits)
  ultimately show ?thesis using Some mgr'(1) by (simp add: objdep_mgr_remove_obj_def objdep_mgr_find_resources_def)
qed

lemma clear_nodes_ok:
  assumes "objects_ok mgr" "distinct as" "\<forall>a \<in> set as. om_store mgr a \<noteq> None"
  shows "\<exists>mgr'. clear_nodes as mgr = Some mgr' \<and> objects_ok mgr' \<and> om_store mgr' = om_store mgr |` (- set as) \<and>
    om_fresh mgr' = om_fresh mgr \<and> resource_to_objects_table mgr' = resource_to_objects_table mgr"
  using assms
proof (induction as arbitrary: mgr)
  case (Cons a as)
  let ?O = "object_to_resources_table mgr"
  obtain n where n: "om_store mgr a = Some n" using Cons.prems(3) by auto
  have ok: "distinct (map fst ?O)" "indexes (om_store mgr) ln_obj_uuid (map_of ?O)" using Cons.prems(1) by (simp_all add: objects_ok_def)
  obtain rs where rs: "map_of ?O (ln_obj_uuid n) = Some rs" "a \<in> set rs" using indexes_find [OF ok(2) n] by blast
  define m1 where "m1 = mgr\<lparr>om_store := (om_store mgr)(a := None),
     object_to_resources_table := AList.update (ln_obj_uuid n) (remove1 a rs) ?O\<rparr>"
  have "objects_ok m1"
    using ok indexes_remove [OF ok(2) n rs(1)] by (simp add: objects_ok_def m1_def map_of_alist distinct_update)
  moreover have "\<forall>b \<in> set as. om_store m1 b \<noteq> None" using Cons.prems(2,3) by (auto simp: m1_def)
  ultimately obtain mgr' where "clear_nodes as m1 = Some mgr'" "objects_ok mgr'" "om_store mgr' = om_store m1 |` (- set as)"
    "om_fresh mgr' = om_fresh m1" "resource_to_objects_table mgr' = resource_to_objects_table m1"
    using Cons.IH [of m1] Cons.prems(2) by auto
  then show ?case using n rs restrict_step [of "om_store mgr" a as] by (simp add: m1_def)
qed (simp add: restrict_map_def)

lemma clear_resources_ok:
  assumes "objects_ok mgr" "resource_to_objects_table mgr = rs" "distinct (map fst rs)" "indexes (om_store mgr) ln_resource (map_of rs)"
  shows "\<exists>mgr'. clear_resources rs mgr = Some mgr' \<and> om_store mgr' = Map.empty \<and> om_fresh mgr' = om_fresh mgr \<and>
    resource_to_objects_table mgr' = []"
  using assms
proof (induction rs arbitrary: mgr)
  case Nil
  then show ?case by (auto simp: indexes_def)
next
  case (Cons x rs)
  obtain r objs where x: "x = (r, objs)" by (cases x)
  have new: "map_of rs r = None" using Cons.prems(3) x by (simp add: map_of_eq_None_iff)
  have r: "map_of (x # rs) r = Some objs" by (simp add: x)
  note objs = indexesD [OF Cons.prems(4) r]
  obtain m1 where m1: "clear_nodes objs mgr = Some m1" "objects_ok m1" "om_store m1 = om_store mgr |` (- set objs)"
    "om_fresh m1 = om_fresh mgr" "resource_to_objects_table m1 = x # rs"
  proof -
    have "\<forall>a \<in> set objs. om_store mgr a \<noteq> None" using objs(2) by fastforce
    then show ?thesis using that clear_nodes_ok [OF Cons.prems(1) objs(1)] Cons.prems(2) by auto
  qed
  let ?m = "m1\<lparr>resource_to_objects_table := AList.delete r (resource_to_objects_table m1)\<rparr>"
  have tab: "AList.delete r (x # rs) = rs" using Cons.prems(3) by (force simp: x AList.delete_eq filter_id_conv)
  have "(map_of (x # rs))(r := None) = map_of rs" using new x by (auto simp: fun_eq_iff)
  then have "indexes (om_store ?m) ln_resource (map_of rs)"
    using indexes_remove_all [OF Cons.prems(4) r] m1(3) by (simp del: map_of.simps fun_upd_apply)
  then show ?case
    using Cons.IH [of ?m] Cons.prems(3) m1 tab x by (auto simp: objects_ok_def)
qed

lemma clear_ok:
  assumes "objdep_inv mgr"
  shows "\<exists>mgr'. objdep_mgr_clear mgr = Some mgr' \<and> objdep_inv mgr' \<and> om_store mgr' = Map.empty"
proof -
  obtain m1 where "clear_resources (resource_to_objects_table mgr) mgr = Some m1" "om_store m1 = Map.empty"
    "resource_to_objects_table m1 = []"
    using clear_resources_ok [of mgr] assms by (auto simp: objdep_inv_def objects_ok_def)
  then show ?thesis by (auto simp: objdep_mgr_clear_def objdep_inv_def indexes_def no_empty_def pairs_unique_def)
qed

lemma link_node_ok:
  assumes "objdep_inv mgr" "\<forall>a n. om_store mgr a = Some n \<longrightarrow> \<not> (ln_resource n = r \<and> ln_obj_uuid n = u)"
  shows "objdep_inv (link_node mgr r u c)"
    "om_store (link_node mgr r u c) = (om_store mgr)(om_fresh mgr \<mapsto> \<lparr>ln_obj_uuid = u, ln_ref_count = c, ln_resource = r\<rparr>)"
    "om_store mgr (om_fresh mgr) = None"
proof -
  let ?n = "\<lparr>ln_obj_uuid = u, ln_ref_count = c, ln_resource = r\<rparr>"
  have inv: "distinct (map fst (resource_to_objects_table mgr))" "distinct (map fst (object_to_resources_table mgr))"
     "indexes (om_store mgr) ln_resource (map_of (resource_to_objects_table mgr))" "no_empty (map_of (resource_to_objects_table mgr))"
     "indexes (om_store mgr) ln_obj_uuid (map_of (object_to_resources_table mgr))" "no_empty (map_of (object_to_resources_table mgr))"
     "pairs_unique (om_store mgr)" "\<forall>a. om_store mgr a \<noteq> None \<longrightarrow> a < om_fresh mgr"
    using assms(1) by (simp_all add: objdep_inv_def)
  show new: "om_store mgr (om_fresh mgr) = None" using inv(8) by (metis less_irrefl)
  show "om_store (link_node mgr r u c) = (om_store mgr)(om_fresh mgr \<mapsto> ?n)" by (simp add: link_node_def Let_def)
  have "pairs_unique ((om_store mgr)(om_fresh mgr \<mapsto> ?n))"
    using inv(7) assms(2) by (auto simp: pairs_unique_def split: if_splits)
  moreover have "\<forall>a. ((om_store mgr)(om_fresh mgr \<mapsto> ?n)) a \<noteq> None \<longrightarrow> a < Suc (om_fresh mgr)"
    using inv(8) less_SucI by auto
  ultimately show "objdep_inv (link_node mgr r u c)"
    using inv(1,2,4,6) indexes_insert [OF inv(3) new, of ?n] indexes_insert [OF inv(5) new, of ?n]
    by (simp add: objdep_inv_def link_node_def Let_def map_of_alist distinct_update no_empty_upd del: fun_upd_apply)
qed

lemma add_cases:
  assumes "objdep_inv mgr"
  shows "objdep_mgr_add_with_refcount mgr t name u c =
    Some (if \<exists>a n. om_store mgr a = Some n \<and> ln_resource n = (t, name) \<and> ln_obj_uuid n = u then mgr
          else link_node mgr (t, name) u c)"
proof -
  have ls: "indexes (om_store mgr) ln_resource (map_of (resource_to_objects_table mgr))"
    "indexes (om_store mgr) ln_obj_uuid (map_of (object_to_resources_table mgr))" using assms by (simp_all add: objdep_inv_def)
  show ?thesis
  proof (cases "map_of (resource_to_objects_table mgr) (t, name)")
    case None
    then have "ln_resource n \<noteq> (t, name)" if "om_store mgr a = Some n" for a n using indexes_none [OF ls(1)] that by blast
    then show ?thesis using None by (auto simp: objdep_mgr_add_with_refcount_def objdep_mgr_find_objs_def)
  next
    case (Some objs)
    note objs = indexesD(2) [OF ls(1) Some]
    show ?thesis
    proof (cases "map_of (object_to_resources_table mgr) u")
      case None
      then have "ln_obj_uuid n \<noteq> u" if "om_store mgr a = Some n" for a n using indexes_none [OF ls(2)] that by blast
      then show ?thesis using None Some
        by (auto simp: objdep_mgr_add_with_refcount_def objdep_mgr_find_objs_def objdep_mgr_find_resources_def)
    next
      case (Some rs)
      obtain ns where ns: "mapM (om_store mgr) objs = Some ns" using mapM_ex [of objs "om_store mgr"] objs by blast
      then have all2: "list_all2 (\<lambda>a n. om_store mgr a = Some n) objs ns" by (simp add: mapM_Some_iff)
      have "list_ex (\<lambda>n. ln_obj_uuid n = u) ns \<longleftrightarrow>
          (\<exists>a n. om_store mgr a = Some n \<and> ln_resource n = (t, name) \<and> ln_obj_uuid n = u)"
        using list_all2_exI [OF all2] list_all2_exI2 [OF all2] objs by (fastforce simp: list_ex_iff)
      then show ?thesis using Some ns \<open>map_of (resource_to_objects_table mgr) (t, name) = Some objs\<close>
        by (simp add: objdep_mgr_add_with_refcount_def objdep_mgr_find_objs_def objdep_mgr_find_resources_def)
    qed
  qed
qed

section \<open>A set of dependencies\<close>

lemma in_deps: "(r, u, c) \<in> deps mgr \<longleftrightarrow> (\<exists>a n. om_store mgr a = Some n \<and> ln_resource n = r \<and> ln_obj_uuid n = u \<and> ln_ref_count n = c)"
  by (auto simp: deps_def ran_def image_iff)

lemma deps_init: "objdep_inv objdep_mgr_init" "deps objdep_mgr_init = {}"
  by (auto simp: objdep_mgr_init_def objdep_inv_def indexes_def no_empty_def pairs_unique_def deps_def)

lemma deps_add:
  assumes "objdep_inv mgr"
  shows "\<exists>mgr'. objdep_mgr_add_with_refcount mgr t name u c = Some mgr' \<and> objdep_inv mgr' \<and>
    deps mgr' = (if \<exists>c'. ((t, name), u, c') \<in> deps mgr then deps mgr else insert ((t, name), u, c) (deps mgr))"
proof (cases "\<exists>c'. ((t, name), u, c') \<in> deps mgr")
  case True
  then show ?thesis using add_cases [OF assms, of t name u c] assms by (auto simp: in_deps)
next
  case False
  then have new: "\<forall>a n. om_store mgr a = Some n \<longrightarrow> \<not> (ln_resource n = (t, name) \<and> ln_obj_uuid n = u)" by (auto simp: in_deps)
  then have "objdep_mgr_add_with_refcount mgr t name u c = Some (link_node mgr (t, name) u c)"
    using add_cases [OF assms, of t name u c] by auto
  moreover have "deps (link_node mgr (t, name) u c) = insert ((t, name), u, c) (deps mgr)"
    using link_node_ok(3) [OF assms new] by (simp add: deps_def link_node_ok(2) [OF assms new])
  ultimately show ?thesis using False link_node_ok(1) [OF assms new] by simp
qed

lemma deps_remove:
  assumes "objdep_inv mgr"
  shows "\<exists>mgr'. objdep_mgr_remove_obj mgr u = Some mgr' \<and> objdep_inv mgr' \<and> deps mgr' = {d \<in> deps mgr. fst (snd d) \<noteq> u}"
proof -
  obtain mgr' where mgr': "objdep_mgr_remove_obj mgr u = Some mgr'" "objdep_inv mgr'"
    "om_store mgr' = (\<lambda>a. case om_store mgr a of None \<Rightarrow> None | Some n \<Rightarrow> if ln_obj_uuid n = u then None else Some n)"
    using remove_obj_ok [OF assms] by blast
  have "om_store mgr' a = Some n \<longleftrightarrow> om_store mgr a = Some n \<and> ln_obj_uuid n \<noteq> u" for a n
    by (auto simp: mgr'(3) split: option.splits if_splits)
  then have "(r, v, c) \<in> deps mgr' \<longleftrightarrow> (r, v, c) \<in> deps mgr \<and> v \<noteq> u" for r v c unfolding in_deps by blast
  then show ?thesis using mgr'(1,2) by auto
qed

lemma deps_clear:
  assumes "objdep_inv mgr"
  shows "\<exists>mgr'. objdep_mgr_clear mgr = Some mgr' \<and> objdep_inv mgr' \<and> deps mgr' = {} \<and> om_store mgr' = Map.empty"
  using clear_ok [OF assms] by (auto simp: deps_def)

lemma contains_iff:
  assumes "objdep_inv mgr"
  shows "objdep_mgr_contains_obj mgr u \<longleftrightarrow> (\<exists>r c. (r, u, c) \<in> deps mgr)"
proof -
  have ix: "indexes (om_store mgr) ln_obj_uuid (map_of (object_to_resources_table mgr))" "no_empty (map_of (object_to_resources_table mgr))"
    using assms by (simp_all add: objdep_inv_def)
  show ?thesis
  proof (cases "map_of (object_to_resources_table mgr) u")
    case None
    then show ?thesis using indexes_none [OF ix(1)]
      by (auto simp: objdep_mgr_contains_obj_def objdep_mgr_find_resources_def in_deps)
  next
    case (Some as)
    then obtain a where "a \<in> set as" using ix(2) by (cases as) (auto simp: no_empty_def)
    then obtain n where "om_store mgr a = Some n" "ln_obj_uuid n = u" using indexesD(2) [OF ix(1) Some] by blast
    then have "(ln_resource n, u, ln_ref_count n) \<in> deps mgr" unfolding in_deps by blast
    then show ?thesis using Some unfolding objdep_mgr_contains_obj_def objdep_mgr_find_resources_def by blast
  qed
qed

lemma find_objs_iff:
  assumes "objdep_inv mgr"
  shows "case objdep_mgr_find_objs mgr t name of
      None \<Rightarrow> \<forall>u c. ((t, name), u, c) \<notin> deps mgr
    | Some objs \<Rightarrow> \<forall>visit. mset (visit objs) = mset objs \<longrightarrow>
        (\<exists>ns. mapM (om_store mgr) (visit objs) = Some ns \<and> distinct (map ln_obj_uuid ns) \<and>
          ns \<noteq> [] \<and> ln_obj_uuid ` set ns = {u. \<exists>c. ((t, name), u, c) \<in> deps mgr})"
proof -
  have ix: "indexes (om_store mgr) ln_resource (map_of (resource_to_objects_table mgr))" "no_empty (map_of (resource_to_objects_table mgr))"
    "pairs_unique (om_store mgr)" using assms by (simp_all add: objdep_inv_def)
  show ?thesis
  proof (cases "map_of (resource_to_objects_table mgr) (t, name)")
    case None
    then show ?thesis using indexes_none [OF ix(1)] by (auto simp: objdep_mgr_find_objs_def in_deps)
  next
    case (Some objs)
    note objs = indexesD [OF ix(1) Some]
    have "\<exists>ns. mapM (om_store mgr) as = Some ns \<and> distinct (map ln_obj_uuid ns) \<and> ns \<noteq> [] \<and>
        ln_obj_uuid ` set ns = {u. \<exists>c. ((t, name), u, c) \<in> deps mgr}" if "mset as = mset objs" for as
    proof -
      have as: "set as = set objs" "distinct as" using that objs(1) by (metis set_mset_mset, metis mset_eq_imp_distinct_iff)
      then have "\<exists>n. om_store mgr a = Some n" if "a \<in> set as" for a using objs(2) that by blast
      then obtain ns where ns: "mapM (om_store mgr) as = Some ns" using mapM_ex by blast
      then have all2: "list_all2 (\<lambda>a n. om_store mgr a = Some n) as ns" by (simp add: mapM_Some_iff)
      have "distinct (map ln_obj_uuid ns)"
        using all2 as(2) as(1)[THEN equalityD1] objs(2)
      proof (induction rule: list_all2_induct)
        case (Cons a as n ns)
        have "ln_obj_uuid m \<noteq> ln_obj_uuid n" if m: "m \<in> set ns" for m
        proof -
          obtain b where b: "b \<in> set as" "om_store mgr b = Some m" using list_all2_exI2 [OF Cons.hyps(2) m] by blast
          then have "ln_resource m = (t, name)" "ln_resource n = (t, name)" using Cons.prems Cons.hyps(1) by auto
          then show ?thesis using ix(3) b Cons.hyps(1) Cons.prems(1) unfolding pairs_unique_def by (metis distinct.simps(2))
        qed
        then have "ln_obj_uuid n \<notin> ln_obj_uuid ` set ns" by (metis imageE)
        then show ?case using Cons by auto
      qed simp
      moreover have "ns \<noteq> []" using ix(2) Some all2 as(1) by (auto simp: no_empty_def)
      moreover have "ln_obj_uuid ` set ns = {u. \<exists>c. ((t, name), u, c) \<in> deps mgr}"
      proof -
        have "n \<in> set ns \<longleftrightarrow> (\<exists>a. om_store mgr a = Some n \<and> ln_resource n = (t, name))" for n
          using list_all2_exI [OF all2] list_all2_exI2 [OF all2] as(1) objs(2) by (metis option.inject)
        then show ?thesis by (auto simp: in_deps image_iff) blast
      qed
      ultimately show ?thesis using ns by blast
    qed
    then show ?thesis using Some by (simp add: objdep_mgr_find_objs_def)
  qed
qed

section \<open>The interface\<close>

text \<open>
  What clients of a dependency index rely on: an invariant, the set of pairs it stands for, and operations that never
  fail.  A client that records a list of resources for an object ends up with exactly those in addition.
\<close>

locale dependency_index =
  fixes inv :: "'m \<Rightarrow> bool" and pairs :: "'m \<Rightarrow> ('r \<times> 'o) set"
    and add :: "'m \<Rightarrow> 'r \<Rightarrow> 'o \<Rightarrow> 'm option" and remove :: "'m \<Rightarrow> 'o \<Rightarrow> 'm option" and contains :: "'m \<Rightarrow> 'o \<Rightarrow> bool"
  assumes add_law: "inv m \<Longrightarrow> \<exists>m'. add m r u = Some m' \<and> inv m' \<and> pairs m' = insert (r, u) (pairs m)"
    and remove_law: "inv m \<Longrightarrow> \<exists>m'. remove m u = Some m' \<and> inv m' \<and> pairs m' = {p \<in> pairs m. snd p \<noteq> u}"
    and contains_law: "inv m \<Longrightarrow> contains m u \<longleftrightarrow> (\<exists>r. (r, u) \<in> pairs m)"
begin

fun add_all :: "'r list \<Rightarrow> 'o \<Rightarrow> 'm \<Rightarrow> 'm option" where
  "add_all [] u m = Some m"
| "add_all (r # rs) u m = do { m' \<leftarrow> add m r u; add_all rs u m' }"

lemma add_all_ok: "inv m \<Longrightarrow> \<exists>m'. add_all rs u m = Some m' \<and> inv m' \<and> pairs m' = (\<lambda>r. (r, u)) ` set rs \<union> pairs m"
proof (induction rs arbitrary: m)
  case (Cons r rs)
  then obtain m1 where m1: "add m r u = Some m1" "inv m1" "pairs m1 = insert (r, u) (pairs m)" using add_law by blast
  then show ?case using Cons.IH [OF m1(2)] by auto
qed simp

lemma no_dependency_iff:
  assumes "inv m" "add_all rs u m = Some m'"
  shows "\<not> contains m' u \<longleftrightarrow> rs = [] \<and> \<not> contains m u"
proof -
  have "inv m'" "pairs m' = (\<lambda>r. (r, u)) ` set rs \<union> pairs m" using add_all_ok [OF assms(1), of rs u] assms(2) by auto
  then show ?thesis using assms(1) by (auto simp: contains_law image_iff) (metis list.set_intros(1) list.exhaust)
qed

end

definition dep_pairs :: "objdep_mgr \<Rightarrow> (resource \<times> uuid) set" where
  "dep_pairs m = {(r, u). \<exists>c. (r, u, c) \<in> deps m}"

interpretation odep: dependency_index objdep_inv dep_pairs
    "\<lambda>m r u. objdep_mgr_add m (fst r) (snd r) u" objdep_mgr_remove_obj objdep_mgr_contains_obj
proof
  fix m :: objdep_mgr and r :: resource and u :: uuid
  assume inv: "objdep_inv m"
  show "\<exists>m'. objdep_mgr_add m (fst r) (snd r) u = Some m' \<and> objdep_inv m' \<and> dep_pairs m' = insert (r, u) (dep_pairs m)"
    using deps_add [OF inv, of "fst r" "snd r" u 0] by (auto simp: objdep_mgr_add_def dep_pairs_def split: if_splits)
  show "\<exists>m'. objdep_mgr_remove_obj m u = Some m' \<and> objdep_inv m' \<and> dep_pairs m' = {p \<in> dep_pairs m. snd p \<noteq> u}"
    using deps_remove [OF inv, of u] by (auto simp: dep_pairs_def)
  show "objdep_mgr_contains_obj m u \<longleftrightarrow> (\<exists>r. (r, u) \<in> dep_pairs m)"
    using contains_iff [OF inv] by (auto simp: dep_pairs_def)
qed

section \<open>Properties\<close>

inductive dep_reach :: "objdep_mgr \<Rightarrow> bool" where
  init: "dep_reach objdep_mgr_init"
| add: "dep_reach m \<Longrightarrow> objdep_mgr_add_with_refcount m t name u c = Some m' \<Longrightarrow> dep_reach m'"
| remove: "dep_reach m \<Longrightarrow> objdep_mgr_remove_obj m u = Some m' \<Longrightarrow> dep_reach m'"
| clear: "dep_reach m \<Longrightarrow> objdep_mgr_clear m = Some m' \<Longrightarrow> dep_reach m'"

lemma dep_reach_inv: "dep_reach m \<Longrightarrow> objdep_inv m"
proof (induction rule: dep_reach.induct)
  case (add m t name u c m')
  then show ?case using deps_add [OF add.IH, of t name u c] by auto
next
  case (remove m u m')
  then show ?case using deps_remove [OF remove.IH, of u] by auto
next
  case (clear m m')
  then show ?case using deps_clear [OF clear.IH] by auto
qed (rule deps_init(1))

text \<open>
  C20. The dependency manager implements a set of dependencies: from every reachable state, adding a pair inserts it (with
  its reference count) unless it is there, removing an object removes exactly its pairs, and clearing removes all and
  leaves no node allocated; none of them follows a dangling pointer.
\<close>

theorem objdep_implements_set:
  assumes "dep_reach m"
  shows "(\<exists>m'. objdep_mgr_add_with_refcount m t name u c = Some m' \<and>
      deps m' = (if \<exists>c'. ((t, name), u, c') \<in> deps m then deps m else insert ((t, name), u, c) (deps m))) \<and>
    (\<exists>m'. objdep_mgr_remove_obj m u = Some m' \<and> deps m' = {d \<in> deps m. fst (snd d) \<noteq> u}) \<and>
    (\<exists>m'. objdep_mgr_clear m = Some m' \<and> deps m' = {} \<and> om_store m' = Map.empty) \<and>
    (objdep_mgr_contains_obj m u \<longleftrightarrow> (\<exists>r c. (r, u, c) \<in> deps m))"
  using deps_add [OF dep_reach_inv [OF assms], of t name u c] deps_remove [OF dep_reach_inv [OF assms], of u]
    deps_clear [OF dep_reach_inv [OF assms]] contains_iff [OF dep_reach_inv [OF assms], of u] by blast

definition one_dep :: objdep_mgr where
  "one_dep = link_node objdep_mgr_init (OBJDEP_TYPE_ADDRSET, ''as1'') 7 2"

lemma one_dep_reach: "dep_reach one_dep"
  by (rule dep_reach.add [OF dep_reach.init, of OBJDEP_TYPE_ADDRSET "''as1''" 7 2])
    (simp add: objdep_mgr_add_with_refcount_def objdep_mgr_find_objs_def one_dep_def objdep_mgr_init_def)

lemma one_dep_deps: "deps one_dep = {((OBJDEP_TYPE_ADDRSET, ''as1''), 7, 2)}"
  by (simp add: one_dep_def link_node_def objdep_mgr_init_def deps_def Let_def)

theorem objdep_implements_set_witness:
  "\<exists>m'. objdep_mgr_remove_obj one_dep 7 = Some m' \<and> deps m' = {}"
  using objdep_implements_set [OF one_dep_reach, of OBJDEP_TYPE_ADDRSET "''as1''" 7 0] one_dep_deps by auto

text \<open>
  C21. In every reachable state the two indexes are inverse to each other: a list node is found under its resource and
  under its object, each exactly once, no pair has two nodes, and no resource or object without nodes is kept.
\<close>

theorem objdep_indexes_inverse:
  assumes "dep_reach m"
  shows "(\<forall>r as. map_of (resource_to_objects_table m) r = Some as \<longrightarrow>
      as \<noteq> [] \<and> distinct as \<and> (\<forall>a. a \<in> set as \<longleftrightarrow> (\<exists>n. om_store m a = Some n \<and> ln_resource n = r))) \<and>
    (\<forall>u as. map_of (object_to_resources_table m) u = Some as \<longrightarrow>
      as \<noteq> [] \<and> distinct as \<and> (\<forall>a. a \<in> set as \<longleftrightarrow> (\<exists>n. om_store m a = Some n \<and> ln_obj_uuid n = u))) \<and>
    (\<forall>a n. om_store m a = Some n \<longrightarrow> map_of (resource_to_objects_table m) (ln_resource n) \<noteq> None \<and>
      map_of (object_to_resources_table m) (ln_obj_uuid n) \<noteq> None)"
  using dep_reach_inv [OF assms] unfolding objdep_inv_def indexes_def no_empty_def by (intro conjI allI impI) blast+

theorem objdep_indexes_inverse_witness:
  "dep_reach one_dep \<and> map_of (object_to_resources_table one_dep) 7 \<noteq> None"
proof -
  have "om_store one_dep 0 = Some \<lparr>ln_obj_uuid = 7, ln_ref_count = 2, ln_resource = (OBJDEP_TYPE_ADDRSET, ''as1'')\<rparr>"
    by (simp add: one_dep_def link_node_def objdep_mgr_init_def Let_def)
  then have "map_of (object_to_resources_table one_dep) (ln_obj_uuid
      \<lparr>ln_obj_uuid = 7, ln_ref_count = 2, ln_resource = (OBJDEP_TYPE_ADDRSET, ''as1'')\<rparr>) \<noteq> None"
    using objdep_indexes_inverse [OF one_dep_reach, THEN conjunct2, THEN conjunct2] by blast
  then show ?thesis using one_dep_reach by simp
qed

text \<open>
  C22. A change of a resource is passed on exactly once, with each object that depends on it and has not been processed
  yet, without repetition; if there is none, nothing is called and the resource counts as unchanged.
\<close>

theorem objdep_handle_change_exact:
  assumes "dep_reach m" "\<forall>xs. mset (visit xs) = mset xs"
  shows "\<exists>todo. distinct todo \<and> set todo = {u. \<exists>c. ((t, name), u, c) \<in> deps m} - set objs_processed \<and>
    objdep_mgr_handle_change visit m t name handler objs_processed s =
      (if todo = [] then Some (True, False, s) else Some (fst (handler t name todo s), True, snd (handler t name todo s)))"
proof (cases "objdep_mgr_find_objs m t name")
  case None
  then show ?thesis using find_objs_iff [OF dep_reach_inv [OF assms(1)], of t name]
    by (intro exI [of _ "[]"]) (simp add: objdep_mgr_handle_change_def)
next
  case (Some objs)
  then obtain ns where ns: "mapM (om_store m) (visit objs) = Some ns" "distinct (map ln_obj_uuid ns)"
      "ln_obj_uuid ` set ns = {u. \<exists>c. ((t, name), u, c) \<in> deps m}"
    using find_objs_iff [OF dep_reach_inv [OF assms(1)], of t name] assms(2) by auto
  let ?todo = "filter (\<lambda>u. u \<notin> set objs_processed) (map ln_obj_uuid ns)"
  have "set ?todo = {u. \<exists>c. ((t, name), u, c) \<in> deps m} - set objs_processed" using ns(3) by auto
  moreover have "distinct ?todo" using ns(2) by (rule distinct_filter)
  ultimately show ?thesis using Some ns(1)
    by (intro exI [of _ ?todo]) (simp add: objdep_mgr_handle_change_def Let_def split: prod.split)
qed

theorem objdep_handle_change_exact_witness:
  "\<exists>todo. distinct todo \<and> set todo = {7} \<and>
    objdep_mgr_handle_change rev one_dep OBJDEP_TYPE_ADDRSET ''as1'' (\<lambda>_ _ us s. (True, us @ s)) [3] [] = Some (True, True, todo)"
  using objdep_handle_change_exact [OF one_dep_reach, of rev OBJDEP_TYPE_ADDRSET "''as1''" "[3]" "\<lambda>_ _ us s. (True, us @ s)" "[]"]
  by (auto simp: one_dep_deps)

end
