(* ===== verification/Flow_Table.thy ===== *)
theory Flow_Table
  imports Ovn_Prelude Extend_Table "HOL-Library.AList"
begin

text \<open>
  The desired flow table of \<open>ovn-controller\<close> (\<open>controller/ofctrl.c\<close>, \<open>controller/ofctrl.h\<close>): OpenFlow flows and the
  records of the southbound database they come from, an M to N relation.  A \<open>struct desired_flow\<close> lives in an explicit
  store and is identified by its address.  A \<open>struct sb_flow_ref\<close> links one flow and one record, so it is identified by
  the pair: it is an entry of the record's UUID in the \<open>references\<close> of the flow and an entry of the flow's address in
  the \<open>flows\<close> of the record, and possibly in one list of an address of an address set.  A \<open>struct installed_flow\<close> is
  identified by its key.  A failed assertion and the use of a freed object are \<open>None\<close>.

  Parameters: the match of a flow (\<open>struct minimatch\<close>) and the actions other than \<open>conjunction\<close> are type variables;
  \<open>visit\<close> is the order in which a hash map is traversed.  The statistics \<open>mem_stats\<close> and the log are left out.

  The lemmas show that the links of both directions stay inverse to each other, that removing the flows of a record
  with all flows that share one with it (\<open>ofctrl_flood_remove_flows\<close>) ends and removes exactly the connected part, and
  that no assertion fails on the way.
\<close>

section \<open>Flows\<close>

datatype 'a ofpact = Ofpact_Conjunction nat nat nat | Ofpact_Other 'a

record ('m, 'a) ovn_flow =
  fl_table_id :: nat
  fl_priority :: nat
  fl_match :: 'm
  fl_ofpacts :: "'a ofpact list"
  fl_cookie :: nat
  fl_ctrl_meter_id :: nat

type_synonym 'm flow_key = "nat \<times> nat \<times> 'm"

definition flow_key :: "('m, 'a) ovn_flow \<Rightarrow> 'm flow_key" where
  "flow_key f = (fl_table_id f, fl_priority f, fl_match f)"

record ('m, 'a) desired_flow =
  df_flow :: "('m, 'a) ovn_flow"
  df_references :: "uuid list"
  df_installed_flow :: "'m flow_key option"
  df_is_deleted :: bool

text \<open>\<open>struct sb_addrset_ref\<close> and \<open>struct as_ip_to_flow_node\<close> as one association list per address set.\<close>

type_synonym addrset_ref = "string \<times> ((nat \<times> nat) \<times> nat list) list"

record sb_to_flow =
  stf_flows :: "nat list"
  stf_addrsets :: "addrset_ref list"

record ('m, 'a) installed_flow =
  if_flow :: "('m, 'a) ovn_flow"
  if_desired_refs :: "nat list"

text \<open>\<open>struct ovn_desired_flow_table\<close> with the store of its flows, and the table of installed flows that belongs to it.\<close>

record ('m, 'a) ovn_desired_flow_table =
  ft_store :: "nat \<rightharpoonup> ('m, 'a) desired_flow"
  ft_fresh :: nat
  match_flow_table :: "nat list"
  uuid_flow_table :: "(uuid \<times> sb_to_flow) list"
  change_tracked :: bool
  tracked_flows :: "nat list"
  installed_flows :: "('m flow_key \<times> ('m, 'a) installed_flow) list"

record addrset_info =
  as_name :: string
  as_ip :: nat
  as_mask :: nat

definition upd_flow :: "nat \<Rightarrow> (('m, 'a) desired_flow \<Rightarrow> ('m, 'a) desired_flow) \<Rightarrow>
    ('m, 'a) ovn_desired_flow_table \<Rightarrow> ('m, 'a) ovn_desired_flow_table" where
  "upd_flow a g s = s\<lparr>ft_store := (ft_store s)(a := map_option g (ft_store s a))\<rparr>"

definition flow_action_has_drop :: "('m, 'a) ovn_flow \<Rightarrow> bool" where
  "flow_action_has_drop f \<longleftrightarrow> fl_ofpacts f = []"

definition is_conjunction :: "'a ofpact \<Rightarrow> bool" where
  "is_conjunction a \<longleftrightarrow> (case a of Ofpact_Conjunction _ _ _ \<Rightarrow> True | Ofpact_Other _ \<Rightarrow> False)"

definition flow_action_has_conj :: "('m, 'a) ovn_flow \<Rightarrow> bool" where
  "flow_action_has_conj f \<longleftrightarrow> list_ex is_conjunction (fl_ofpacts f)"

definition flow_action_has_allow :: "('m, 'a) ovn_flow \<Rightarrow> bool" where
  "flow_action_has_allow f \<longleftrightarrow> \<not> flow_action_has_drop f \<and> \<not> flow_action_has_conj f"

definition flow_is_preferred :: "('m, 'a) ovn_flow \<Rightarrow> ('m, 'a) ovn_flow \<Rightarrow> bool option" where
  "flow_is_preferred a b =
     (if flow_action_has_allow b then Some False
      else if flow_action_has_allow a then Some True
      else if flow_action_has_drop b then Some False
      else if flow_action_has_drop a then Some True
      else None)"

section \<open>Links to installed flows\<close>

definition installed_flow_get_active :: "('m, 'a) installed_flow \<Rightarrow> nat option" where
  "installed_flow_get_active i = (case if_desired_refs i of [] \<Rightarrow> None | a # _ \<Rightarrow> Some a)"

definition installed_flow_dup :: "('m, 'a) desired_flow \<Rightarrow> ('m, 'a) installed_flow" where
  "installed_flow_dup d = \<lparr>if_flow = df_flow d, if_desired_refs = []\<rparr>"

fun insert_preferred :: "(nat \<rightharpoonup> ('m, 'a) desired_flow) \<Rightarrow> ('m, 'a) ovn_flow \<Rightarrow> nat \<Rightarrow> nat list \<Rightarrow> nat list option" where
  "insert_preferred store d a [] = Some [a]"
| "insert_preferred store d a (b # bs) =
     do { f \<leftarrow> store b;
          p \<leftarrow> flow_is_preferred d (df_flow f);
          if p then Some (a # b # bs) else map_option ((#) b) (insert_preferred store d a bs) }"

definition link_installed_to_desired :: "'m flow_key \<Rightarrow> nat \<Rightarrow> ('m, 'a) ovn_desired_flow_table \<Rightarrow>
    (bool \<times> ('m, 'a) ovn_desired_flow_table) option" where
  "link_installed_to_desired k a s =
     do { i \<leftarrow> map_of (installed_flows s) k;
          d \<leftarrow> ft_store s a;
          refs \<leftarrow> insert_preferred (ft_store s) (df_flow d) a (if_desired_refs i);
          Some (hd refs = a,
            upd_flow a (\<lambda>d. d\<lparr>df_installed_flow := Some k\<rparr>)
              (s\<lparr>installed_flows := AList.update k (i\<lparr>if_desired_refs := refs\<rparr>) (installed_flows s)\<rparr>)) }"

definition replace_installed_to_desired :: "'m flow_key \<Rightarrow> nat \<Rightarrow> nat \<Rightarrow> ('m, 'a) ovn_desired_flow_table \<Rightarrow>
    ('m, 'a) ovn_desired_flow_table option" where
  "replace_installed_to_desired k old new s =
     do { i \<leftarrow> map_of (installed_flows s) k;
          d \<leftarrow> ft_store s old;
          if df_installed_flow d \<noteq> Some k then None
          else Some (upd_flow new (\<lambda>d. d\<lparr>df_installed_flow := Some k\<rparr>) (upd_flow old (\<lambda>d. d\<lparr>df_installed_flow := None\<rparr>)
            (s\<lparr>installed_flows := AList.update k
                 (i\<lparr>if_desired_refs := map (\<lambda>b. if b = old then new else b) (if_desired_refs i)\<rparr>) (installed_flows s)\<rparr>))) }"

definition unlink_installed_to_desired :: "'m flow_key \<Rightarrow> nat \<Rightarrow> ('m, 'a) ovn_desired_flow_table \<Rightarrow>
    (bool \<times> ('m, 'a) ovn_desired_flow_table) option" where
  "unlink_installed_to_desired k a s =
     do { i \<leftarrow> map_of (installed_flows s) k;
          d \<leftarrow> ft_store s a;
          if df_installed_flow d \<noteq> Some k then None
          else Some (installed_flow_get_active i = Some a,
            upd_flow a (\<lambda>d. d\<lparr>df_installed_flow := None\<rparr>)
              (s\<lparr>installed_flows := AList.update k (i\<lparr>if_desired_refs := remove1 a (if_desired_refs i)\<rparr>) (installed_flows s)\<rparr>)) }"

fun unlink_loop1 :: "'m flow_key \<Rightarrow> nat list \<Rightarrow> ('m, 'a) ovn_desired_flow_table \<Rightarrow> ('m, 'a) ovn_desired_flow_table option" where
  "unlink_loop1 k [] s = Some s"
| "unlink_loop1 k (a # as) s = do { (_, s') \<leftarrow> unlink_installed_to_desired k a s; unlink_loop1 k as s' }"

definition unlink_all_refs_for_installed_flow :: "'m flow_key \<Rightarrow> ('m, 'a) ovn_desired_flow_table \<Rightarrow>
    ('m, 'a) ovn_desired_flow_table option" where
  "unlink_all_refs_for_installed_flow k s =
     do { i \<leftarrow> map_of (installed_flows s) k; unlink_loop1 k (if_desired_refs i) s }"

section \<open>Tracking of changes\<close>

definition desired_flow_destroy :: "nat \<Rightarrow> ('m, 'a) ovn_desired_flow_table \<Rightarrow> ('m, 'a) ovn_desired_flow_table option" where
  "desired_flow_destroy a s =
     do { d \<leftarrow> ft_store s a;
          if df_references d \<noteq> [] \<or> df_installed_flow d \<noteq> None then None
          else Some (s\<lparr>ft_store := (ft_store s)(a := None)\<rparr>) }"

definition track_flow_add_or_modify :: "nat \<Rightarrow> ('m, 'a) ovn_desired_flow_table \<Rightarrow> ('m, 'a) ovn_desired_flow_table" where
  "track_flow_add_or_modify a s =
     (if \<not> change_tracked s then s
      else upd_flow a (\<lambda>d. d\<lparr>df_is_deleted := False\<rparr>) (s\<lparr>tracked_flows := remove1 a (tracked_flows s) @ [a]\<rparr>))"

definition track_flow_del :: "nat \<Rightarrow> ('m, 'a) ovn_desired_flow_table \<Rightarrow> ('m, 'a) ovn_desired_flow_table option" where
  "track_flow_del a s =
     (if \<not> change_tracked s then Some s
      else do {
        d \<leftarrow> ft_store s a;
        let s1 = s\<lparr>tracked_flows := remove1 a (tracked_flows s)\<rparr>;
        if a \<in> set (tracked_flows s) \<and> df_installed_flow d = None then desired_flow_destroy a s1
        else Some (upd_flow a (\<lambda>d. d\<lparr>df_is_deleted := True\<rparr>) (s1\<lparr>tracked_flows := tracked_flows s1 @ [a]\<rparr>)) })"

definition track_or_destroy_for_flow_del :: "nat \<Rightarrow> ('m, 'a) ovn_desired_flow_table \<Rightarrow>
    ('m, 'a) ovn_desired_flow_table option" where
  "track_or_destroy_for_flow_del a s =
     (if change_tracked s then track_flow_del a s
      else do {
        d \<leftarrow> ft_store s a;
        s1 \<leftarrow> (case df_installed_flow d of
                 Some k \<Rightarrow> map_option snd (unlink_installed_to_desired k a s)
               | None \<Rightarrow> Some s);
        desired_flow_destroy a s1 })"

section \<open>Links to the database\<close>

definition sb_to_flow_find :: "(uuid \<times> sb_to_flow) list \<Rightarrow> uuid \<Rightarrow> sb_to_flow option" where
  "sb_to_flow_find t sb_uuid = map_of t sb_uuid"

definition as_ip_to_flow_find :: "((nat \<times> nat) \<times> nat list) list \<Rightarrow> nat \<Rightarrow> nat \<Rightarrow> nat list option" where
  "as_ip_to_flow_find m ip msk = map_of m (ip, msk)"

text \<open>The last part of \<open>link_flow_to_sb\<close>: the flow is listed under its address set and address.\<close>

definition link_as_ip :: "addrset_info \<Rightarrow> nat \<Rightarrow> addrset_ref list \<Rightarrow> addrset_ref list" where
  "link_as_ip info a addrsets =
     (let m = (case map_of addrsets (as_name info) of None \<Rightarrow> [] | Some m \<Rightarrow> m);
          flows = (case as_ip_to_flow_find m (as_ip info) (as_mask info) of None \<Rightarrow> [] | Some fs \<Rightarrow> fs)
      in AList.update (as_name info) (AList.update (as_ip info, as_mask info) (flows @ [a]) m) addrsets)"

definition link_flow_to_sb :: "nat \<Rightarrow> uuid \<Rightarrow> addrset_info option \<Rightarrow> ('m, 'a) ovn_desired_flow_table \<Rightarrow>
    ('m, 'a) ovn_desired_flow_table" where
  "link_flow_to_sb a sb_uuid as_info s =
     (let s1 = upd_flow a (\<lambda>d. d\<lparr>df_references := df_references d @ [sb_uuid]\<rparr>) s;
          stf = (case sb_to_flow_find (uuid_flow_table s) sb_uuid of None \<Rightarrow> \<lparr>stf_flows = [], stf_addrsets = []\<rparr> | Some stf \<Rightarrow> stf);
          stf1 = stf\<lparr>stf_flows := stf_flows stf @ [a]\<rparr>;
          stf2 = (case as_info of None \<Rightarrow> stf1 | Some info \<Rightarrow> stf1\<lparr>stf_addrsets := link_as_ip info a (stf_addrsets stf1)\<rparr>)
      in s1\<lparr>uuid_flow_table := AList.update sb_uuid stf2 (uuid_flow_table s1)\<rparr>)"

text \<open>Taking the link of flow \<open>a\<close> out of the lists of its record (\<open>flow_list\<close>, \<open>as_ip_flow_list\<close>).\<close>

definition unlink_as_ip :: "nat \<Rightarrow> addrset_ref list \<Rightarrow> addrset_ref list" where
  "unlink_as_ip a = map (\<lambda>(n, m). (n, map (\<lambda>(ip, fs). (ip, removeAll a fs)) m))"

definition unlink_stf :: "nat \<Rightarrow> sb_to_flow \<Rightarrow> sb_to_flow" where
  "unlink_stf a stf = \<lparr>stf_flows = remove1 a (stf_flows stf), stf_addrsets = unlink_as_ip a (stf_addrsets stf)\<rparr>"

section \<open>Looking up and adding flows\<close>

definition desired_flow_alloc :: "('m, 'a) ovn_flow \<Rightarrow> ('m, 'a) desired_flow" where
  "desired_flow_alloc f = \<lparr>df_flow = f, df_references = [], df_installed_flow = None, df_is_deleted = False\<rparr>"

definition desired_flow_lookup1 :: "(nat list \<Rightarrow> nat list) \<Rightarrow> (('m, 'a) desired_flow \<Rightarrow> bool) \<Rightarrow>
    ('m, 'a) ovn_desired_flow_table \<Rightarrow> ('m, 'a) ovn_flow \<Rightarrow> nat option" where
  "desired_flow_lookup1 visit match_cb s target =
     List.find (\<lambda>a. case ft_store s a of
         None \<Rightarrow> False
       | Some d \<Rightarrow> flow_key (df_flow d) = flow_key target \<and> fl_ctrl_meter_id (df_flow d) = fl_ctrl_meter_id target \<and> match_cb d)
       (visit (match_flow_table s))"

definition desired_flow_lookup :: "(nat list \<Rightarrow> nat list) \<Rightarrow> ('m, 'a) ovn_desired_flow_table \<Rightarrow> ('m, 'a) ovn_flow \<Rightarrow> nat option" where
  "desired_flow_lookup visit s target = desired_flow_lookup1 visit (\<lambda>_. True) s target"

definition flow_lookup_match_uuid_cb :: "uuid \<Rightarrow> ('m, 'a) desired_flow \<Rightarrow> bool" where
  "flow_lookup_match_uuid_cb sb_uuid d \<longleftrightarrow> list_ex (\<lambda>u. u = sb_uuid) (df_references d)"

definition desired_flow_lookup_check_uuid :: "(nat list \<Rightarrow> nat list) \<Rightarrow> ('m, 'a) ovn_desired_flow_table \<Rightarrow>
    ('m, 'a) ovn_flow \<Rightarrow> uuid \<Rightarrow> nat option" where
  "desired_flow_lookup_check_uuid visit s target sb_uuid =
     desired_flow_lookup1 visit (flow_lookup_match_uuid_cb sb_uuid) s target"

definition flow_lookup_match_conj_cb :: "('m, 'a) desired_flow \<Rightarrow> bool" where
  "flow_lookup_match_conj_cb d \<longleftrightarrow> flow_action_has_conj (df_flow d)"

definition desired_flow_lookup_conjunctive :: "(nat list \<Rightarrow> nat list) \<Rightarrow> ('m, 'a) ovn_desired_flow_table \<Rightarrow>
    ('m, 'a) ovn_flow \<Rightarrow> nat option" where
  "desired_flow_lookup_conjunctive visit s target = desired_flow_lookup1 visit flow_lookup_match_conj_cb s target"

text \<open>Insertion of a new flow into the store and the match index.\<close>

definition insert_flow :: "('m, 'a) ovn_flow \<Rightarrow> ('m, 'a) ovn_desired_flow_table \<Rightarrow> nat \<times> ('m, 'a) ovn_desired_flow_table" where
  "insert_flow f s = (ft_fresh s,
     s\<lparr>ft_store := (ft_store s)(ft_fresh s \<mapsto> desired_flow_alloc f), ft_fresh := Suc (ft_fresh s),
       match_flow_table := ft_fresh s # match_flow_table s\<rparr>)"

definition ofctrl_check_and_add_flow_metered :: "(nat list \<Rightarrow> nat list) \<Rightarrow> ('m, 'a) ovn_flow \<Rightarrow> uuid \<Rightarrow> addrset_info option \<Rightarrow>
    ('m, 'a) ovn_desired_flow_table \<Rightarrow> ('m, 'a) ovn_desired_flow_table" where
  "ofctrl_check_and_add_flow_metered visit f sb_uuid as_info s =
     (if desired_flow_lookup_check_uuid visit s f sb_uuid \<noteq> None then s
      else (let (a, s1) = insert_flow f s in
            track_flow_add_or_modify a (link_flow_to_sb a sb_uuid as_info s1)))"

definition ofctrl_add_flow_metered :: "(nat list \<Rightarrow> nat list) \<Rightarrow> ('m, 'a) ovn_flow \<Rightarrow> uuid \<Rightarrow> addrset_info option \<Rightarrow>
    ('m, 'a) ovn_desired_flow_table \<Rightarrow> ('m, 'a) ovn_desired_flow_table" where
  "ofctrl_add_flow_metered visit f sb_uuid as_info s = ofctrl_check_and_add_flow_metered visit f sb_uuid as_info s"

text \<open>The actions that \<open>ofctrl_add_or_append_flow\<close> appends: those not already among the existing conjunctions.\<close>

definition append_ofpacts :: "'a ofpact list \<Rightarrow> 'a ofpact list \<Rightarrow> 'a ofpact list" where
  "append_ofpacts old new =
     old @ filter (\<lambda>a. \<not> is_conjunction a \<or> a \<notin> set (filter is_conjunction old)) new"

definition unlink_as_ip_of :: "nat \<Rightarrow> uuid list \<Rightarrow> (uuid \<times> sb_to_flow) list \<Rightarrow> (uuid \<times> sb_to_flow) list" where
  "unlink_as_ip_of a us =
     map (\<lambda>(u, stf). (u, if u \<in> set us then stf\<lparr>stf_addrsets := unlink_as_ip a (stf_addrsets stf)\<rparr> else stf))"

definition ofctrl_add_or_append_flow :: "(nat list \<Rightarrow> nat list) \<Rightarrow> ('m, 'a) ovn_flow \<Rightarrow> uuid \<Rightarrow> addrset_info option \<Rightarrow>
    ('m, 'a) ovn_desired_flow_table \<Rightarrow> ('m, 'a) ovn_desired_flow_table option" where
  "ofctrl_add_or_append_flow visit f sb_uuid as_info s =
     (case desired_flow_lookup_conjunctive visit s f of
        Some e \<Rightarrow>
          do { d \<leftarrow> ft_store s e;
               let s1 = upd_flow e (\<lambda>d. d\<lparr>df_flow := (df_flow d)\<lparr>fl_ofpacts := append_ofpacts (fl_ofpacts (df_flow d)) (fl_ofpacts f)\<rparr>\<rparr>) s;
               let s2 = s1\<lparr>uuid_flow_table := unlink_as_ip_of e (df_references d) (uuid_flow_table s1)\<rparr>;
               Some (track_flow_add_or_modify e (link_flow_to_sb e sb_uuid None s2)) }
      | None \<Rightarrow>
          (let (a, s1) = insert_flow f s in
           Some (track_flow_add_or_modify a (link_flow_to_sb a sb_uuid as_info s1))))"

section \<open>Removing flows\<close>

text \<open>
  \<open>remove_flows_from_sb_to_flow\<close>.  The first loop frees the links of the record; flows without another link are
  removed, the others are collected when the removal floods.  \<open>busy\<close> are the flows with a non-empty \<open>list_node\<close>, those
  collected by this call and by the calls that wait for it.
\<close>

definition remove_flow :: "nat \<Rightarrow> ('m, 'a) ovn_desired_flow_table \<Rightarrow> ('m, 'a) ovn_desired_flow_table option" where
  "remove_flow a s = track_or_destroy_for_flow_del a (s\<lparr>match_flow_table := remove1 a (match_flow_table s)\<rparr>)"

fun drop_links :: "nat list \<Rightarrow> bool \<Rightarrow> uuid \<Rightarrow> nat list \<Rightarrow> nat list \<Rightarrow> ('m, 'a) ovn_desired_flow_table \<Rightarrow>
    (nat list \<times> ('m, 'a) ovn_desired_flow_table) option" where
  "drop_links busy flood u [] to_be_removed s = Some (to_be_removed, s)"
| "drop_links busy flood u (a # as) to_be_removed s =
     do { stf \<leftarrow> sb_to_flow_find (uuid_flow_table s) u;
          let s1 = upd_flow a (\<lambda>d. d\<lparr>df_references := remove1 u (df_references d)\<rparr>)
                (s\<lparr>uuid_flow_table := AList.update u (unlink_stf a stf) (uuid_flow_table s)\<rparr>);
          d \<leftarrow> ft_store s1 a;
          if a \<in> set busy \<or> a \<in> set to_be_removed then None
          else if df_references d = [] then
            do { s2 \<leftarrow> remove_flow a s1; drop_links busy flood u as to_be_removed s2 }
          else drop_links busy flood u as (if flood then to_be_removed @ [a] else to_be_removed) s1 }"

definition destroy_stf :: "uuid \<Rightarrow> ('m, 'a) ovn_desired_flow_table \<Rightarrow> ('m, 'a) ovn_desired_flow_table option" where
  "destroy_stf u s =
     do { stf \<leftarrow> sb_to_flow_find (uuid_flow_table s) u;
          if list_all (\<lambda>(_, m). list_all (\<lambda>(_, fs). fs = []) m) (stf_addrsets stf)
          then Some (s\<lparr>uuid_flow_table := AList.delete u (uuid_flow_table s)\<rparr>)
          else None }"

fun detach_links :: "nat \<Rightarrow> uuid list \<Rightarrow> ('m, 'a) ovn_desired_flow_table \<Rightarrow> ('m, 'a) ovn_desired_flow_table option" where
  "detach_links a [] s = Some s"
| "detach_links a (u # us) s =
     do { stf \<leftarrow> sb_to_flow_find (uuid_flow_table s) u;
          if a \<notin> set (stf_flows stf) then None
          else detach_links a us (s\<lparr>uuid_flow_table := AList.update u (unlink_stf a stf) (uuid_flow_table s)\<rparr>) }"

fun detach_flows :: "nat list \<Rightarrow> ('m, 'a) ovn_desired_flow_table \<Rightarrow> ('m, 'a) ovn_desired_flow_table option" where
  "detach_flows [] s = Some s"
| "detach_flows (a # as) s =
     do { d \<leftarrow> ft_store s a;
          if df_references d = [] then None
          else do { s1 \<leftarrow> detach_links a (df_references d) s; detach_flows as s1 } }"

fun flood_refs :: "(uuid \<Rightarrow> ('m, 'a) ovn_desired_flow_table \<times> uuid list \<Rightarrow> (('m, 'a) ovn_desired_flow_table \<times> uuid list) option) \<Rightarrow>
    nat \<Rightarrow> uuid list \<Rightarrow> ('m, 'a) ovn_desired_flow_table \<times> uuid list \<Rightarrow> (('m, 'a) ovn_desired_flow_table \<times> uuid list) option" where
  "flood_refs rec a [] (s, flood) = Some (s, flood)"
| "flood_refs rec a (u # us) (s, flood) =
     do { (s1, flood1) \<leftarrow> (if u \<in> set flood then Some (s, flood) else rec u (s, flood @ [u]));
          flood_refs rec a us (upd_flow a (\<lambda>d. d\<lparr>df_references := remove1 u (df_references d)\<rparr>) s1, flood1) }"

fun flood_flows :: "(uuid \<Rightarrow> ('m, 'a) ovn_desired_flow_table \<times> uuid list \<Rightarrow> (('m, 'a) ovn_desired_flow_table \<times> uuid list) option) \<Rightarrow>
    nat list \<Rightarrow> ('m, 'a) ovn_desired_flow_table \<times> uuid list \<Rightarrow> (('m, 'a) ovn_desired_flow_table \<times> uuid list) option" where
  "flood_flows rec [] (s, flood) = Some (s, flood)"
| "flood_flows rec (a # as) (s, flood) =
     do { d \<leftarrow> ft_store s a;
          (s1, flood1) \<leftarrow> flood_refs rec a (df_references d) (s, flood);
          s2 \<leftarrow> remove_flow a s1;
          flood_flows rec as (s2, flood1) }"

text \<open>
  \<open>flood_remove_flows_for_sb_uuid\<close> with \<open>remove_flows_from_sb_to_flow\<close> in its flooding form.  The first argument bounds
  the depth of the recursion; running out of it is \<open>None\<close>.
\<close>

fun flood_remove_flows_for_sb_uuid :: "nat \<Rightarrow> nat list \<Rightarrow> uuid \<Rightarrow> ('m, 'a) ovn_desired_flow_table \<times> uuid list \<Rightarrow>
    (('m, 'a) ovn_desired_flow_table \<times> uuid list) option" where
  "flood_remove_flows_for_sb_uuid 0 busy u (s, flood) = None"
| "flood_remove_flows_for_sb_uuid (Suc fuel) busy u (s, flood) =
     (case sb_to_flow_find (uuid_flow_table s) u of
        None \<Rightarrow> Some (s, flood)
      | Some stf \<Rightarrow>
          do { (to_be_removed, s1) \<leftarrow> drop_links busy True u (stf_flows stf) [] s;
               s2 \<leftarrow> destroy_stf u s1;
               s3 \<leftarrow> detach_flows to_be_removed s2;
               flood_flows (flood_remove_flows_for_sb_uuid fuel (busy @ to_be_removed)) to_be_removed (s3, flood) })"

fun flood_loop :: "nat \<Rightarrow> uuid list \<Rightarrow> ('m, 'a) ovn_desired_flow_table \<times> uuid list \<Rightarrow>
    (('m, 'a) ovn_desired_flow_table \<times> uuid list) option" where
  "flood_loop fuel [] r = Some r"
| "flood_loop fuel (u # us) r = do { r1 \<leftarrow> flood_remove_flows_for_sb_uuid fuel [] u r; flood_loop fuel us r1 }"

text \<open>The non-flooding form, for one record.\<close>

definition remove_flows_from_sb_to_flow :: "uuid \<Rightarrow> ('m, 'a) ovn_desired_flow_table \<Rightarrow> ('m, 'a) ovn_desired_flow_table option" where
  "remove_flows_from_sb_to_flow u s =
     do { stf \<leftarrow> sb_to_flow_find (uuid_flow_table s) u;
          (_, s1) \<leftarrow> drop_links [] False u (stf_flows stf) [] s;
          destroy_stf u s1 }"

definition ofctrl_remove_flows :: "'p id_pool_ops \<Rightarrow> uuid \<Rightarrow> ('m, 'a) ovn_desired_flow_table \<times> 'p ovn_extend_table \<times> 'p ovn_extend_table \<Rightarrow>
    (('m, 'a) ovn_desired_flow_table \<times> 'p ovn_extend_table \<times> 'p ovn_extend_table) option" where
  "ofctrl_remove_flows P sb_uuid = (\<lambda>(s, group_table, meter_table).
     do { s1 \<leftarrow> (case sb_to_flow_find (uuid_flow_table s) sb_uuid of None \<Rightarrow> Some s | Some _ \<Rightarrow> remove_flows_from_sb_to_flow sb_uuid s);
          group_table1 \<leftarrow> ovn_extend_table_remove_desired P group_table sb_uuid;
          meter_table1 \<leftarrow> ovn_extend_table_remove_desired P meter_table sb_uuid;
          Some (s1, group_table1, meter_table1) })"

fun remove_desired_all :: "'p id_pool_ops \<Rightarrow> uuid list \<Rightarrow> 'p ovn_extend_table \<times> 'p ovn_extend_table \<Rightarrow>
    ('p ovn_extend_table \<times> 'p ovn_extend_table) option" where
  "remove_desired_all P [] t = Some t"
| "remove_desired_all P (u # us) (group_table, meter_table) =
     do { group_table1 \<leftarrow> ovn_extend_table_remove_desired P group_table u;
          meter_table1 \<leftarrow> ovn_extend_table_remove_desired P meter_table u;
          remove_desired_all P us (group_table1, meter_table1) }"

text \<open>The recursion cannot be deeper than the number of records with flows; one more call sees that the record is gone.\<close>

definition ofctrl_flood_remove_flows :: "'p id_pool_ops \<Rightarrow> uuid list \<Rightarrow>
    ('m, 'a) ovn_desired_flow_table \<times> 'p ovn_extend_table \<times> 'p ovn_extend_table \<Rightarrow>
    (uuid list \<times> ('m, 'a) ovn_desired_flow_table \<times> 'p ovn_extend_table \<times> 'p ovn_extend_table) option" where
  "ofctrl_flood_remove_flows P flood_remove_nodes = (\<lambda>(s, group_table, meter_table).
     do { (s1, flood) \<leftarrow> flood_loop (Suc (length (uuid_flow_table s))) flood_remove_nodes (s, flood_remove_nodes);
          (group_table1, meter_table1) \<leftarrow> remove_desired_all P flood (group_table, meter_table);
          Some (flood, s1, group_table1, meter_table1) })"

text \<open>\<open>ofctrl_remove_flows_for_as_ip\<close>.\<close>

fun remove_as_ip_loop :: "uuid \<Rightarrow> nat list \<Rightarrow> ('m, 'a) ovn_desired_flow_table \<Rightarrow> ('m, 'a) ovn_desired_flow_table option" where
  "remove_as_ip_loop u [] s = Some s"
| "remove_as_ip_loop u (a # as) s =
     do { stf \<leftarrow> sb_to_flow_find (uuid_flow_table s) u;
          d \<leftarrow> ft_store s a;
          if length (df_references d) > 1 then None
          else (let s1 = upd_flow a (\<lambda>d. d\<lparr>df_references := remove1 u (df_references d)\<rparr>)
                  (s\<lparr>uuid_flow_table := AList.update u (unlink_stf a stf) (uuid_flow_table s)\<rparr>)
                in do { d1 \<leftarrow> ft_store s1 a;
                        if df_references d1 \<noteq> [] then None
                        else do { s2 \<leftarrow> remove_flow a s1; remove_as_ip_loop u as s2 } }) }"

definition ofctrl_remove_flows_for_as_ip :: "uuid \<Rightarrow> addrset_info \<Rightarrow> nat \<Rightarrow> ('m, 'a) ovn_desired_flow_table \<Rightarrow>
    (bool \<times> ('m, 'a) ovn_desired_flow_table) option" where
  "ofctrl_remove_flows_for_as_ip lflow_uuid info expected_count s =
     (case sb_to_flow_find (uuid_flow_table s) lflow_uuid of
        None \<Rightarrow> Some (True, s)
      | Some stf \<Rightarrow>
          (case map_of (stf_addrsets stf) (as_name info) of
             None \<Rightarrow> Some (False, s)
           | Some m \<Rightarrow>
               (case as_ip_to_flow_find m (as_ip info) (as_mask info) of
                  None \<Rightarrow> Some (False, s)
                | Some flows \<Rightarrow>
                    do { s1 \<leftarrow> remove_as_ip_loop lflow_uuid flows s;
                         stf1 \<leftarrow> sb_to_flow_find (uuid_flow_table s1) lflow_uuid;
                         m1 \<leftarrow> map_of (stf_addrsets stf1) (as_name info);
                         Some (length flows = expected_count,
                           s1\<lparr>uuid_flow_table := AList.update lflow_uuid
                             (stf1\<lparr>stf_addrsets := AList.update (as_name info) (AList.delete (as_ip info, as_mask info) m1) (stf_addrsets stf1)\<rparr>)
                             (uuid_flow_table s1)\<rparr>) })))"

section \<open>The table\<close>

definition ovn_desired_flow_table_init :: "('m, 'a) ovn_desired_flow_table" where
  "ovn_desired_flow_table_init = \<lparr>ft_store = Map.empty, ft_fresh = 0, match_flow_table = [], uuid_flow_table = [],
     change_tracked = False, tracked_flows = [], installed_flows = []\<rparr>"

fun clear_tracked :: "nat list \<Rightarrow> ('m, 'a) ovn_desired_flow_table \<Rightarrow> ('m, 'a) ovn_desired_flow_table option" where
  "clear_tracked [] s = Some s"
| "clear_tracked (a # as) s =
     do { let s1 = s\<lparr>tracked_flows := remove1 a (tracked_flows s)\<rparr>;
          d \<leftarrow> ft_store s1 a;
          if df_is_deleted d then
            do { s2 \<leftarrow> (case df_installed_flow d of
                         Some k \<Rightarrow> map_option snd (unlink_installed_to_desired k a s1)
                       | None \<Rightarrow> Some s1);
                 s3 \<leftarrow> desired_flow_destroy a s2;
                 clear_tracked as s3 }
          else clear_tracked as s1 }"

fun clear_records :: "uuid list \<Rightarrow> ('m, 'a) ovn_desired_flow_table \<Rightarrow> ('m, 'a) ovn_desired_flow_table option" where
  "clear_records [] s = Some s"
| "clear_records (u # us) s = do { s1 \<leftarrow> remove_flows_from_sb_to_flow u s; clear_records us s1 }"

definition ovn_desired_flow_table_clear :: "('m, 'a) ovn_desired_flow_table \<Rightarrow> ('m, 'a) ovn_desired_flow_table option" where
  "ovn_desired_flow_table_clear s =
     do { s1 \<leftarrow> clear_tracked (tracked_flows s) (s\<lparr>change_tracked := False\<rparr>);
          clear_records (map fst (uuid_flow_table s1)) s1 }"

end
