(* ===== verification/Flow_Flood.thy ===== *)
theory Flow_Flood
  imports Flow_Table
begin

text \<open>
  Correctness of the links between flows and database records, and of the flooding removal of \<open>controller/ofctrl.c\<close>.

  The invariant \<open>links_ok\<close> is stated for a table from which some flows are detached: those that the calls of
  \<open>remove_flows_from_sb_to_flow\<close> in progress have taken out of the lists of their records and will remove when the
  recursion returns.  The relation \<open>flooded\<close> says what a part of the removal does; it composes, and for the whole removal
  it says that exactly the flows of the flooded records are gone.
\<close>

section \<open>The links\<close>

definition refs :: "('m, 'a) ovn_desired_flow_table \<Rightarrow> nat \<Rightarrow> uuid list" where
  "refs s a = (case ft_store s a of None \<Rightarrow> [] | Some d \<Rightarrow> df_references d)"

definition as_flows :: "sb_to_flow \<Rightarrow> nat set" where
  "as_flows stf = (\<Union>(n, m) \<in> set (stf_addrsets stf). \<Union>(ip, fs) \<in> set m. set fs)"

definition as_distinct :: "sb_to_flow \<Rightarrow> bool" where
  "as_distinct stf \<longleftrightarrow> distinct (map fst (stf_addrsets stf)) \<and>
     (\<forall>(n, m) \<in> set (stf_addrsets stf). distinct (map fst m) \<and> (\<forall>(ip, fs) \<in> set m. distinct fs))"

definition links_ok :: "nat set \<Rightarrow> uuid set \<Rightarrow> ('m, 'a) ovn_desired_flow_table \<Rightarrow> bool" where
  "links_ok D F s \<longleftrightarrow>
     distinct (match_flow_table s) \<and> distinct (map fst (uuid_flow_table s)) \<and>
     (\<forall>a \<in> set (match_flow_table s). ft_store s a \<noteq> None \<and> distinct (refs s a) \<and> (a \<notin> D \<longrightarrow> refs s a \<noteq> [])) \<and>
     (\<forall>u stf. map_of (uuid_flow_table s) u = Some stf \<longrightarrow>
        distinct (stf_flows stf) \<and> set (stf_flows stf) = {a \<in> set (match_flow_table s). a \<notin> D \<and> u \<in> set (refs s a)} \<and>
        (\<forall>a \<in> as_flows stf. a \<in> set (stf_flows stf) \<and> refs s a = [u]) \<and> as_distinct stf) \<and>
     (\<forall>a \<in> set (match_flow_table s). \<forall>u \<in> set (refs s a). map_of (uuid_flow_table s) u \<noteq> None \<or> a \<in> D \<and> u \<in> F)"

text \<open>
  The rest of the table: a flow that is linked to an installed flow is linked to one that exists; addresses are not used
  again; the list of tracked changes holds flows that exist, and a flow marked as deleted has no links and is not in the
  match index.
\<close>

definition inst_ok :: "('m, 'a) ovn_desired_flow_table \<Rightarrow> bool" where
  "inst_ok s \<longleftrightarrow>
     (\<forall>a d k. ft_store s a = Some d \<longrightarrow> df_installed_flow d = Some k \<longrightarrow> map_of (installed_flows s) k \<noteq> None) \<and>
     (\<forall>a. ft_fresh s \<le> a \<longrightarrow> ft_store s a = None) \<and>
     distinct (tracked_flows s) \<and> (\<forall>a \<in> set (tracked_flows s). ft_store s a \<noteq> None) \<and>
     (\<not> change_tracked s \<longrightarrow> tracked_flows s = []) \<and>
     (\<forall>a d. ft_store s a = Some d \<longrightarrow> df_is_deleted d \<longrightarrow> df_references d = [] \<and> a \<notin> set (match_flow_table s))"

lemma inst_okD: "inst_ok s \<Longrightarrow> ft_store s a = Some d \<Longrightarrow> df_installed_flow d = Some k \<Longrightarrow> \<exists>i. map_of (installed_flows s) k = Some i"
  unfolding inst_ok_def by blast

lemma inst_ok_tracked:
  "inst_ok s \<Longrightarrow> ft_fresh s \<le> a \<Longrightarrow> ft_store s a = None" "inst_ok s \<Longrightarrow> distinct (tracked_flows s)"
  "inst_ok s \<Longrightarrow> a \<in> set (tracked_flows s) \<Longrightarrow> ft_store s a \<noteq> None" "inst_ok s \<Longrightarrow> \<not> change_tracked s \<Longrightarrow> tracked_flows s = []"
  "inst_ok s \<Longrightarrow> ft_store s a = Some d \<Longrightarrow> df_is_deleted d \<Longrightarrow> df_references d = [] \<and> a \<notin> set (match_flow_table s)"
  unfolding inst_ok_def by blast+

lemma inst_ok_uuid [simp]: "inst_ok (s\<lparr>uuid_flow_table := t\<rparr>) = inst_ok s"
  by (simp add: inst_ok_def)

lemma links_okD:
  assumes "links_ok D F s"
  shows "distinct (match_flow_table s)" "distinct (map fst (uuid_flow_table s))"
    "a \<in> set (match_flow_table s) \<Longrightarrow> ft_store s a \<noteq> None \<and> distinct (refs s a) \<and> (a \<notin> D \<longrightarrow> refs s a \<noteq> [])"
    "map_of (uuid_flow_table s) u = Some stf \<Longrightarrow> distinct (stf_flows stf)"
    "map_of (uuid_flow_table s) u = Some stf \<Longrightarrow>
       b \<in> set (stf_flows stf) \<longleftrightarrow> b \<in> set (match_flow_table s) \<and> b \<notin> D \<and> u \<in> set (refs s b)"
    "map_of (uuid_flow_table s) u = Some stf \<Longrightarrow> b \<in> as_flows stf \<Longrightarrow> b \<in> set (stf_flows stf) \<and> refs s b = [u]"
    "a \<in> set (match_flow_table s) \<Longrightarrow> u \<in> set (refs s a) \<Longrightarrow> map_of (uuid_flow_table s) u \<noteq> None \<or> a \<in> D \<and> u \<in> F"
    "map_of (uuid_flow_table s) u = Some stf \<Longrightarrow> as_distinct stf"
  using assms unfolding links_ok_def by blast+

lemma links_okI:
  assumes "distinct (match_flow_table s)" "distinct (map fst (uuid_flow_table s))"
    and "\<And>a. a \<in> set (match_flow_table s) \<Longrightarrow> ft_store s a \<noteq> None \<and> distinct (refs s a) \<and> (a \<notin> D \<longrightarrow> refs s a \<noteq> [])"
    and "\<And>u stf. map_of (uuid_flow_table s) u = Some stf \<Longrightarrow> distinct (stf_flows stf)"
    and "\<And>u stf b. map_of (uuid_flow_table s) u = Some stf \<Longrightarrow>
       b \<in> set (stf_flows stf) \<longleftrightarrow> b \<in> set (match_flow_table s) \<and> b \<notin> D \<and> u \<in> set (refs s b)"
    and "\<And>u stf b. map_of (uuid_flow_table s) u = Some stf \<Longrightarrow> b \<in> as_flows stf \<Longrightarrow> b \<in> set (stf_flows stf) \<and> refs s b = [u]"
    and "\<And>a u. a \<in> set (match_flow_table s) \<Longrightarrow> u \<in> set (refs s a) \<Longrightarrow> map_of (uuid_flow_table s) u \<noteq> None \<or> a \<in> D \<and> u \<in> F"
    and "\<And>u stf. map_of (uuid_flow_table s) u = Some stf \<Longrightarrow> as_distinct stf"
  shows "links_ok D F s"
  using assms unfolding links_ok_def by blast

lemma upd_flow_sel [simp]:
  "match_flow_table (upd_flow a g s) = match_flow_table s" "uuid_flow_table (upd_flow a g s) = uuid_flow_table s"
  "installed_flows (upd_flow a g s) = installed_flows s" "change_tracked (upd_flow a g s) = change_tracked s"
  "tracked_flows (upd_flow a g s) = tracked_flows s" "ft_fresh (upd_flow a g s) = ft_fresh s"
  "ft_store (upd_flow a g s) b = (if b = a then map_option g (ft_store s a) else ft_store s b)"
  by (simp_all add: upd_flow_def)

lemma inst_ok_drop:
  assumes "inst_ok s"
  shows "inst_ok (upd_flow a (\<lambda>d. d\<lparr>df_references := remove1 u (df_references d)\<rparr>) s)"
  using assms unfolding inst_ok_def by (simp split: if_splits) (fastforce)

lemma refs_cong: "ft_store s a = ft_store t a \<Longrightarrow> refs s a = refs t a"
  by (simp add: refs_def)

lemma refs_upd:
  "(\<And>d. df_references (g d) = h (df_references d)) \<Longrightarrow> h [] = [] \<Longrightarrow>
     refs (upd_flow a g s) b = (if b = a then h (refs s a) else refs s b)"
  by (auto simp: refs_def split: option.splits)

lemma refs_drop [simp]:
  "refs (upd_flow a (\<lambda>d. d\<lparr>df_references := remove1 u (df_references d)\<rparr>) s) b = (if b = a then remove1 u (refs s a) else refs s b)"
  by (rule refs_upd) simp_all

lemma refs_sel [simp]:
  "refs (s\<lparr>uuid_flow_table := t\<rparr>) = refs s" "refs (s\<lparr>match_flow_table := ms\<rparr>) = refs s"
  "refs (s\<lparr>tracked_flows := ts\<rparr>) = refs s" "refs (s\<lparr>installed_flows := is\<rparr>) = refs s" "refs (s\<lparr>change_tracked := c\<rparr>) = refs s"
  by (simp_all add: refs_def fun_eq_iff)

lemma in_as_flows: "a \<in> as_flows stf \<longleftrightarrow> (\<exists>n m ip fs. (n, m) \<in> set (stf_addrsets stf) \<and> (ip, fs) \<in> set m \<and> a \<in> set fs)"
  unfolding as_flows_def by fastforce

lemma as_flows_unlink [simp]: "as_flows (unlink_stf a stf) = as_flows stf - {a}"
proof (intro set_eqI iffI)
  fix b assume "b \<in> as_flows (unlink_stf a stf)"
  then show "b \<in> as_flows stf - {a}" by (auto simp: in_as_flows unlink_stf_def unlink_as_ip_def) blast
next
  fix b assume "b \<in> as_flows stf - {a}"
  then obtain n m ip fs where b: "(n, m) \<in> set (stf_addrsets stf)" "(ip, fs) \<in> set m" "b \<in> set fs" "b \<noteq> a"
    by (auto simp: in_as_flows)
  let ?m = "map (\<lambda>(ip, fs). (ip, removeAll a fs)) m"
  have "(n, ?m) \<in> set (stf_addrsets (unlink_stf a stf))" using b(1) by (force simp: unlink_stf_def unlink_as_ip_def)
  moreover have "(ip, removeAll a fs) \<in> set ?m" using b(2) by force
  ultimately show "b \<in> as_flows (unlink_stf a stf)" unfolding in_as_flows using b(3,4) by (metis set_removeAll Diff_iff singletonD)
qed

lemma as_distinct_unlink [simp]:
  assumes "as_distinct stf"
  shows "as_distinct (unlink_stf a stf)"
proof -
  have keys: "map fst (unlink_as_ip a xs) = map fst xs" for xs by (induction xs) (auto simp: unlink_as_ip_def)
  have "distinct (map fst m') \<and> (\<forall>(ip, fs) \<in> set m'. distinct fs)" if m': "(n, m') \<in> set (unlink_as_ip a (stf_addrsets stf))" for n m'
  proof -
    obtain m where m: "(n, m) \<in> set (stf_addrsets stf)" "m' = map (\<lambda>(ip, fs). (ip, removeAll a fs)) m"
      using m' by (auto simp: unlink_as_ip_def)
    then have "distinct (map fst m)" "\<forall>(ip, fs) \<in> set m. distinct fs" using assms by (auto simp: as_distinct_def)
    moreover have "map fst m' = map fst m" unfolding m(2) by (induction m) auto
    moreover have "\<forall>(ip, fs) \<in> set m'. distinct fs" using calculation(2) by (auto simp: m(2) distinct_removeAll)
    ultimately show ?thesis by simp
  qed
  then have "\<forall>(n, m') \<in> set (unlink_as_ip a (stf_addrsets stf)). distinct (map fst m') \<and> (\<forall>(ip, fs) \<in> set m'. distinct fs)" by blast
  then show ?thesis using assms keys [of "stf_addrsets stf"] by (simp add: as_distinct_def unlink_stf_def)
qed

lemma unlink_stf_flows [simp]: "stf_flows (unlink_stf a stf) = remove1 a (stf_flows stf)"
  by (simp add: unlink_stf_def)

lemma map_of_alist_upd [simp]:
  "map_of (AList.update k v t) = (map_of t)(k \<mapsto> v)" "map_of (AList.delete k t) = (map_of t)(k := None)"
  by (simp_all add: update_conv' delete_conv')

section \<open>Removing one flow\<close>

lemma inst_ok_destroyed:
  assumes "inst_ok s" "\<forall>b. b \<noteq> a \<longrightarrow> ft_store t b = ft_store s b" "ft_store t a = None" "ft_fresh t = ft_fresh s"
    "change_tracked t = change_tracked s" "tracked_flows t = remove1 a (tracked_flows s)"
    "set (match_flow_table t) \<subseteq> set (match_flow_table s)"
    "\<forall>k. map_of (installed_flows s) k \<noteq> None \<longrightarrow> map_of (installed_flows t) k \<noteq> None"
  shows "inst_ok t"
proof -
  have st: "ft_store t b = Some d \<longleftrightarrow> b \<noteq> a \<and> ft_store s b = Some d" for b d using assms(2,3) by (cases "b = a") auto
  have tr: "set (tracked_flows t) = set (tracked_flows s) - {a}" using assms(1,6) by (simp add: inst_ok_def)
  show ?thesis
    unfolding inst_ok_def st
  proof (intro conjI allI impI ballI)
    show "distinct (tracked_flows t)" using inst_ok_tracked(2) [OF assms(1)] by (simp add: assms(6))
    show "ft_store t b = None" if "ft_fresh t \<le> b" for b
      using that assms(2,3,4) inst_ok_tracked(1) [OF assms(1), of b] by (cases "b = a") auto
    show "ft_store t b \<noteq> None" if "b \<in> set (tracked_flows t)" for b
      using that inst_ok_tracked(3) [OF assms(1), of b] assms(2) tr by auto
    show "tracked_flows t = []" if "\<not> change_tracked t" using that inst_ok_tracked(4) [OF assms(1)] assms(5,6) by simp
    fix b d assume b: "b \<noteq> a \<and> ft_store s b = Some d"
    show "map_of (installed_flows t) k \<noteq> None" if "df_installed_flow d = Some k" for k
      using inst_okD [OF assms(1) _ that] b assms(8) by blast
    show "df_references d = []" "b \<notin> set (match_flow_table t)" if "df_is_deleted d"
      using inst_ok_tracked(5) [OF assms(1) _ that] b assms(7) by auto
  qed
qed

lemma remove_flow_ok:
  assumes "inst_ok s" "ft_store s a = Some d" "df_references d = []" "distinct (match_flow_table s)"
  shows "\<exists>s'. remove_flow a s = Some s' \<and> inst_ok s' \<and> match_flow_table s' = remove1 a (match_flow_table s) \<and>
    uuid_flow_table s' = uuid_flow_table s \<and> (\<forall>b. b \<noteq> a \<longrightarrow> ft_store s' b = ft_store s b)"
proof -
  let ?m = "remove1 a (match_flow_table s)"
  consider (marked) "change_tracked s" "a \<notin> set (tracked_flows s) \<or> df_installed_flow d \<noteq> None"
    | (fresh) "change_tracked s" "a \<in> set (tracked_flows s)" "df_installed_flow d = None"
    | (none) "\<not> change_tracked s" "df_installed_flow d = None"
    | (linked) k where "\<not> change_tracked s" "df_installed_flow d = Some k" by fastforce
  then show ?thesis
  proof cases
    case marked
    let ?s = "upd_flow a (\<lambda>d. d\<lparr>df_is_deleted := True\<rparr>) (s\<lparr>match_flow_table := ?m, tracked_flows := remove1 a (tracked_flows s) @ [a]\<rparr>)"
    have "remove_flow a s = Some ?s" using marked assms(2)
      by (auto simp: remove_flow_def track_or_destroy_for_flow_del_def track_flow_del_def Let_def upd_flow_def)
    moreover have "inst_ok ?s" using assms marked(1) unfolding inst_ok_def
      by (auto split: if_splits dest: set_remove1_subset [THEN subsetD])
    ultimately show ?thesis by (auto intro!: exI [of _ ?s])
  next
    case fresh
    let ?s = "s\<lparr>match_flow_table := ?m, tracked_flows := remove1 a (tracked_flows s), ft_store := (ft_store s)(a := None)\<rparr>"
    have "remove_flow a s = Some ?s" using fresh assms(2,3)
      by (auto simp: remove_flow_def track_or_destroy_for_flow_del_def track_flow_del_def desired_flow_destroy_def Let_def)
    moreover have "inst_ok ?s" by (rule inst_ok_destroyed [OF assms(1)]) (auto dest: set_remove1_subset [THEN subsetD])
    ultimately show ?thesis by (auto intro!: exI [of _ ?s])
  next
    case none
    let ?s = "s\<lparr>match_flow_table := ?m, ft_store := (ft_store s)(a := None)\<rparr>"
    have "remove_flow a s = Some ?s" using none assms(2,3)
      by (simp add: remove_flow_def track_or_destroy_for_flow_del_def desired_flow_destroy_def)
    moreover have "inst_ok ?s" by (rule inst_ok_destroyed [OF assms(1)])
        (use inst_ok_tracked(4) [OF assms(1) none(1)] in \<open>auto dest: set_remove1_subset [THEN subsetD]\<close>)
    ultimately show ?thesis by (auto intro!: exI [of _ ?s])
  next
    case (linked k)
    then obtain i where i: "map_of (installed_flows s) k = Some i" using inst_okD [OF assms(1,2)] by blast
    then obtain s' where s': "remove_flow a s = Some s'" "match_flow_table s' = ?m" "uuid_flow_table s' = uuid_flow_table s"
      "\<forall>b. b \<noteq> a \<longrightarrow> ft_store s' b = ft_store s b" "ft_store s' a = None" "ft_fresh s' = ft_fresh s" "change_tracked s' = change_tracked s"
      "tracked_flows s' = tracked_flows s" "\<forall>k. map_of (installed_flows s) k \<noteq> None \<longrightarrow> map_of (installed_flows s') k \<noteq> None"
      using linked assms(2,3)
      by (simp add: remove_flow_def track_or_destroy_for_flow_del_def desired_flow_destroy_def unlink_installed_to_desired_def)
    have "inst_ok s'" by (rule inst_ok_destroyed [OF assms(1) s'(4,5,6,7) _ _ s'(9)])
        (use s'(2,8) inst_ok_tracked(4) [OF assms(1) linked(1)] in \<open>auto dest: set_remove1_subset [THEN subsetD]\<close>)
    then show ?thesis using s' by blast
  qed
qed

section \<open>Dropping the links of a record\<close>

text \<open>Unlinking flow \<open>a\<close> and record \<open>u\<close> in both directions, and removing the flow with its last link.\<close>

definition unlink1 :: "uuid \<Rightarrow> sb_to_flow \<Rightarrow> nat \<Rightarrow> ('m, 'a) ovn_desired_flow_table \<Rightarrow> ('m, 'a) ovn_desired_flow_table" where
  "unlink1 u stf a s = upd_flow a (\<lambda>d. d\<lparr>df_references := remove1 u (df_references d)\<rparr>)
     (s\<lparr>uuid_flow_table := AList.update u (unlink_stf a stf) (uuid_flow_table s)\<rparr>)"

lemma unlink1_sel [simp]:
  "match_flow_table (unlink1 u stf a s) = match_flow_table s"
  "map_of (uuid_flow_table (unlink1 u stf a s)) = (map_of (uuid_flow_table s))(u \<mapsto> unlink_stf a stf)"
  "ft_store (unlink1 u stf a s) b = (if b = a then map_option (\<lambda>d. d\<lparr>df_references := remove1 u (df_references d)\<rparr>) (ft_store s a)
     else ft_store s b)"
  "refs (unlink1 u stf a s) b = (if b = a then remove1 u (refs s a) else refs s b)"
  by (simp_all add: unlink1_def)

lemma inst_ok_unlink1: "inst_ok s \<Longrightarrow> inst_ok (unlink1 u stf a s)"
  unfolding unlink1_def by (rule inst_ok_drop) simp

lemma unlink1_keys: "distinct (map fst (uuid_flow_table s)) \<Longrightarrow> distinct (map fst (uuid_flow_table (unlink1 u stf a s)))"
  by (simp add: unlink1_def distinct_update)

text \<open>Taking \<open>a\<close> out of the match index when its last link is gone, or keeping it.\<close>

lemma links_ok_unlink1:
  assumes ok: "links_ok D F s" and u: "map_of (uuid_flow_table s) u = Some stf" and a: "a \<in> set (stf_flows stf)"
    and t: "match_flow_table t = (if remove1 u (refs s a) = [] then remove1 a (match_flow_table s) else match_flow_table s)"
      "uuid_flow_table t = uuid_flow_table (unlink1 u stf a s)" "\<And>b. b \<noteq> a \<Longrightarrow> ft_store t b = ft_store s b"
      "remove1 u (refs s a) \<noteq> [] \<Longrightarrow> ft_store t a = ft_store (unlink1 u stf a s) a"
  shows "links_ok D F t"
proof -
  have am: "a \<in> set (match_flow_table s)" "a \<notin> D" "u \<in> set (refs s a)" using links_okD(5) [OF ok u] a by auto
  have dist: "distinct (match_flow_table s)" "distinct (stf_flows stf)" "distinct (refs s a)"
    using links_okD(1,3,4) [OF ok] u am by auto
  have other: "refs t b = refs s b" if "b \<noteq> a" for b using t(3) [OF that] by (rule refs_cong)
  have kept: "remove1 u (refs s a) \<noteq> [] \<and> refs t a = remove1 u (refs s a)" if "a \<in> set (match_flow_table t)"
    using that t(1) dist(1) t(4) by (auto simp: refs_def split: if_splits option.splits)
  have mt: "b \<in> set (match_flow_table t) \<longleftrightarrow> b \<in> set (match_flow_table s) \<and> (b = a \<longrightarrow> remove1 u (refs s a) \<noteq> [])" for b
    using t(1) dist(1) by (auto split: if_splits)
  have urefs: "v \<in> set (refs t a) \<longleftrightarrow> v \<in> set (refs s a) \<and> v \<noteq> u" if "a \<in> set (match_flow_table t)" for v
    using kept [OF that] dist(3) by auto
  have gone: "remove1 u (refs s a) = [] \<longleftrightarrow> refs s a = [u]" using am(3) by (cases "refs s a") auto
  have tab: "map_of (uuid_flow_table t) = (map_of (uuid_flow_table s))(u \<mapsto> unlink_stf a stf)" by (simp add: t(2))
  show ?thesis
  proof (rule links_okI)
    show "distinct (match_flow_table t)" using dist(1) t(1) by auto
    show "distinct (map fst (uuid_flow_table t))" using links_okD(2) [OF ok] by (simp add: t(2) unlink1_keys)
    show "ft_store t b \<noteq> None \<and> distinct (refs t b) \<and> (b \<notin> D \<longrightarrow> refs t b \<noteq> [])" if "b \<in> set (match_flow_table t)" for b
    proof (cases "b = a")
      case True
      then show ?thesis using that kept dist(3) t(4) links_okD(3) [OF ok am(1)] by auto
    next
      case False
      then show ?thesis using that mt other t(3) links_okD(3) [OF ok, of b] by auto
    qed
    fix v stf' assume v: "map_of (uuid_flow_table t) v = Some stf'"
    show "as_distinct stf'"
      using v links_okD(8) [OF ok u] links_okD(8) [OF ok, of v stf'] by (auto simp: tab split: if_splits)
    show "distinct (stf_flows stf')"
      using v dist(2) links_okD(4) [OF ok, of v stf'] by (auto simp: tab split: if_splits)
    show "b \<in> set (stf_flows stf') \<longleftrightarrow> b \<in> set (match_flow_table t) \<and> b \<notin> D \<and> v \<in> set (refs t b)" for b
    proof (cases "v = u")
      case True
      then have "b \<in> set (stf_flows stf') \<longleftrightarrow> b \<in> set (stf_flows stf) \<and> b \<noteq> a" using v dist(2) by (auto simp: tab)
      then show ?thesis using True links_okD(5) [OF ok u, of b] urefs other mt by metis
    next
      case False
      then have "b \<in> set (stf_flows stf') \<longleftrightarrow> b \<in> set (match_flow_table s) \<and> b \<notin> D \<and> v \<in> set (refs s b)"
        using v links_okD(5) [OF ok, of v stf' b] by (simp add: tab)
      then show ?thesis using False urefs other mt gone by (metis empty_iff empty_set insert_iff list.simps(15))
    qed
    show "b \<in> set (stf_flows stf') \<and> refs t b = [v]" if b: "b \<in> as_flows stf'" for b
    proof (cases "v = u")
      case True
      then have "stf' = unlink_stf a stf" using v by (simp add: tab)
      then show ?thesis using b True links_okD(6) [OF ok u, of b] other dist(2) by auto
    next
      case False
      then have "b \<in> set (stf_flows stf')" "refs s b = [v]" using v b links_okD(6) [OF ok, of v stf' b] by (simp_all add: tab)
      moreover have "b \<noteq> a" using calculation(2) am(3) False by auto
      ultimately show ?thesis using other by simp
    qed
  next
    fix b v assume b: "b \<in> set (match_flow_table t)" "v \<in> set (refs t b)"
    then have "v \<in> set (refs s b)" "b \<in> set (match_flow_table s)" using mt urefs other by (metis, metis)
    then show "map_of (uuid_flow_table t) v \<noteq> None \<or> b \<in> D \<and> v \<in> F"
      using links_okD(7) [OF ok, of b v] by (auto simp: tab)
  qed
qed

text \<open>One round of \<open>drop_links\<close>.\<close>

abbreviation dropped :: "uuid \<Rightarrow> ('m, 'a) desired_flow \<Rightarrow> ('m, 'a) desired_flow" where
  "dropped u d \<equiv> d\<lparr>df_references := remove1 u (df_references d)\<rparr>"

lemma refs_dropped: "ft_store s' a = map_option (dropped u) (ft_store s a) \<Longrightarrow> refs s' a = remove1 u (refs s a)"
  by (simp add: refs_def split: option.splits)

lemma remove_last_link:
  assumes "links_ok D F s" "inst_ok s" "map_of (uuid_flow_table s) u = Some stf" "a \<in> set (stf_flows stf)" "refs s a = [u]"
  shows "\<exists>s'. remove_flow a (unlink1 u stf a s) = Some s' \<and> links_ok D F s' \<and> inst_ok s' \<and>
    match_flow_table s' = remove1 a (match_flow_table s) \<and> uuid_flow_table s' = uuid_flow_table (unlink1 u stf a s) \<and>
    (\<forall>b. b \<noteq> a \<longrightarrow> ft_store s' b = ft_store s b)"
proof -
  have a: "a \<in> set (match_flow_table s)" using links_okD(5) [OF assms(1,3)] assms(4) by blast
  obtain d where d: "ft_store s a = Some d" using links_okD(3) [OF assms(1) a] by blast
  have d1: "ft_store (unlink1 u stf a s) a = Some (dropped u d)" using d by simp
  have r: "df_references (dropped u d) = []" using assms(5) d by (simp add: refs_def)
  have dist: "distinct (match_flow_table (unlink1 u stf a s))" using links_okD(1) [OF assms(1)] by simp
  obtain s2 where s2: "remove_flow a (unlink1 u stf a s) = Some s2" "inst_ok s2" "match_flow_table s2 = remove1 a (match_flow_table s)"
      "uuid_flow_table s2 = uuid_flow_table (unlink1 u stf a s)" "\<forall>b. b \<noteq> a \<longrightarrow> ft_store s2 b = ft_store s b"
    using remove_flow_ok [OF inst_ok_unlink1 [OF assms(2)] d1 r dist] by auto
  have "links_ok D F s2" by (rule links_ok_unlink1 [OF assms(1,3,4)]) (use s2 assms(5) in simp_all)
  then show ?thesis using s2 by blast
qed

lemma drop_links_step:
  assumes "links_ok D F s" "inst_ok s" "map_of (uuid_flow_table s) u = Some stf" "stf_flows stf = a # as"
    "a \<notin> set busy" "a \<notin> set tbr"
  shows "\<exists>s'. drop_links busy flood u (a # as) tbr s =
      drop_links busy flood u as (if refs s a \<noteq> [u] \<and> flood then tbr @ [a] else tbr) s' \<and>
    links_ok D F s' \<and> inst_ok s' \<and> uuid_flow_table s' = AList.update u (unlink_stf a stf) (uuid_flow_table s) \<and>
    set (match_flow_table s') = set (match_flow_table s) - {b. b = a \<and> refs s a = [u]} \<and>
    (\<forall>b. b \<noteq> a \<longrightarrow> ft_store s' b = ft_store s b) \<and> (refs s a \<noteq> [u] \<longrightarrow> ft_store s' a = map_option (dropped u) (ft_store s a))"
proof -
  have a: "a \<in> set (stf_flows stf)" "a \<in> set (match_flow_table s)" "u \<in> set (refs s a)" "distinct (match_flow_table s)"
    using assms(4) links_okD(5) [OF assms(1,3), of a] links_okD(1) [OF assms(1)] by auto
  obtain d where d: "ft_store s a = Some d" using links_okD(3) [OF assms(1) a(2)] by blast
  have refs_a: "refs s a = df_references d" using d by (simp add: refs_def)
  have one: "remove1 u (refs s a) = [] \<longleftrightarrow> refs s a = [u]" using a(3) by (cases "refs s a") auto
  let ?s1 = "unlink1 u stf a s"
  have inst: "inst_ok ?s1" using assms(2) by (rule inst_ok_unlink1)
  have tab: "uuid_flow_table ?s1 = AList.update u (unlink_stf a stf) (uuid_flow_table s)" by (simp add: unlink1_def)
  show ?thesis
  proof (cases "refs s a = [u]")
    case True
    obtain s2 where s2: "remove_flow a ?s1 = Some s2" "links_ok D F s2" "inst_ok s2" "match_flow_table s2 = remove1 a (match_flow_table s)"
      "uuid_flow_table s2 = uuid_flow_table ?s1" "\<forall>b. b \<noteq> a \<longrightarrow> ft_store s2 b = ft_store s b"
      using remove_last_link [OF assms(1,2,3) a(1) True] by blast
    then show ?thesis using s2 True assms(3,5,6) d refs_a a(4) tab
      by (intro exI [of _ s2]) (auto simp: sb_to_flow_find_def unlink1_def [symmetric])
  next
    case False
    have "links_ok D F ?s1" by (rule links_ok_unlink1 [OF assms(1,3) a(1)]) (use False one in simp_all)
    then show ?thesis using False assms(3,5,6) d refs_a inst one tab
      by (intro exI [of _ ?s1]) (auto simp: sb_to_flow_find_def unlink1_def [symmetric])
  qed
qed

lemma drop_links_ok:
  assumes "links_ok D F s" "inst_ok s" "map_of (uuid_flow_table s) u = Some stf" "stf_flows stf = as" "set busy \<subseteq> D"
    "\<forall>b \<in> set tbr. b \<notin> set as" "distinct tbr"
  shows "\<exists>s' stf'. drop_links busy flood u as tbr s = Some (tbr @ filter (\<lambda>a. refs s a \<noteq> [u] \<and> flood) as, s') \<and>
    links_ok D F s' \<and> inst_ok s' \<and> map_of (uuid_flow_table s') = (map_of (uuid_flow_table s))(u \<mapsto> stf') \<and>
    stf_flows stf' = [] \<and>
    set (match_flow_table s') = set (match_flow_table s) - {b \<in> set as. refs s b = [u]} \<and>
    (\<forall>b. b \<notin> set as \<longrightarrow> ft_store s' b = ft_store s b) \<and> (\<forall>b \<in> set as. refs s b \<noteq> [u] \<longrightarrow> ft_store s' b = map_option (dropped u) (ft_store s b))"
  using assms
proof (induction as arbitrary: s stf tbr)
  case Nil
  then show ?case by (intro exI [of _ s] exI [of _ stf]) auto
next
  case (Cons a as)
  have a: "a \<notin> D" "distinct (a # as)"
    using links_okD(4) [OF Cons.prems(1,3)] links_okD(5) [OF Cons.prems(1,3), of a] Cons.prems(4) by auto
  have nb: "a \<notin> set busy" "a \<notin> set tbr" using a(1) Cons.prems(5,6) by auto
  let ?tbr = "if refs s a \<noteq> [u] \<and> flood then tbr @ [a] else tbr"
  obtain s1 where s1: "drop_links busy flood u (a # as) tbr s = drop_links busy flood u as ?tbr s1"
      "links_ok D F s1" "inst_ok s1" "uuid_flow_table s1 = AList.update u (unlink_stf a stf) (uuid_flow_table s)"
      "set (match_flow_table s1) = set (match_flow_table s) - {b. b = a \<and> refs s a = [u]}"
      "\<forall>b. b \<noteq> a \<longrightarrow> ft_store s1 b = ft_store s b" "refs s a \<noteq> [u] \<longrightarrow> ft_store s1 a = map_option (dropped u) (ft_store s a)"
    using drop_links_step [OF Cons.prems(1,2,3,4) nb, where flood = flood] by blast
  have same: "refs s1 b = refs s b" if "b \<in> set as" for b
    using s1(6) that a(2) by (intro refs_cong) auto
  have "\<exists>s' stf'. drop_links busy flood u as ?tbr s1 = Some (?tbr @ filter (\<lambda>a. refs s1 a \<noteq> [u] \<and> flood) as, s') \<and>
      links_ok D F s' \<and> inst_ok s' \<and> map_of (uuid_flow_table s') = (map_of (uuid_flow_table s1))(u \<mapsto> stf') \<and> stf_flows stf' = [] \<and>
      set (match_flow_table s') = set (match_flow_table s1) - {b \<in> set as. refs s1 b = [u]} \<and>
      (\<forall>b. b \<notin> set as \<longrightarrow> ft_store s' b = ft_store s1 b) \<and> (\<forall>b \<in> set as. refs s1 b \<noteq> [u] \<longrightarrow> ft_store s' b = map_option (dropped u) (ft_store s1 b))"
  proof (rule Cons.IH [OF s1(2,3)])
    show "map_of (uuid_flow_table s1) u = Some (unlink_stf a stf)" by (simp add: s1(4))
    show "stf_flows (unlink_stf a stf) = as" using Cons.prems(4) by simp
  qed (use Cons.prems a(2) in auto)
  then obtain s' stf' where s': "drop_links busy flood u as ?tbr s1 = Some (?tbr @ filter (\<lambda>a. refs s1 a \<noteq> [u] \<and> flood) as, s')"
      "links_ok D F s'" "inst_ok s'" "map_of (uuid_flow_table s') = (map_of (uuid_flow_table s1))(u \<mapsto> stf')" "stf_flows stf' = []"
      "set (match_flow_table s') = set (match_flow_table s1) - {b \<in> set as. refs s1 b = [u]}"
      "\<forall>b. b \<notin> set as \<longrightarrow> ft_store s' b = ft_store s1 b" "\<forall>b \<in> set as. refs s1 b \<noteq> [u] \<longrightarrow> ft_store s' b = map_option (dropped u) (ft_store s1 b)"
    by blast
  have "filter (\<lambda>a. refs s1 a \<noteq> [u] \<and> flood) as = filter (\<lambda>a. refs s a \<noteq> [u] \<and> flood) as"
    by (rule filter_cong) (simp_all add: same)
  moreover have "ft_store s' a = ft_store s1 a" "\<forall>b \<in> set as. ft_store s1 b = ft_store s b" using s'(7) s1(6) a(2) by auto
  ultimately show ?case
    using s1 s' same a(2) by (intro exI [of _ s'] exI [of _ stf']) auto
qed

section \<open>Destroying a record and detaching shared flows\<close>

lemma destroy_stf_ok:
  assumes "links_ok D F s" "map_of (uuid_flow_table s) u = Some stf" "stf_flows stf = []" "u \<in> F"
  shows "destroy_stf u s = Some (s\<lparr>uuid_flow_table := AList.delete u (uuid_flow_table s)\<rparr>)"
    and "links_ok D F (s\<lparr>uuid_flow_table := AList.delete u (uuid_flow_table s)\<rparr>)"
proof -
  have "b \<notin> as_flows stf" for b using links_okD(6) [OF assms(1,2)] assms(3) by auto
  then have "fs = []" if "(n, m) \<in> set (stf_addrsets stf)" "(ip, fs) \<in> set m" for n m ip fs
    using that unfolding in_as_flows by (metis list.set_intros(1) neq_Nil_conv)
  then show "destroy_stf u s = Some (s\<lparr>uuid_flow_table := AList.delete u (uuid_flow_table s)\<rparr>)"
    using assms(2) by (auto simp: destroy_stf_def sb_to_flow_find_def list_all_iff)
  have free: "u \<notin> set (refs s b)" if "b \<in> set (match_flow_table s)" "b \<notin> D" for b
    using links_okD(5) [OF assms(1,2), of b] that assms(3) by auto
  show "links_ok D F (s\<lparr>uuid_flow_table := AList.delete u (uuid_flow_table s)\<rparr>)"
  proof (rule links_okI)
    show "map_of (uuid_flow_table (s\<lparr>uuid_flow_table := AList.delete u (uuid_flow_table s)\<rparr>)) v \<noteq> None \<or> a \<in> D \<and> v \<in> F"
      if "a \<in> set (match_flow_table (s\<lparr>uuid_flow_table := AList.delete u (uuid_flow_table s)\<rparr>))"
        "v \<in> set (refs (s\<lparr>uuid_flow_table := AList.delete u (uuid_flow_table s)\<rparr>) a)" for a v
      using that free [of a] links_okD(7) [OF assms(1), of a v] assms(4) by auto
  qed (use links_okD [OF assms(1)] in \<open>auto simp: distinct_delete split: if_splits\<close>)
qed

lemma detach_links_ok:
  assumes "\<forall>v \<in> set us. \<exists>stf. map_of (uuid_flow_table s) v = Some stf \<and> a \<in> set (stf_flows stf)" "distinct us"
    "distinct (map fst (uuid_flow_table s))"
  shows "\<exists>t. detach_links a us s = Some (s\<lparr>uuid_flow_table := t\<rparr>) \<and> distinct (map fst t) \<and>
    map_of t = (\<lambda>v. if v \<in> set us then map_option (unlink_stf a) (map_of (uuid_flow_table s) v) else map_of (uuid_flow_table s) v)"
  using assms
proof (induction us arbitrary: s)
  case Nil
  then show ?case by (intro exI [of _ "uuid_flow_table s"]) simp
next
  case (Cons u us)
  then obtain stf where stf: "map_of (uuid_flow_table s) u = Some stf" "a \<in> set (stf_flows stf)" by auto
  let ?s = "s\<lparr>uuid_flow_table := AList.update u (unlink_stf a stf) (uuid_flow_table s)\<rparr>"
  have "\<exists>t. detach_links a us ?s = Some (?s\<lparr>uuid_flow_table := t\<rparr>) \<and> distinct (map fst t) \<and>
    map_of t = (\<lambda>v. if v \<in> set us then map_option (unlink_stf a) (map_of (uuid_flow_table ?s) v) else map_of (uuid_flow_table ?s) v)"
    by (rule Cons.IH) (use Cons.prems in \<open>auto simp: distinct_update\<close>)
  then obtain t where t: "detach_links a us ?s = Some (?s\<lparr>uuid_flow_table := t\<rparr>)" "distinct (map fst t)"
    "map_of t = (\<lambda>v. if v \<in> set us then map_option (unlink_stf a) (map_of (uuid_flow_table ?s) v) else map_of (uuid_flow_table ?s) v)"
    by blast
  have "map_of t = (\<lambda>v. if v \<in> set (u # us) then map_option (unlink_stf a) (map_of (uuid_flow_table s) v) else map_of (uuid_flow_table s) v)"
    using t(3) stf Cons.prems(2) by (intro ext) auto
  moreover have "detach_links a (u # us) s = Some (s\<lparr>uuid_flow_table := t\<rparr>)" using t(1) stf by (simp add: sb_to_flow_find_def)
  ultimately show ?case using t(2) by blast
qed

lemma links_ok_detach:
  assumes ok: "links_ok D F s" and a: "a \<in> set (match_flow_table s)" "a \<notin> D" and t: "distinct (map fst t)"
    "map_of t = (\<lambda>v. if v \<in> set (refs s a) then map_option (unlink_stf a) (map_of (uuid_flow_table s) v) else map_of (uuid_flow_table s) v)"
  shows "links_ok (insert a D) F (s\<lparr>uuid_flow_table := t\<rparr>)"
proof (rule links_okI)
  fix v stf assume v: "map_of (uuid_flow_table (s\<lparr>uuid_flow_table := t\<rparr>)) v = Some stf"
  then obtain stf0 where stf0: "map_of (uuid_flow_table s) v = Some stf0" "stf = (if v \<in> set (refs s a) then unlink_stf a stf0 else stf0)"
    using t(2) by (auto split: if_splits)
  note old = links_okD(4,5,6) [OF ok stf0(1)]
  show "distinct (stf_flows stf)" using old(1) stf0(2) by auto
  have fl: "b \<in> set (stf_flows stf) \<longleftrightarrow> b \<in> set (stf_flows stf0) \<and> b \<noteq> a" for b
    using old(1) old(2) [of a] stf0(2) a(2) by auto
  then show "b \<in> set (stf_flows stf) \<longleftrightarrow> b \<in> set (match_flow_table (s\<lparr>uuid_flow_table := t\<rparr>)) \<and> b \<notin> insert a D \<and>
      v \<in> set (refs (s\<lparr>uuid_flow_table := t\<rparr>) b)" for b using old(2) [of b] by auto
  show "b \<in> set (stf_flows stf) \<and> refs (s\<lparr>uuid_flow_table := t\<rparr>) b = [v]" if "b \<in> as_flows stf" for b
    using that old(3) [of b] old(2) [of a] fl [of b] stf0(2) a by (auto split: if_splits)
  show "as_distinct stf" using links_okD(8) [OF ok stf0(1)] stf0(2) by simp
next
  fix b v assume "b \<in> set (match_flow_table (s\<lparr>uuid_flow_table := t\<rparr>))" "v \<in> set (refs (s\<lparr>uuid_flow_table := t\<rparr>) b)"
  then show "map_of (uuid_flow_table (s\<lparr>uuid_flow_table := t\<rparr>)) v \<noteq> None \<or> b \<in> insert a D \<and> v \<in> F"
    using links_okD(7) [OF ok, of b v] t(2) by (simp del: not_None_eq)
qed (use links_okD(1,3) [OF ok] t(1) in auto)

lemma detach_flows_ok:
  assumes "links_ok D F s" "set as \<subseteq> set (match_flow_table s)" "set as \<inter> D = {}" "distinct as"
  shows "\<exists>t. detach_flows as s = Some (s\<lparr>uuid_flow_table := t\<rparr>) \<and> links_ok (D \<union> set as) F (s\<lparr>uuid_flow_table := t\<rparr>) \<and>
    (\<forall>v. map_of t v = None \<longleftrightarrow> map_of (uuid_flow_table s) v = None) \<and>
    (\<forall>v. (\<forall>a \<in> set as. v \<notin> set (refs s a)) \<longrightarrow> map_of t v = map_of (uuid_flow_table s) v)"
  using assms
proof (induction as arbitrary: s D)
  case Nil
  then show ?case by (intro exI [of _ "uuid_flow_table s"]) simp
next
  case (Cons a as)
  have a: "a \<in> set (match_flow_table s)" "a \<notin> D" using Cons.prems by auto
  obtain d where d: "ft_store s a = Some d" "refs s a = df_references d" "df_references d \<noteq> []" "distinct (refs s a)"
    using links_okD(3) [OF Cons.prems(1) a(1)] a(2) by (auto simp: refs_def)
  have "\<exists>stf. map_of (uuid_flow_table s) v = Some stf \<and> a \<in> set (stf_flows stf)" if "v \<in> set (refs s a)" for v
    using links_okD(7) [OF Cons.prems(1) a(1) that] a that links_okD(5) [OF Cons.prems(1), of v _ a] by auto
  then obtain t1 where t1: "detach_links a (refs s a) s = Some (s\<lparr>uuid_flow_table := t1\<rparr>)" "distinct (map fst t1)"
    "map_of t1 = (\<lambda>v. if v \<in> set (refs s a) then map_option (unlink_stf a) (map_of (uuid_flow_table s) v) else map_of (uuid_flow_table s) v)"
    using detach_links_ok [OF _ d(4) links_okD(2) [OF Cons.prems(1)], of a] by blast
  note l1 = links_ok_detach [OF Cons.prems(1) a t1(2,3)]
  obtain t where t: "detach_flows as (s\<lparr>uuid_flow_table := t1\<rparr>) = Some (s\<lparr>uuid_flow_table := t\<rparr>)"
      "links_ok (insert a D \<union> set as) F (s\<lparr>uuid_flow_table := t\<rparr>)" "\<forall>v. map_of t v = None \<longleftrightarrow> map_of t1 v = None"
      "\<forall>v. (\<forall>b \<in> set as. v \<notin> set (refs s b)) \<longrightarrow> map_of t v = map_of t1 v"
    using Cons.IH [OF l1] Cons.prems by auto
  have "detach_flows (a # as) s = Some (s\<lparr>uuid_flow_table := t\<rparr>)" using d t1(1) t(1) by simp
  moreover have "links_ok (D \<union> set (a # as)) F (s\<lparr>uuid_flow_table := t\<rparr>)" using t(2) by simp
  moreover have "\<forall>v. map_of t v = None \<longleftrightarrow> map_of (uuid_flow_table s) v = None" using t(3) t1(3) by simp
  moreover have "\<forall>v. (\<forall>b \<in> set (a # as). v \<notin> set (refs s b)) \<longrightarrow> map_of t v = map_of (uuid_flow_table s) v" using t(4) t1(3) by simp
  ultimately show ?case by blast
qed

section \<open>What a part of the flooding does\<close>

text \<open>Two records are connected when a flow belongs to both.\<close>

definition share :: "('m, 'a) ovn_desired_flow_table \<Rightarrow> (uuid \<times> uuid) set" where
  "share s = {(u, v). \<exists>a \<in> set (match_flow_table s). u \<in> set (refs s a) \<and> v \<in> set (refs s a)}"

text \<open>
  From table \<open>s\<close> with the flooded records \<open>F\<close> to \<open>s'\<close> with \<open>F'\<close>: of the detached flows \<open>D\<close> only those of \<open>A\<close> are
  touched; every flow removed had all its records flooded; a newly flooded record has lost all its flows and is gone;
  the other records are as they were; and only what is connected to \<open>U\<close> has been flooded.
\<close>

definition flooded :: "nat set \<Rightarrow> nat set \<Rightarrow> uuid set \<Rightarrow> ('m, 'a) ovn_desired_flow_table \<Rightarrow> uuid set \<Rightarrow>
    ('m, 'a) ovn_desired_flow_table \<Rightarrow> uuid set \<Rightarrow> bool" where
  "flooded A D U s F s' F' \<longleftrightarrow>
     links_ok D F' s' \<and> inst_ok s' \<and> F \<subseteq> F' \<and> F' \<subseteq> F \<union> (share s)\<^sup>* `` U \<and>
     set (match_flow_table s') \<subseteq> set (match_flow_table s) \<and>
     (\<forall>b. b \<in> set (match_flow_table s') \<longrightarrow> set (refs s' b) \<subseteq> set (refs s b)) \<and>
     (\<forall>b. b \<in> set (match_flow_table s') \<longrightarrow> b \<notin> A \<longrightarrow> ft_store s' b = ft_store s b) \<and>
     (\<forall>b. b \<in> set (match_flow_table s) \<longrightarrow> b \<notin> set (match_flow_table s') \<longrightarrow> b \<notin> A \<longrightarrow> b \<notin> D \<and> set (refs s b) \<subseteq> F') \<and>
     (\<forall>b v. b \<in> set (match_flow_table s') \<longrightarrow> b \<notin> D \<longrightarrow> v \<in> set (refs s b) \<longrightarrow> v \<in> F' \<longrightarrow> v \<in> F) \<and>
     (\<forall>v. v \<notin> F' \<longrightarrow> map_of (uuid_flow_table s') v = map_of (uuid_flow_table s) v) \<and>
     (\<forall>v. v \<in> F' \<longrightarrow> v \<notin> F \<longrightarrow> map_of (uuid_flow_table s') v = None) \<and>
     (\<forall>v. map_of (uuid_flow_table s) v = None \<longrightarrow> map_of (uuid_flow_table s') v = None)"

lemma floodedD:
  assumes "flooded A D U s F s' F'"
  shows "links_ok D F' s'" "inst_ok s'" "F \<subseteq> F'" "F' \<subseteq> F \<union> (share s)\<^sup>* `` U"
    "set (match_flow_table s') \<subseteq> set (match_flow_table s)"
    "b \<in> set (match_flow_table s') \<Longrightarrow> set (refs s' b) \<subseteq> set (refs s b)"
    "b \<in> set (match_flow_table s') \<Longrightarrow> b \<notin> A \<Longrightarrow> ft_store s' b = ft_store s b"
    "b \<in> set (match_flow_table s) \<Longrightarrow> b \<notin> set (match_flow_table s') \<Longrightarrow> b \<notin> A \<Longrightarrow> b \<notin> D \<and> set (refs s b) \<subseteq> F'"
    "b \<in> set (match_flow_table s') \<Longrightarrow> b \<notin> D \<Longrightarrow> v \<in> set (refs s b) \<Longrightarrow> v \<in> F' \<Longrightarrow> v \<in> F"
    "v \<notin> F' \<Longrightarrow> map_of (uuid_flow_table s') v = map_of (uuid_flow_table s) v"
    "v \<in> F' \<Longrightarrow> v \<notin> F \<Longrightarrow> map_of (uuid_flow_table s') v = None"
    "map_of (uuid_flow_table s) v = None \<Longrightarrow> map_of (uuid_flow_table s') v = None"
  using assms unfolding flooded_def by (elim conjE, assumption | elim conjE, simp only: not_False_eq_True simp_thms)+

lemma floodedI:
  assumes "links_ok D F' s'" "inst_ok s'" "F \<subseteq> F'" "F' \<subseteq> F \<union> (share s)\<^sup>* `` U"
    "set (match_flow_table s') \<subseteq> set (match_flow_table s)"
    "\<And>b. b \<in> set (match_flow_table s') \<Longrightarrow> set (refs s' b) \<subseteq> set (refs s b)"
    "\<And>b. b \<in> set (match_flow_table s') \<Longrightarrow> b \<notin> A \<Longrightarrow> ft_store s' b = ft_store s b"
    "\<And>b. b \<in> set (match_flow_table s) \<Longrightarrow> b \<notin> set (match_flow_table s') \<Longrightarrow> b \<notin> A \<Longrightarrow> b \<notin> D \<and> set (refs s b) \<subseteq> F'"
    "\<And>b v. b \<in> set (match_flow_table s') \<Longrightarrow> b \<notin> D \<Longrightarrow> v \<in> set (refs s b) \<Longrightarrow> v \<in> F' \<Longrightarrow> v \<in> F"
    "\<And>v. v \<notin> F' \<Longrightarrow> map_of (uuid_flow_table s') v = map_of (uuid_flow_table s) v"
    "\<And>v. v \<in> F' \<Longrightarrow> v \<notin> F \<Longrightarrow> map_of (uuid_flow_table s') v = None"
    "\<And>v. map_of (uuid_flow_table s) v = None \<Longrightarrow> map_of (uuid_flow_table s') v = None"
  shows "flooded A D U s F s' F'"
  unfolding flooded_def by (intro conjI allI impI; (rule assms assms(8) [THEN conjunct1] assms(8) [THEN conjunct2]; assumption))

lemma flooded_refl: "links_ok D F s \<Longrightarrow> inst_ok s \<Longrightarrow> flooded A D U s F s F"
  by (rule floodedI) auto

lemma flooded_mono:
  assumes "flooded A D U s F s' F'" "A \<subseteq> A'" "U \<subseteq> U'"
  shows "flooded A' D U' s F s' F'"
proof (rule floodedI)
  show "F' \<subseteq> F \<union> (share s)\<^sup>* `` U'" using floodedD(4) [OF assms(1)] assms(3) by blast
  show "ft_store s' b = ft_store s b" if "b \<in> set (match_flow_table s')" "b \<notin> A'" for b
    using floodedD(7) [OF assms(1) that(1)] that(2) assms(2) by blast
  show "b \<notin> D \<and> set (refs s b) \<subseteq> F'" if "b \<in> set (match_flow_table s)" "b \<notin> set (match_flow_table s')" "b \<notin> A'" for b
    using floodedD(8) [OF assms(1) that(1,2)] that(3) assms(2) by blast
qed (rule floodedD [OF assms(1)]; assumption)+

lemma share_mono:
  assumes "set (match_flow_table s') \<subseteq> set (match_flow_table s)" "\<And>b. b \<in> set (match_flow_table s') \<Longrightarrow> set (refs s' b) \<subseteq> set (refs s b)"
  shows "(share s')\<^sup>* \<subseteq> (share s)\<^sup>*"
  using assms unfolding share_def by (intro rtrancl_mono) blast

lemma flooded_trans:
  assumes 1: "flooded A D U s F s1 F1" and 2: "flooded A D U s1 F1 s' F'" and A: "A \<subseteq> D"
  shows "flooded A D U s F s' F'"
proof (rule floodedI)
  show "F' \<subseteq> F \<union> (share s)\<^sup>* `` U"
    using floodedD(4) [OF 1] floodedD(4) [OF 2] share_mono [OF floodedD(5) [OF 1] floodedD(6) [OF 1]] by blast
  fix b assume b: "b \<in> set (match_flow_table s')"
  then have b1: "b \<in> set (match_flow_table s1)" using floodedD(5) [OF 2] by blast
  show "set (refs s' b) \<subseteq> set (refs s b)" using floodedD(6) [OF 1 b1] floodedD(6) [OF 2 b] by blast
  show "ft_store s' b = ft_store s b" if "b \<notin> A" using floodedD(7) [OF 1 b1 that] floodedD(7) [OF 2 b that] by simp
  show "v \<in> F" if "b \<notin> D" "v \<in> set (refs s b)" "v \<in> F'" for v
  proof -
    have "refs s1 b = refs s b" using floodedD(7) [OF 1 b1] that(1) A by (intro refs_cong) blast
    then have "v \<in> F1" using floodedD(9) [OF 2 b that(1)] that by simp
    then show ?thesis using floodedD(9) [OF 1 b1] that by blast
  qed
next
  fix b assume b: "b \<in> set (match_flow_table s)" "b \<notin> set (match_flow_table s')" "b \<notin> A"
  show "b \<notin> D \<and> set (refs s b) \<subseteq> F'"
  proof (cases "b \<in> set (match_flow_table s1)")
    case True
    then have "refs s1 b = refs s b" using floodedD(7) [OF 1] b(3) by (intro refs_cong) blast
    then show ?thesis using floodedD(8) [OF 2 True b(2,3)] by simp
  next
    case False
    then show ?thesis using floodedD(8) [OF 1 b(1) _ b(3)] floodedD(3) [OF 2] by blast
  qed
next
  fix v
  show "map_of (uuid_flow_table s') v = map_of (uuid_flow_table s) v" if "v \<notin> F'"
    using floodedD(10) [OF 2 that] floodedD(10) [OF 1, of v] floodedD(3) [OF 2] that by auto
  show "map_of (uuid_flow_table s') v = None" if "v \<in> F'" "v \<notin> F"
    using floodedD(11) [OF 2 that(1)] floodedD(12) [OF 2] floodedD(11) [OF 1 _ that(2)] by blast
  show "map_of (uuid_flow_table s') v = None" if "map_of (uuid_flow_table s) v = None"
    using floodedD(12) [OF 1 that] floodedD(12) [OF 2] by blast
qed (use floodedD(1,2,3,5) [OF 1] floodedD(1,2,3,5) [OF 2] in auto)

lemma links_ok_flooded_mono: "links_ok D F s \<Longrightarrow> F \<subseteq> F' \<Longrightarrow> links_ok D F' s"
  unfolding links_ok_def by blast

text \<open>Detached flows that are no longer in the table need not be named.\<close>

lemma links_ok_removed: "links_ok (D \<union> A) F s \<Longrightarrow> A \<inter> set (match_flow_table s) = {} \<Longrightarrow> links_ok D F s"
  unfolding links_ok_def by blast

section \<open>The recursion\<close>

text \<open>The records that the flooding can still reach; they bound the depth of the recursion.\<close>

definition waiting :: "('m, 'a) ovn_desired_flow_table \<Rightarrow> uuid set \<Rightarrow> uuid set" where
  "waiting s F = {v. map_of (uuid_flow_table s) v \<noteq> None \<and> v \<notin> F}"

lemma finite_waiting [simp]: "finite (waiting s F)"
  by (rule finite_subset [of _ "dom (map_of (uuid_flow_table s))"]) (auto simp: waiting_def finite_dom_map_of)

lemma waiting_flooded:
  assumes "flooded A D U s F s' F'"
  shows "card (waiting s' F') \<le> card (waiting s F)"
proof (rule card_mono [OF finite_waiting], rule subsetI)
  fix v assume "v \<in> waiting s' F'"
  then show "v \<in> waiting s F" using floodedD(3) [OF assms] floodedD(12) [OF assms, of v] unfolding waiting_def by fastforce
qed

lemma waiting_insert: "map_of (uuid_flow_table s) u \<noteq> None \<Longrightarrow> u \<notin> F \<Longrightarrow> card (waiting s (insert u F)) < card (waiting s F)"
  by (rule psubset_card_mono [OF finite_waiting]) (auto simp: waiting_def)

definition calls_ok :: "nat \<Rightarrow> nat set \<Rightarrow> (uuid \<Rightarrow> ('m, 'a) ovn_desired_flow_table \<times> uuid list \<Rightarrow>
    (('m, 'a) ovn_desired_flow_table \<times> uuid list) option) \<Rightarrow> bool" where
  "calls_ok n D rec \<longleftrightarrow> (\<forall>s F u. links_ok D (set F) s \<longrightarrow> inst_ok s \<longrightarrow> u \<in> set F \<longrightarrow> card (waiting s (set F)) < n \<longrightarrow>
     (\<exists>s' F'. rec u (s, F) = Some (s', F') \<and> flooded {} D {u} s (set F) s' (set F') \<and> map_of (uuid_flow_table s') u = None \<and>
        (\<forall>b. b \<in> set (match_flow_table s') \<longrightarrow> b \<notin> D \<longrightarrow> u \<notin> set (refs s b))))"

lemma calls_okD:
  assumes "calls_ok n D rec" "links_ok D (set F) s" "inst_ok s" "u \<in> set F" "card (waiting s (set F)) < n"
  obtains s' F' where "rec u (s, F) = Some (s', F')" "flooded {} D {u} s (set F) s' (set F')" "map_of (uuid_flow_table s') u = None"
    "\<And>b. b \<in> set (match_flow_table s') \<Longrightarrow> b \<notin> D \<Longrightarrow> u \<notin> set (refs s b)"
  using assms unfolding calls_ok_def by blast

text \<open>Flooding one more record.\<close>

lemma flooded_insert:
  assumes "flooded {} D {u} s (insert u F) s' F'" "map_of (uuid_flow_table s') u = None" "u \<in> U"
    "\<And>b. b \<in> set (match_flow_table s') \<Longrightarrow> b \<notin> D \<Longrightarrow> u \<notin> set (refs s b)"
  shows "flooded {} D U s F s' F'"
proof (rule floodedI)
  show "F \<subseteq> F'" using floodedD(3) [OF assms(1)] by blast
  show "F' \<subseteq> F \<union> (share s)\<^sup>* `` U" using floodedD(4) [OF assms(1)] assms(3) by blast
  show "v \<in> F" if "b \<in> set (match_flow_table s')" "b \<notin> D" "v \<in> set (refs s b)" "v \<in> F'" for b v
    using floodedD(9) [OF assms(1) that] assms(4) that by auto
  show "map_of (uuid_flow_table s') v = None" if "v \<in> F'" "v \<notin> F" for v
    using floodedD(11) [OF assms(1) that(1)] assms(2) that(2) by (cases "v = u") auto
qed (rule floodedD [OF assms(1)]; assumption)+

text \<open>Two steps on a detached flow: freeing one of its links, and removing it without links.\<close>

lemma detached_step:
  assumes ok: "links_ok D F s" and inst: "inst_ok s'" and a: "a \<in> D"
    and s': "uuid_flow_table s' = uuid_flow_table s" "\<And>b. b \<noteq> a \<Longrightarrow> ft_store s' b = ft_store s b" "distinct (match_flow_table s')"
      "\<And>b. b \<noteq> a \<Longrightarrow> b \<in> set (match_flow_table s') \<longleftrightarrow> b \<in> set (match_flow_table s)"
      "a \<in> set (match_flow_table s') \<Longrightarrow>
         a \<in> set (match_flow_table s) \<and> ft_store s' a \<noteq> None \<and> distinct (refs s' a) \<and> set (refs s' a) \<subseteq> set (refs s a)"
  shows "flooded {a} D U s F s' F"
proof -
  have other: "refs s' b = refs s b" if "b \<noteq> a" for b using s'(2) [OF that] by (rule refs_cong)
  have "links_ok D F s'"
  proof (rule links_okI)
    fix b assume b: "b \<in> set (match_flow_table s')"
    show "ft_store s' b \<noteq> None \<and> distinct (refs s' b) \<and> (b \<notin> D \<longrightarrow> refs s' b \<noteq> [])"
      using b links_okD(3) [OF ok, of b] other s'(2,4,5) a by (cases "b = a") auto
    show "map_of (uuid_flow_table s') v \<noteq> None \<or> b \<in> D \<and> v \<in> F" if "v \<in> set (refs s' b)" for v
      using b that links_okD(7) [OF ok, of b v] other s'(1,4,5) a by (cases "b = a") auto
  next
    fix v stf assume v: "map_of (uuid_flow_table s') v = Some stf"
    note old = links_okD(4,5,6) [OF ok v [unfolded s'(1)]]
    show "distinct (stf_flows stf)" by (rule old)
    show "as_distinct stf" by (rule links_okD(8) [OF ok v [unfolded s'(1)]])
    show "b \<in> set (stf_flows stf) \<longleftrightarrow> b \<in> set (match_flow_table s') \<and> b \<notin> D \<and> v \<in> set (refs s' b)" for b
      using old(2) [of b] other s'(4) a by (cases "b = a") auto
    show "b \<in> set (stf_flows stf) \<and> refs s' b = [v]" if "b \<in> as_flows stf" for b
      using old(3) [OF that] old(2) [of b] other a by (cases "b = a") auto
  qed (use links_okD(2) [OF ok] s'(1,3) in auto)
  then show ?thesis
  proof (rule floodedI [OF _ inst])
    show "set (refs s' b) \<subseteq> set (refs s b)" if "b \<in> set (match_flow_table s')" for b
      using that other s'(5) by (cases "b = a") auto
  qed (use s' in \<open>auto, metis\<close>)
qed

lemma flood_refs_ok:
  assumes "calls_ok n D rec" "a \<in> D" "links_ok D (set F) s" "inst_ok s" "a \<in> set (match_flow_table s)" "refs s a = us"
    "card (waiting s (set F)) < Suc n" "set us \<subseteq> U"
  shows "\<exists>s' F'. flood_refs rec a us (s, F) = Some (s', F') \<and> flooded {a} D U s (set F) s' (set F') \<and>
    a \<in> set (match_flow_table s') \<and> refs s' a = [] \<and> set us \<subseteq> set F'"
  using assms(3-)
proof (induction us arbitrary: s F)
  case Nil
  then show ?case using flooded_refl by fastforce
next
  case (Cons u us)
  have "\<exists>s1 F1. (if u \<in> set F then Some (s, F) else rec u (s, F @ [u])) = Some (s1, F1) \<and> flooded {} D U s (set F) s1 (set F1) \<and> u \<in> set F1"
  proof (cases "u \<in> set F")
    case True
    then show ?thesis using flooded_refl [OF Cons.prems(1,2)] by auto
  next
    case False
    then have "map_of (uuid_flow_table s) u \<noteq> None" using links_okD(7) [OF Cons.prems(1,3), of u] Cons.prems(4) by auto
    then have "card (waiting s (set (F @ [u]))) < n" using waiting_insert [of s u "set F"] False Cons.prems(5) by simp
    moreover have "links_ok D (set (F @ [u])) s" by (rule links_ok_flooded_mono [OF Cons.prems(1)]) auto
    ultimately obtain s' F' where r: "rec u (s, F @ [u]) = Some (s', F')" "flooded {} D {u} s (set (F @ [u])) s' (set F')"
      "map_of (uuid_flow_table s') u = None" "\<And>b. b \<in> set (match_flow_table s') \<Longrightarrow> b \<notin> D \<Longrightarrow> u \<notin> set (refs s b)"
      using calls_okD [OF assms(1) _ Cons.prems(2), of "F @ [u]" u] by auto
    have "flooded {} D U s (set F) s' (set F')" by (rule flooded_insert [OF _ r(3)]) (use r Cons.prems(6) in auto)
    then show ?thesis using r(1) False floodedD(3) [OF r(2)] by auto
  qed
  then obtain s1 F1 where 1: "(if u \<in> set F then Some (s, F) else rec u (s, F @ [u])) = Some (s1, F1)"
    "flooded {} D U s (set F) s1 (set F1)" "u \<in> set F1" by blast
  have a1: "a \<in> set (match_flow_table s1)" using floodedD(8) [OF 1(2) Cons.prems(3)] assms(2) by blast
  have refs1: "refs s1 a = u # us" using floodedD(7) [OF 1(2) a1] Cons.prems(4) refs_cong [of s1 a s] by simp
  note ok1 = floodedD(1) [OF 1(2)]
  let ?s2 = "upd_flow a (\<lambda>d. d\<lparr>df_references := remove1 u (df_references d)\<rparr>) s1"
  have 2: "flooded {a} D U s1 (set F1) ?s2 (set F1)"
    by (rule detached_step [OF ok1 inst_ok_drop [OF floodedD(2) [OF 1(2)]] assms(2)])
      (use links_okD(1) [OF ok1] links_okD(3) [OF ok1 a1] refs1 in auto)
  have 12: "flooded {a} D U s (set F) ?s2 (set F1)"
    using flooded_trans [OF flooded_mono [OF 1(2)] 2] assms(2) by blast
  have "card (waiting ?s2 (set F1)) < Suc n" using waiting_flooded [OF 12] Cons.prems(5) by simp
  then obtain s' F' where 3: "flood_refs rec a us (?s2, F1) = Some (s', F')" "flooded {a} D U ?s2 (set F1) s' (set F')"
    "a \<in> set (match_flow_table s')" "refs s' a = []" "set us \<subseteq> set F'"
    using Cons.IH [OF floodedD(1,2) [OF 2]] a1 refs1 Cons.prems(6) by auto
  have "flooded {a} D U s (set F) s' (set F')" using flooded_trans [OF 12 3(2)] assms(2) by blast
  moreover have "u \<in> set F'" using 1(3) floodedD(3) [OF 3(2)] by blast
  ultimately show ?case using 1(1) 3 by auto
qed

lemma flood_flows_ok:
  assumes "calls_ok n D rec" "set as \<subseteq> D" "links_ok D (set F) s" "inst_ok s" "set as \<subseteq> set (match_flow_table s)" "distinct as"
    "card (waiting s (set F)) < Suc n" "\<forall>a \<in> set as. set (refs s a) \<subseteq> U"
  shows "\<exists>s' F'. flood_flows rec as (s, F) = Some (s', F') \<and> flooded (set as) D U s (set F) s' (set F') \<and>
    set as \<inter> set (match_flow_table s') = {} \<and> (\<forall>a \<in> set as. set (refs s a) \<subseteq> set F')"
  using assms(2-)
proof (induction as arbitrary: s F)
  case Nil
  then show ?case using flooded_refl by fastforce
next
  case (Cons a as)
  have a: "a \<in> D" "a \<in> set (match_flow_table s)" "a \<notin> set as" using Cons.prems by auto
  obtain d where d: "ft_store s a = Some d" "refs s a = df_references d"
    using links_okD(3) [OF Cons.prems(2) a(2)] by (auto simp: refs_def)
  obtain s1 F1 where 1: "flood_refs rec a (refs s a) (s, F) = Some (s1, F1)" "flooded {a} D U s (set F) s1 (set F1)"
    "a \<in> set (match_flow_table s1)" "refs s1 a = []" "set (refs s a) \<subseteq> set F1"
    using flood_refs_ok [OF assms(1) a(1) Cons.prems(2,3) a(2) refl Cons.prems(6), of U] Cons.prems(7) by auto
  note ok1 = floodedD(1) [OF 1(2)]
  obtain d1 where d1: "ft_store s1 a = Some d1" "df_references d1 = []"
    using links_okD(3) [OF ok1 1(3)] 1(4) by (auto simp: refs_def)
  obtain s2 where s2: "remove_flow a s1 = Some s2" "inst_ok s2" "match_flow_table s2 = remove1 a (match_flow_table s1)"
    "uuid_flow_table s2 = uuid_flow_table s1" "\<forall>b. b \<noteq> a \<longrightarrow> ft_store s2 b = ft_store s1 b"
    using remove_flow_ok [OF floodedD(2) [OF 1(2)] d1 links_okD(1) [OF ok1]] by blast
  have 2: "flooded {a} D U s1 (set F1) s2 (set F1)"
    by (rule detached_step [OF ok1 s2(2) a(1)]) (use s2 links_okD(1) [OF ok1] in auto)
  have 12: "flooded {a} D U s (set F) s2 (set F1)" using flooded_trans [OF 1(2) 2] a(1) by blast
  have same: "b \<in> set (match_flow_table s2) \<and> refs s2 b = refs s b" if "b \<in> set as" for b
  proof -
    have "b \<in> set (match_flow_table s2)" using floodedD(8) [OF 12, of b] that Cons.prems(1,4) a(3) by auto
    then show ?thesis using floodedD(7) [OF 12, of b] that a(3) by (auto intro: refs_cong)
  qed
  have sub: "set as \<subseteq> set (match_flow_table s2)" using same by auto
  have w: "card (waiting s2 (set F1)) < Suc n" using waiting_flooded [OF 12] Cons.prems(6) by simp
  obtain s' F' where 3: "flood_flows rec as (s2, F1) = Some (s', F')" "flooded (set as) D U s2 (set F1) s' (set F')"
    "set as \<inter> set (match_flow_table s') = {}" "\<forall>b \<in> set as. set (refs s2 b) \<subseteq> set F'"
    using Cons.IH [OF _ floodedD(1,2) [OF 2] sub _ w] same Cons.prems(1,5,7) by auto
  have "flooded (set (a # as)) D U s (set F) s' (set F')"
    by (rule flooded_trans [OF flooded_mono [OF 12] flooded_mono [OF 3(2)]]) (use Cons.prems(1) in auto)
  moreover have "a \<notin> set (match_flow_table s')" using floodedD(5) [OF 3(2)] s2(3) links_okD(1) [OF ok1] by auto
  moreover have "set (refs s a) \<subseteq> set F'" using 1(5) floodedD(3) [OF 3(2)] by blast
  ultimately show ?case using d 1(1) s2(1) 3 same by auto
qed

text \<open>A call for a record that has flows: the state that the three first loops leave.\<close>

lemma flood_prepare:
  assumes "links_ok D F s" "inst_ok s" "u \<in> F" "map_of (uuid_flow_table s) u = Some stf" "set busy \<subseteq> D"
  obtains tbr s1 s2 s3 where "drop_links busy True u (stf_flows stf) [] s = Some (tbr, s1)" "destroy_stf u s1 = Some s2"
    "detach_flows tbr s2 = Some s3" "tbr = filter (\<lambda>a. refs s a \<noteq> [u]) (stf_flows stf)"
    "links_ok (D \<union> set tbr) F s3" "inst_ok s3"
    "set (match_flow_table s3) = set (match_flow_table s) - {b \<in> set (stf_flows stf). refs s b = [u]}"
    "\<forall>b. b \<notin> set (stf_flows stf) \<longrightarrow> ft_store s3 b = ft_store s b" "\<forall>a. a \<in> set tbr \<longrightarrow> refs s3 a = remove1 u (refs s a)"
    "map_of (uuid_flow_table s3) u = None" "\<forall>v. map_of (uuid_flow_table s) v = None \<longrightarrow> map_of (uuid_flow_table s3) v = None"
    "\<forall>v. v \<noteq> u \<longrightarrow> (\<forall>a \<in> set tbr. v \<notin> set (refs s3 a)) \<longrightarrow> map_of (uuid_flow_table s3) v = map_of (uuid_flow_table s) v"
proof -
  define tbr where "tbr = filter (\<lambda>a. refs s a \<noteq> [u]) (stf_flows stf)"
  obtain s1 stf' where s1: "drop_links busy True u (stf_flows stf) [] s = Some (tbr, s1)"
    "links_ok D F s1" "inst_ok s1" "map_of (uuid_flow_table s1) = (map_of (uuid_flow_table s))(u \<mapsto> stf')" "stf_flows stf' = []"
    "set (match_flow_table s1) = set (match_flow_table s) - {b \<in> set (stf_flows stf). refs s b = [u]}"
    "\<forall>b. b \<notin> set (stf_flows stf) \<longrightarrow> ft_store s1 b = ft_store s b"
    "\<forall>b \<in> set (stf_flows stf). refs s b \<noteq> [u] \<longrightarrow> ft_store s1 b = map_option (dropped u) (ft_store s b)"
    using drop_links_ok [OF assms(1,2,4) refl assms(5), of "[]" True] by (auto simp: tbr_def)
  have r1: "\<forall>b \<in> set (stf_flows stf). refs s b \<noteq> [u] \<longrightarrow> refs s1 b = remove1 u (refs s b)" using s1(8) refs_dropped by blast
  have u1: "map_of (uuid_flow_table s1) u = Some stf'" using s1(4) by simp
  define s2 where "s2 = s1\<lparr>uuid_flow_table := AList.delete u (uuid_flow_table s1)\<rparr>"
  have s2: "destroy_stf u s1 = Some s2" "links_ok D F s2"
    using destroy_stf_ok [OF s1(2) u1 s1(5) assms(3)] by (simp_all add: s2_def)
  have s2eq: "match_flow_table s2 = match_flow_table s1" "ft_store s2 = ft_store s1" "refs s2 = refs s1"
    "map_of (uuid_flow_table s2) = (map_of (uuid_flow_table s))(u := None)" "installed_flows s2 = installed_flows s1"
    using s1(4) by (simp_all add: s2_def)
  have tbr: "set tbr \<subseteq> set (match_flow_table s2)" "set tbr \<inter> D = {}" "distinct tbr"
    using links_okD(5) [OF assms(1,4)] links_okD(4) [OF assms(1,4)] s1(6) by (auto simp: tbr_def s2eq(1))
  obtain t where t: "detach_flows tbr s2 = Some (s2\<lparr>uuid_flow_table := t\<rparr>)" "links_ok (D \<union> set tbr) F (s2\<lparr>uuid_flow_table := t\<rparr>)"
    "\<forall>v. map_of t v = None \<longleftrightarrow> map_of (uuid_flow_table s2) v = None"
    "\<forall>v. (\<forall>a \<in> set tbr. v \<notin> set (refs s2 a)) \<longrightarrow> map_of t v = map_of (uuid_flow_table s2) v"
    using detach_flows_ok [OF s2(2) tbr] by blast
  have inst3: "inst_ok (s2\<lparr>uuid_flow_table := t\<rparr>)" using s1(3) by (simp add: s2_def)
  show thesis
    by (rule that [OF s1(1) s2(1) t(1) tbr_def t(2) inst3])
      (use s1(6,7) r1 t(3,4) in \<open>auto simp: s2eq tbr_def\<close>)
qed

text \<open>The three loops and the removal of the shared flows together.\<close>

lemma subset_insert_remove1: "set xs \<subseteq> insert x (set (remove1 x xs))"
  by (induction xs) auto

lemma flood_finish:
  assumes "links_ok D F s" "u \<in> F" "map_of (uuid_flow_table s) u = Some stf" "tbr = filter (\<lambda>a. refs s a \<noteq> [u]) (stf_flows stf)"
    and s3: "set (match_flow_table s3) = set (match_flow_table s) - {b \<in> set (stf_flows stf). refs s b = [u]}"
    "\<forall>b. b \<notin> set (stf_flows stf) \<longrightarrow> ft_store s3 b = ft_store s b" "\<forall>a. a \<in> set tbr \<longrightarrow> refs s3 a = remove1 u (refs s a)"
    "\<forall>v. map_of (uuid_flow_table s) v = None \<longrightarrow> map_of (uuid_flow_table s3) v = None"
    "\<forall>v. v \<noteq> u \<longrightarrow> (\<forall>a \<in> set tbr. v \<notin> set (refs s3 a)) \<longrightarrow> map_of (uuid_flow_table s3) v = map_of (uuid_flow_table s) v"
    and fl: "flooded (set tbr) (D \<union> set tbr) (\<Union>a \<in> set tbr. set (refs s3 a)) s3 F s' F'"
    and s': "set tbr \<inter> set (match_flow_table s') = {}" "\<forall>a \<in> set tbr. set (refs s3 a) \<subseteq> F'"
  shows "flooded {} D {u} s F s' F'" "b \<in> set (match_flow_table s') \<Longrightarrow> b \<notin> D \<Longrightarrow> u \<notin> set (refs s b)"
proof -
  note fD = floodedD [OF fl] and as = links_okD(5) [OF assms(1,3)]
  have as3: "b \<notin> set (stf_flows stf)" if "b \<in> set (match_flow_table s')" for b
    using that s'(1) fD(5) s3(1) by (auto simp: assms(4))
  have same: "refs s3 b = refs s b" if "b \<notin> set (stf_flows stf)" for b using s3(2) [rule_format, OF that] by (rule refs_cong)
  have in3: "b \<in> set (match_flow_table s3)" "b \<in> set (match_flow_table s)" if "b \<in> set (match_flow_table s')" for b
    using that fD(5) s3(1) by auto
  show no_u: "u \<notin> set (refs s b)" if "b \<in> set (match_flow_table s')" "b \<notin> D" for b
    using as [of b] as3 [OF that(1)] in3 [OF that(1)] that(2) by auto
  have sub: "set (refs s3 b) \<subseteq> set (refs s b)" if "b \<in> set (match_flow_table s3)" for b
    using that s3(1) same [of b] s3(3) [rule_format, of b] set_remove1_subset [of u "refs s b"] by (cases "b \<in> set (stf_flows stf)") (auto simp: assms(4))
  have "(share s3)\<^sup>* \<subseteq> (share s)\<^sup>*" by (rule share_mono) (use s3(1) sub in auto)
  moreover have "(u, v) \<in> share s" if "a \<in> set tbr" "v \<in> set (refs s3 a)" for a v
    using that s3(3) [rule_format, OF that(1)] as [of a] notin_set_remove1 [of v "refs s a" u] unfolding share_def by (auto simp: assms(4))
  ultimately have "(u, x) \<in> (share s)\<^sup>*" if "a \<in> set tbr" "v \<in> set (refs s3 a)" "(v, x) \<in> (share s3)\<^sup>*" for a v x
    using that by (blast intro: converse_rtrancl_into_rtrancl)
  then have reach: "F' \<subseteq> F \<union> (share s)\<^sup>* `` {u}" using fD(4) by blast
  show "flooded {} D {u} s F s' F'"
  proof (rule floodedI [OF _ fD(2,3) reach])
    show "links_ok D F' s'" using links_ok_removed [OF fD(1) s'(1)] .
    fix b assume b: "b \<in> set (match_flow_table s')"
    have nt: "b \<notin> set tbr" using b s'(1) by auto
    show store: "ft_store s' b = ft_store s b" using fD(7) [OF b nt] s3(2) [rule_format, OF as3 [OF b]] by simp
    show "set (refs s' b) \<subseteq> set (refs s b)" using refs_cong [OF store] by simp
    show "v \<in> F" if "b \<notin> D" "v \<in> set (refs s b)" "v \<in> F'" for v
      using fD(9) [OF b] that nt same [OF as3 [OF b]] by auto
  next
    fix b assume b: "b \<in> set (match_flow_table s)" "b \<notin> set (match_flow_table s')"
    show "b \<notin> D \<and> set (refs s b) \<subseteq> F'"
    proof (cases "b \<in> set (stf_flows stf)")
      case True
      then have "set (refs s b) \<subseteq> insert u (if b \<in> set tbr then set (refs s3 b) else {})"
        using s3(3) [rule_format, of b] subset_insert_remove1 [of "refs s b" u] by (cases "b \<in> set tbr") (auto simp: assms(4))
      then show ?thesis using True as [of b] s'(2) assms(2) fD(3) by (auto split: if_splits)
    next
      case False
      then show ?thesis using fD(8) [of b] b s3(1) same [OF False] by (auto simp: assms(4))
    qed
  next
    fix v
    show "map_of (uuid_flow_table s') v = map_of (uuid_flow_table s) v" if "v \<notin> F'"
      using fD(10) [OF that] s3(5) [rule_format, of v] that s'(2) assms(2) fD(3) by auto
    show "map_of (uuid_flow_table s') v = None" if "map_of (uuid_flow_table s) v = None" using fD(12) [OF s3(4) [rule_format, OF that]] .
    show "map_of (uuid_flow_table s') v = None" if "v \<in> F'" "v \<notin> F" using fD(11) [OF that] .
  qed (use in3 in auto)
qed

lemma flood_record:
  fixes s :: "('m, 'a) ovn_desired_flow_table"
  assumes ok: "links_ok D (set F) s" "inst_ok s" "u \<in> set F" "card (waiting s (set F)) < Suc n"
    and stf: "map_of (uuid_flow_table s) u = Some stf" and busy: "set busy \<subseteq> D"
    and calls: "\<And>E. calls_ok n (D \<union> set E)
      (flood_remove_flows_for_sb_uuid n (busy @ E) :: uuid \<Rightarrow> ('m, 'a) ovn_desired_flow_table \<times> uuid list \<Rightarrow> _)"
  obtains s' F' where "flood_remove_flows_for_sb_uuid (Suc n) busy u (s, F) = Some (s', F')" "flooded {} D {u} s (set F) s' (set F')"
    "map_of (uuid_flow_table s') u = None" "\<forall>b. b \<in> set (match_flow_table s') \<longrightarrow> b \<notin> D \<longrightarrow> u \<notin> set (refs s b)"
proof (rule flood_prepare [OF ok(1,2,3) stf busy])
  fix tbr s1 s2 and s3 :: "('m, 'a) ovn_desired_flow_table"
  assume p: "drop_links busy True u (stf_flows stf) [] s = Some (tbr, s1)" "destroy_stf u s1 = Some s2"
    "detach_flows tbr s2 = Some s3" "tbr = filter (\<lambda>a. refs s a \<noteq> [u]) (stf_flows stf)"
    "links_ok (D \<union> set tbr) (set F) s3" "inst_ok s3"
    "set (match_flow_table s3) = set (match_flow_table s) - {b \<in> set (stf_flows stf). refs s b = [u]}"
    "\<forall>b. b \<notin> set (stf_flows stf) \<longrightarrow> ft_store s3 b = ft_store s b" "\<forall>a. a \<in> set tbr \<longrightarrow> refs s3 a = remove1 u (refs s a)"
    "map_of (uuid_flow_table s3) u = None" "\<forall>v. map_of (uuid_flow_table s) v = None \<longrightarrow> map_of (uuid_flow_table s3) v = None"
    "\<forall>v. v \<noteq> u \<longrightarrow> (\<forall>a \<in> set tbr. v \<notin> set (refs s3 a)) \<longrightarrow> map_of (uuid_flow_table s3) v = map_of (uuid_flow_table s) v"
  let ?U = "\<Union>a \<in> set tbr. set (refs s3 a)"
  have "v \<in> waiting s (set F)" if "v \<in> waiting s3 (set F)" for v
    using that p(11) [rule_format, of v] by (cases "map_of (uuid_flow_table s) v") (simp_all add: waiting_def)
  then have "waiting s3 (set F) \<subseteq> waiting s (set F)" by (rule subsetI)
  then have w: "card (waiting s3 (set F)) < Suc n" using card_mono [OF finite_waiting] ok(4) le_less_trans by blast
  have tbr: "set tbr \<subseteq> set (match_flow_table s3)" "distinct tbr"
    using links_okD(4,5) [OF ok(1) stf] p(4,7) by auto
  have U: "\<forall>a \<in> set tbr. set (refs s3 a) \<subseteq> ?U" by blast
  obtain s' F' where f: "flood_flows (flood_remove_flows_for_sb_uuid n (busy @ tbr)) tbr (s3, F) = Some (s', F')"
    "flooded (set tbr) (D \<union> set tbr) ?U s3 (set F) s' (set F')"
    "set tbr \<inter> set (match_flow_table s') = {}" "\<forall>a \<in> set tbr. set (refs s3 a) \<subseteq> set F'"
    using flood_flows_ok [OF calls Un_upper2 p(5,6) tbr w U] by blast
  note fin = flood_finish [OF ok(1,3) stf p(4,7,8,9,11,12) f(2,3,4)]
  have "flood_remove_flows_for_sb_uuid (Suc n) busy u (s, F) = Some (s', F')"
    using stf p(1,2,3) f(1) by (simp add: sb_to_flow_find_def)
  moreover have "\<forall>b. b \<in> set (match_flow_table s') \<longrightarrow> b \<notin> D \<longrightarrow> u \<notin> set (refs s b)" using fin(2) by blast
  ultimately show thesis using that fin(1) floodedD(12) [OF f(2) p(10)] by blast
qed

lemma flood_remove_calls:
  "set busy \<subseteq> D \<Longrightarrow> calls_ok n D (flood_remove_flows_for_sb_uuid n busy :: uuid \<Rightarrow> ('m, 'a) ovn_desired_flow_table \<times> uuid list \<Rightarrow> _)"
proof (induction n arbitrary: D busy)
  case 0
  then show ?case by (simp add: calls_ok_def)
next
  case (Suc n)
  have calls: "calls_ok n (D \<union> set E)
      (flood_remove_flows_for_sb_uuid n (busy @ E) :: uuid \<Rightarrow> ('m, 'a) ovn_desired_flow_table \<times> uuid list \<Rightarrow> _)" for E
    by (rule Suc.IH) (use Suc.prems in auto)
  show ?case
    unfolding calls_ok_def
  proof (intro allI impI)
    fix s :: "('m, 'a) ovn_desired_flow_table" and F u
    assume ok: "links_ok D (set F) s" "inst_ok s" "u \<in> set F" "card (waiting s (set F)) < Suc n"
    show "\<exists>s' F'. flood_remove_flows_for_sb_uuid (Suc n) busy u (s, F) = Some (s', F') \<and> flooded {} D {u} s (set F) s' (set F') \<and>
        map_of (uuid_flow_table s') u = None \<and> (\<forall>b. b \<in> set (match_flow_table s') \<longrightarrow> b \<notin> D \<longrightarrow> u \<notin> set (refs s b))"
    proof (cases "map_of (uuid_flow_table s) u")
      case None
      then have "\<forall>b. b \<in> set (match_flow_table s) \<longrightarrow> b \<notin> D \<longrightarrow> u \<notin> set (refs s b)"
        using links_okD(7) [OF ok(1), of _ u] by auto
      then show ?thesis using None flooded_refl [OF ok(1,2)] by (simp add: sb_to_flow_find_def)
    next
      case (Some stf)
      show ?thesis by (rule flood_record [OF ok Some Suc.prems calls]) blast
    qed
  qed
qed

end
