(* ===== verification/Spec2Isabelle.thy ===== *)
theory Spec2Isabelle
  imports Expr_Compile Extend_Table Ofctrl_Seqno Lflow_Conj_Ids Lflow_Cache Ipam Objdep Flow_Flood
begin

text \<open>
  A verification development for OVN (Open Virtual Network), starting with its expression compiler.

  \<^bold>\<open>Parts\<close>

  \<^item> \<open>Ovn_Prelude\<close>: three-way comparison, \<open>strcmp\<close>, \<open>qsort\<close>, monadic traversal, bit strings.
  \<^item> \<open>Ovs_Bits\<close>, \<open>Ovs_Flow\<close>: the routines of Open vSwitch that OVN calls, as parameters with
    contracts (locales \<open>ovs_bits_api\<close> and \<open>flow_api\<close>).
  \<^item> \<open>Expr_Core\<close>: \<open>struct expr\<close> and its elementary operations (\<open>lib/expr.c\<close>, \<open>include/ovn/expr.h\<close>).
  \<^item> \<open>Expr_Simplify\<close>: \<open>expr_simplify\<close> and \<open>expr_evaluate_condition\<close>.
  \<^item> \<open>Crush_Arrays\<close>, \<open>Expr_Crush\<close>: \<open>crush_or_supersets\<close> and \<open>crush_cmps\<close>.
\<close>

section \<open>Sample expressions\<close>

text \<open>\<open>ip.dscp >= 48\<close> and \<open>ip.proto == {6, 17} && icmp4.type == {0, 8}\<close>, over fields of one byte.\<close>

definition byte_sym :: "string \<Rightarrow> nat \<Rightarrow> nat \<Rightarrow> expr_level \<Rightarrow> expr_symbol" where
  "byte_sym name i width level = Expr_Symbol name width
     (Some \<lparr>mf_id = i, mf_n_bytes = 1, mf_n_bits = width, mf_fully_maskable = (level = EXPR_L_ORDINAL), mf_writable = True\<rparr>)
     None None 0 None level None False 0"

definition ip_dscp :: expr_symbol where
  "ip_dscp = byte_sym ''ip.dscp'' 1 6 EXPR_L_ORDINAL"

definition ip_proto :: expr_symbol where
  "ip_proto = byte_sym ''ip.proto'' 2 8 EXPR_L_NOMINAL"

definition icmp4_type :: expr_symbol where
  "icmp4_type = byte_sym ''icmp4.type'' 3 8 EXPR_L_NOMINAL"

definition exact_cmp :: "expr_symbol \<Rightarrow> expr_relop \<Rightarrow> nat \<Rightarrow> expr" where
  "exact_cmp s r v = Cmp None
     \<lparr>cmp_symbol = s, cmp_relop = r, cmp_string = [], cmp_value = v, cmp_mask = 2 ^ sym_width s - 1\<rparr>"

definition dscp_expr :: expr where
  "dscp_expr = exact_cmp ip_dscp EXPR_R_GE 48"


definition proto_expr :: expr where
  "proto_expr = Andor J_AND
     [Andor J_OR [exact_cmp icmp4_type EXPR_R_EQ 0, exact_cmp icmp4_type EXPR_R_EQ 8],
      Andor J_OR [exact_cmp ip_proto EXPR_R_EQ 6, exact_cmp ip_proto EXPR_R_EQ 17]]"

lemma exact_cmp_wf:
  assumes "0 < sym_width s" "v < 2 ^ sym_width s"
  shows "wf_expr (exact_cmp s r v)"
proof -
  have "(2 :: nat) ^ sym_width s - 1 = bit_range 0 (sym_width s)" by (simp add: bit_range_def mask_eq_exp_minus_1)
  then have "contiguous (2 ^ sym_width s - 1)" using assms(1) unfolding contiguous_def by blast
  moreover have "v AND (2 ^ sym_width s - 1) = v"
    using assms(2) by (metis mask_eq_exp_minus_1 take_bit_eq_mask take_bit_nat_eq_self)
  moreover have "take_bit (sym_width s) ((2 :: nat) ^ sym_width s - 1) = 2 ^ sym_width s - 1"
    by (intro take_bit_nat_eq_self) simp
  ultimately show ?thesis by (simp add: exact_cmp_def wf_cmp_def)
qed

lemma byte_sym_sel [simp]: "sym_width (byte_sym n i w l) = w" "sym_name (byte_sym n i w l) = n" "sym_level (byte_sym n i w l) = l"
  by (simp_all add: byte_sym_def)

lemma sample_wf: "wf_expr dscp_expr" "wf_expr proto_expr"
  by (simp_all add: dscp_expr_def proto_expr_def exact_cmp_wf ip_dscp_def ip_proto_def icmp4_type_def)

lemma sample_syms [simp]: "expr_syms dscp_expr = {ip_dscp}" "expr_syms proto_expr = {icmp4_type, ip_proto}"
  by (auto simp: dscp_expr_def proto_expr_def exact_cmp_def)

lemma sample_ok: "well_named {ip_dscp}" "well_named {icmp4_type, ip_proto}" "\<forall>s \<in> {icmp4_type, ip_proto}. whole_field s"
  "syms_ok ref_matches lk same_field {icmp4_type, ip_proto}"
  by (simp_all add: well_named_def whole_field_def syms_ok_def sym_ok_def apart_def ip_proto_def icmp4_type_def byte_sym_def
      ref_matches_def same_field_def)

lemma sample_plain: "strings_eq dscp_expr" "strings_eq proto_expr" "names_numeric proto_expr"
  by (simp_all add: dscp_expr_def proto_expr_def exact_cmp_def strings_eq_def ip_dscp_def ip_proto_def icmp4_type_def)

lemma proto_simplify: "expr_simplify ref_bits proto_expr = Some proto_expr"
  by code_simp

lemma proto_normalize: "expr_normalize ref_bits (expr_evaluate_condition (\<lambda>_. True) proto_expr) = Some proto_expr"
  by code_simp

lemma proto_fits: "fits proto_expr"
  by (simp add: proto_expr_def)

lemma proto_matches: "\<exists>ms. expr_to_matches ref_matches (\<lambda>_. None) proto_expr = Some (1, ms)"
  by (simp add: expr_to_matches_def proto_expr_def exact_cmp_def add_conjunction_def add_disjunction_def expr_match_new_def
      track_as_def constrain_match_def ref_matches_def ip_proto_def icmp4_type_def byte_sym_def rm_set_def)

section \<open>The expression compiler\<close>

text \<open>
  C1. The flows that the expression compiler produces (simplification, evaluation of conditions, normalization,
  translation to matches) accept exactly the packets for which the evaluator \<open>expr_evaluate\<close> says true on the original
  expression with its conditions \<open>is_chassis_resident\<close> evaluated: no phase aborts, and the conjunctive matches neither lose
  nor admit a packet.  On the expression as it is, \<open>expr_evaluate\<close> takes every port for resident, so it says the same where
  there is no such condition or every port is resident.  The condition on the normalized expression is that its clauses fit
  the 8-bit clause numbers of a conjunctive match; the fields of the expression are whole fields that do not overlap.
\<close>

theorem compiler_matches_evaluator:
  assumes "ovs_bits_api L" "match_api F M hits used overlap"
    "wf_expr e" "strings_eq e" "names_numeric e" "well_named (expr_syms e)" "syms_ok M lk overlap (expr_syms e)"
    "\<forall>s \<in> expr_syms e. whole_field s" "\<forall>a b p. lk a = Some p \<longrightarrow> lk b = Some p \<longrightarrow> a = b"
  shows "\<exists>e1 e2. expr_simplify L e = Some e1 \<and> expr_normalize L (expr_evaluate_condition resident e1) = Some e2 \<and>
    (fits e2 \<longrightarrow> (\<exists>n ms. expr_to_matches M lk e2 = Some (n, ms) \<and>
       (\<forall>fl. table_accepts M hits ms fl \<longleftrightarrow> expr_evaluate F fl lk (expr_evaluate_condition resident e) = Some True) \<and>
       (no_cond e \<or> (\<forall>s. resident s) \<longrightarrow> (\<forall>fl. table_accepts M hits ms fl \<longleftrightarrow> expr_evaluate F fl lk e = Some True))))"
proof -
  have F: "flow_api F" using assms(2) by (rule match_api.axioms(1))
  let ?c = "expr_evaluate_condition resident e"
  have c: "\<forall>s \<in> expr_syms ?c. whole_field s" "wf_expr ?c"
    using set_cmps_evaluate_condition [of resident e] assms(3,8) by (auto simp: wf_expr_def expr_syms_def)
  have "expr_evaluate F fl lk ?c = Some (sem (env_of F lk resident fl) e)" for fl
    using flow_api.evaluate_sem [OF F _ c, of resident] no_cond_evaluate_condition by (simp add: sem_evaluate_condition env_of_def)
  moreover have "expr_evaluate F fl lk e = Some (sem (env_of F lk resident fl) e)" if "no_cond e \<or> (\<forall>s. resident s)" for fl
    by (rule flow_api.evaluate_sem [OF F that assms(8,3)])
  ultimately show ?thesis
    using compile_expr_ok [OF assms(1-7,9), of resident] by auto
qed

theorem compiler_matches_evaluator_witness:
  "\<exists>n ms. expr_to_matches ref_matches (\<lambda>_. None) proto_expr = Some (n, ms) \<and>
    (\<forall>fl. table_accepts ref_matches rm_hits ms fl \<longleftrightarrow> expr_evaluate ref_flow fl (\<lambda>_. None) proto_expr = Some True)"
proof -
  have "\<exists>e1 e2. expr_simplify ref_bits proto_expr = Some e1 \<and>
      expr_normalize ref_bits (expr_evaluate_condition (\<lambda>_. True) e1) = Some e2 \<and>
      (fits e2 \<longrightarrow> (\<exists>n ms. expr_to_matches ref_matches (\<lambda>_. None) e2 = Some (n, ms) \<and>
       (\<forall>fl. table_accepts ref_matches rm_hits ms fl \<longleftrightarrow>
          expr_evaluate ref_flow fl (\<lambda>_. None) (expr_evaluate_condition (\<lambda>_. True) proto_expr) = Some True) \<and>
       (no_cond proto_expr \<or> (\<forall>s. (\<lambda>_ :: string. True) s) \<longrightarrow>
          (\<forall>fl. table_accepts ref_matches rm_hits ms fl \<longleftrightarrow> expr_evaluate ref_flow fl (\<lambda>_. None) proto_expr = Some True))))"
    by (rule compiler_matches_evaluator [OF ref.ovs_bits_api_axioms rmatch.match_api_axioms sample_wf(2) sample_plain(2,3)])
      (simp_all add: sample_ok)
  then show ?thesis by (auto simp: proto_simplify proto_normalize proto_fits)
qed

text \<open>
  C2. Normalization of a simplified expression ends, keeps the meaning of the original expression, and gives a disjunction
  of conjunctions of clauses that each concern one field: the form \<open>expr_is_normalized\<close> that the translation asserts.
\<close>

theorem expr_normalize_correct:
  assumes "ovs_bits_api L" "wf_expr e" "strings_eq e" "well_named (expr_syms e)"
  shows "\<exists>e1 e2. expr_simplify L e = Some e1 \<and> expr_normalize L (expr_evaluate_condition resident e1) = Some e2 \<and>
    expr_is_normalized e2 \<and> (\<forall>E. ports_inj E \<and> env_resident E = resident \<longrightarrow> sem E e2 = sem E e)"
  using ovs_bits_api.expr_pipeline_ok [OF assms, of resident] normal_form_is_normalized by blast

theorem expr_normalize_correct_witness:
  "\<exists>e1 e2. expr_simplify ref_bits dscp_expr = Some e1 \<and>
    expr_normalize ref_bits (expr_evaluate_condition (\<lambda>_. False) e1) = Some e2 \<and> expr_is_normalized e2"
  using expr_normalize_correct [OF ref.ovs_bits_api_axioms sample_wf(1) sample_plain(1), of "\<lambda>_. False"] sample_ok(1) by auto

text \<open>
  C3. \<open>expr_simplify\<close> never aborts on a well-formed expression; it leaves only equality
  comparisons with non-empty masks on numeric fields, keeps the structural invariants of
  \<open>struct expr\<close>, and does not change the meaning of the expression.
\<close>

theorem expr_simplify_correct:
  assumes "ovs_bits_api L" and "wf_expr e"
  shows "\<exists>e'. expr_simplify L e = Some e' \<and> expr_honors_invariants e' \<and> simple_expr e' \<and>
    (\<forall>E. sem E e' = sem E e)"
  using ovs_bits_api.simplify_correct [OF assms] by (auto simp: simple_tree_def)

theorem expr_simplify_correct_witness:
  "\<exists>e'. expr_simplify ref_bits dscp_expr = Some e' \<and> expr_honors_invariants e' \<and> simple_expr e' \<and>
    (\<forall>E. sem E e' = sem E dscp_expr)"
  by (rule expr_simplify_correct [OF ref.ovs_bits_api_axioms sample_wf(1)])



section \<open>Conjunction ids across logical flows\<close>

text \<open>
  C5. The matches of a logical flow, moved to the ids that \<open>lflow_conj_ids_alloc\<close> reserved for it, accept the packets that
  satisfy its expression, and use only ids of the reserved range: none that another flow or datapath owns.
\<close>

theorem conj_ids_of_flows_disjoint:
  assumes "ovs_bits_api L" "match_api F M hits used overlap"
    "wf_expr e" "strings_eq e" "names_numeric e" "well_named (expr_syms e)" "syms_ok M lk overlap (expr_syms e)"
    "\<forall>a b p. lk a = Some p \<longrightarrow> lk b = Some p \<longrightarrow> a = b"
    "expr_simplify L e = Some e1" "expr_normalize L (expr_evaluate_condition resident e1) = Some e2" "fits e2"
    "expr_to_matches M lk e2 = Some (n, ms)" "0 < n" "conj_reach H c" "lflow_conj_ids_alloc H c l d n = Some (s, c')" "s \<noteq> 0"
    "ms' = snd (expr_matches_prepare M sh sm sc ms (s - 1))"
  shows "(\<forall>fl. table_accepts M hits ms' fl \<longleftrightarrow> sem (env_of F lk resident fl) e) \<and>
    (\<forall>m \<in> set ms'. (\<forall>cj \<in> set (em_conjunctions m). cj_id cj \<notin> set (other_ids c l d)) \<and>
       (wc_masks_conj_id M (em_match m) \<noteq> 0 \<longrightarrow> flow_conj_id M (em_match m) \<notin> set (other_ids c l d)))"
proof -
  have ms: "ids_within M 0 n ms" "\<And>fl. table_accepts M hits ms fl \<longleftrightarrow> sem (env_of F lk resident fl) e"
    using compile_expr_ok [OF assms(1-8), of resident] assms(9-12) by auto
  have free: "free_range (other_ids c l d) s n"
    using alloc_ok [OF conj_reach_inv [OF assms(14)] assms(13), of H l d] assms(15,16) by (auto simp: search_result_def)
  then have bound: "n + (s - 1) < 2 ^ 32" using assms(13) by (auto simp: free_range_def)
  have "ids_within M (s - 1) (n + (s - 1)) ms'"
    unfolding assms(17) by (rule match_api.prepare_ids [OF assms(2) ms(1) bound])
  moreover have "table_accepts M hits ms' fl \<longleftrightarrow> sem (env_of F lk resident fl) e" for fl
    unfolding assms(17) using match_api.prepare_accepts [OF assms(2) ms(1) bound] ms(2) by blast
  moreover have "j \<notin> set (other_ids c l d)" if "s - 1 < j" "j \<le> n + (s - 1)" for j
  proof -
    have "j \<in> {s..<s + n}" using that assms(16) by auto
    then show ?thesis using free by (auto simp: free_range_def)
  qed
  ultimately show ?thesis by (simp add: ids_within_def)
qed

theorem conj_ids_of_flows_disjoint_witness:
  "\<exists>ms s c'. expr_to_matches ref_matches (\<lambda>_. None) proto_expr = Some (1, ms) \<and>
    lflow_conj_ids_alloc (\<lambda>l d. 7) lflow_conj_ids_init 1 2 1 = Some (s, c') \<and>
    (\<forall>fl. table_accepts ref_matches rm_hits (snd (expr_matches_prepare ref_matches 0 0 0 ms (s - 1))) fl \<longleftrightarrow>
       sem (env_of ref_flow (\<lambda>_. None) (\<lambda>_. True) fl) proto_expr)"
proof -
  have reach: "conj_reach (\<lambda>l d. 7) lflow_conj_ids_init" by (rule conj_reach.init)
  obtain s c' where alloc: "lflow_conj_ids_alloc (\<lambda>l d. 7) lflow_conj_ids_init 1 2 1 = Some (s, c')"
      "search_result (other_ids lflow_conj_ids_init 1 2) 1 (first_conj_id (\<lambda>l d. 7) 1 2) s"
    using alloc_ok [OF conj_reach_inv [OF reach], of 1 "\<lambda>l d. 7" 1 2] by auto
  have "free_range (other_ids lflow_conj_ids_init 1 2) 1 1"
    by (simp add: free_range_def other_ids_def lflow_conj_ids_init_def without_def)
  then have s: "s \<noteq> 0" using alloc(2) unfolding search_result_def by (metis less_Suc_eq_le not_less Suc_eq_plus1)
  obtain ms where ms: "expr_to_matches ref_matches (\<lambda>_. None) proto_expr = Some (1, ms)" using proto_matches by blast
  have "\<forall>fl. table_accepts ref_matches rm_hits (snd (expr_matches_prepare ref_matches 0 0 0 ms (s - 1))) fl \<longleftrightarrow>
      sem (env_of ref_flow (\<lambda>_. None) (\<lambda>_. True) fl) proto_expr"
    by (rule conj_ids_of_flows_disjoint [OF ref.ovs_bits_api_axioms rmatch.match_api_axioms sample_wf(2) sample_plain(2,3) _ _ _
          proto_simplify proto_normalize proto_fits ms _ reach alloc(1) s refl, THEN conjunct1]) (simp_all add: sample_ok)
  then show ?thesis using ms alloc(1) by blast
qed

end
